(* ===== verification/Kaguya_Prelude.thy ===== *)
theory Kaguya_Prelude
  imports Main "HOL-Library.Word"
begin

text \<open>
  Shared vocabulary of the development: the machine integer types of the Rust
  sources, byte codecs (\<^verbatim>\<open>to_le_bytes\<close>, \<^verbatim>\<open>from_be_bytes\<close>, ...), byte-addressed
  stores with block copies, the error-and-state monad in which the stateful
  kernel operations are written, and the list lemmas the components share.
\<close>

unbundle bit_operations_syntax

named_theorems codec "length and inversion laws of byte codecs"
named_theorems store "reads of a byte store after a write"
named_theorems run "how the state monad runs"

type_synonym u8 = "8 word"
type_synonym u16 = "16 word"
type_synonym u32 = "32 word"
type_synonym u64 = "64 word"
type_synonym bytes = "u8 list"

lemma unat_of_nat_small: "n < 2 ^ LENGTH('a) \<Longrightarrow> unat (of_nat n :: 'a::len word) = n"
  by (simp add: unat_of_nat)

section \<open>Byte codecs\<close>

text \<open>
  \<open>le_bytes n w\<close> is \<^verbatim>\<open>w.to_le_bytes()\<close> for an integer of \<open>n\<close> bytes and
  \<open>from_le\<close> its inverse; the big-endian pair is the reversal of it.
\<close>

definition le_bytes :: "nat \<Rightarrow> 'a::len word \<Rightarrow> bytes" where
  "le_bytes n w = map (\<lambda>i. ucast (drop_bit (8 * i) w)) [0..<n]"

fun from_le :: "bytes \<Rightarrow> 'a::len word" where
  "from_le [] = 0"
| "from_le (b # bs) = ucast b OR push_bit 8 (from_le bs)"

definition be_bytes :: "nat \<Rightarrow> 'a::len word \<Rightarrow> bytes" where
  "be_bytes n w = rev (le_bytes n w)"

definition from_be :: "bytes \<Rightarrow> 'a::len word" where
  "from_be bs = from_le (rev bs)"

lemma length_le_bytes [simp, codec]: "length (le_bytes n w) = n"
  by (simp add: le_bytes_def)

lemma length_be_bytes [simp, codec]: "length (be_bytes n w) = n"
  by (simp add: be_bytes_def)

lemma bit_from_le:
  "bit (from_le bs :: 'a::len word) k \<longleftrightarrow>
     k < LENGTH('a) \<and> k div 8 < length bs \<and> bit (bs ! (k div 8)) (k mod 8)"
proof (induction bs arbitrary: k)
  case Nil
  then show ?case by simp
next
  case (Cons b bs)
  show ?case
  proof (cases "k < 8")
    case True
    then show ?thesis by (auto simp: bit_simps)
  next
    case False
    then obtain j where j: "k = j + 8" by (metis add.commute le_Suc_ex not_less)
    have nb: "\<not> bit b (j + 8)" by (auto dest: bit_imp_le_length)
    have "(j + 8) div 8 = Suc (j div 8)" "(j + 8) mod 8 = j mod 8" by auto
    then show ?thesis using nb Cons [of j]
      by (auto simp: j bit_simps)
  qed
qed

declare from_le.simps [simp del]

lemma bit_le_bytes:
  assumes "i < n" "k < 8"
  shows "bit (le_bytes n w ! i) k \<longleftrightarrow> bit w (8 * i + k)"
  using assms by (simp add: le_bytes_def bit_simps)

lemma from_le_le_bytes [codec]:
  fixes w :: "'a::len word"
  assumes "LENGTH('a) = 8 * n"
  shows "from_le (le_bytes n w) = w"
proof (rule bit_word_eqI)
  fix k assume k: "k < LENGTH('a)"
  then have "k div 8 < n" using assms by auto
  then show "bit (from_le (le_bytes n w) :: 'a word) k = bit w k"
    using k by (simp add: bit_from_le bit_le_bytes)
qed

lemma le_bytes_from_le [codec]:
  assumes "LENGTH('a::len) = 8 * length bs"
  shows "le_bytes (length bs) (from_le bs :: 'a word) = bs"
proof (rule nth_equalityI)
  show "length (le_bytes (length bs) (from_le bs :: 'a word)) = length bs" by simp
next
  fix i assume "i < length (le_bytes (length bs) (from_le bs :: 'a word))"
  then have i: "i < length bs" by simp
  show "le_bytes (length bs) (from_le bs :: 'a word) ! i = bs ! i"
  proof (rule bit_word_eqI)
    fix k assume k: "k < LENGTH(8)"
    then have "8 * i + k < 8 * length bs" using i by simp
    then show "bit (le_bytes (length bs) (from_le bs :: 'a word) ! i) k = bit (bs ! i) k"
      using i k assms by (simp add: bit_le_bytes bit_from_le)
  qed
qed

lemma from_be_be_bytes [codec]:
  fixes w :: "'a::len word"
  assumes "LENGTH('a) = 8 * n"
  shows "from_be (be_bytes n w) = w"
  using from_le_le_bytes [OF assms] by (simp add: from_be_def be_bytes_def)

lemma be_bytes_from_be [codec]:
  assumes "LENGTH('a::len) = 8 * length bs"
  shows "be_bytes (length bs) (from_be bs :: 'a word) = bs"
  using le_bytes_from_le [of "rev bs", where 'a = 'a] assms
  by (simp add: from_be_def be_bytes_def)

lemmas le16 [simp] = from_le_le_bytes [where 'a = 16 and n = 2, simplified]
lemmas le32 [simp] = from_le_le_bytes [where 'a = 32 and n = 4, simplified]
lemmas le64 [simp] = from_le_le_bytes [where 'a = 64 and n = 8, simplified]
lemmas be16 [simp] = from_be_be_bytes [where 'a = 16 and n = 2, simplified]
lemmas be32 [simp] = from_be_be_bytes [where 'a = 32 and n = 4, simplified]

section \<open>Lists\<close>

text \<open>\<open>slice_of lo hi xs\<close> is the Rust slice \<^verbatim>\<open>xs[lo..hi]\<close> of an in-range pair.\<close>

definition slice_of :: "nat \<Rightarrow> nat \<Rightarrow> 'a list \<Rightarrow> 'a list" where
  "slice_of lo hi xs = take (hi - lo) (drop lo xs)"

text \<open>\<open>blit p ys xs\<close> is \<^verbatim>\<open>xs[p..p + ys.len()].copy_from_slice(ys)\<close>.\<close>

definition blit :: "nat \<Rightarrow> 'a list \<Rightarrow> 'a list \<Rightarrow> 'a list" where
  "blit p ys xs = take p xs @ ys @ drop (p + length ys) xs"

lemma length_slice_of [simp]: "length (slice_of lo hi xs) = min (hi - lo) (length xs - lo)"
  by (simp add: slice_of_def)

lemma nth_slice: "i < hi - lo \<Longrightarrow> lo + i < length xs \<Longrightarrow> slice_of lo hi xs ! i = xs ! (lo + i)"
  by (simp add: slice_of_def)

lemma slice_full [simp]: "length xs \<le> n \<Longrightarrow> slice_of 0 n xs = xs"
  by (simp add: slice_of_def)

lemma length_blit [simp]: "p + length ys \<le> length xs \<Longrightarrow> length (blit p ys xs) = length xs"
  by (simp add: blit_def)

lemma nth_blit:
  assumes "p + length ys \<le> length xs" "i < length xs"
  shows "blit p ys xs ! i = (if p \<le> i \<and> i < p + length ys then ys ! (i - p) else xs ! i)"
  using assms by (auto simp: blit_def nth_append min_def)

lemma slice_blit [simp]:
  "p + length ys \<le> length xs \<Longrightarrow> q = p + length ys \<Longrightarrow> slice_of p q (blit p ys xs) = ys"
  by (simp add: slice_of_def blit_def)

lemma slice_Cons [simp]: "0 < lo \<Longrightarrow> slice_of lo hi (x # xs) = slice_of (lo - 1) (hi - 1) xs"
  by (cases lo) (auto simp: slice_of_def)

lemma slice_append_left [simp]:
  "hi \<le> length xs \<Longrightarrow> slice_of lo hi (xs @ ys) = slice_of lo hi xs"
  by (simp add: slice_of_def)

lemma slice_append_right [simp]:
  "length xs \<le> lo \<Longrightarrow> slice_of lo hi (xs @ ys) = slice_of (lo - length xs) (hi - length xs) ys"
  by (simp add: slice_of_def)

lemma blit_two:
  "p + 1 < length xs \<Longrightarrow> xs[p := a, Suc p := b] = blit p [a, b] xs"
  by (rule nth_equalityI) (auto simp: nth_blit nth_list_update less_Suc_eq)

section \<open>Byte-addressed stores\<close>

text \<open>
  A disk or a physical memory is a function from byte addresses to bytes.
  \<open>load\<close> reads a run of bytes and \<open>put\<close> writes one.
\<close>

type_synonym store = "nat \<Rightarrow> u8"

definition load :: "nat \<Rightarrow> nat \<Rightarrow> store \<Rightarrow> bytes" where
  "load a n d = map (\<lambda>i. d (a + i)) [0..<n]"

definition put :: "nat \<Rightarrow> bytes \<Rightarrow> store \<Rightarrow> store" where
  "put a bs d = (\<lambda>x. if a \<le> x \<and> x < a + length bs then bs ! (x - a) else d x)"

lemma length_load [simp, store]: "length (load a n d) = n"
  by (simp add: load_def)

lemma nth_load: "i < n \<Longrightarrow> load a n d ! i = d (a + i)"
  by (simp add: load_def)

lemma load_put_same [simp, store]: "n = length bs \<Longrightarrow> load a n (put a bs d) = bs"
  by (rule nth_equalityI) (auto simp: load_def put_def)

lemma load_put_other [store]:
  "b + n \<le> a \<or> a + length bs \<le> b \<Longrightarrow> load b n (put a bs d) = load b n d"
  by (auto simp: load_def put_def)

lemma put_load [simp, store]: "put a (load a n d) d = d"
proof
  fix x show "put a (load a n d) d x = d x"
    by (cases "a \<le> x \<and> x < a + n") (auto simp: put_def nth_load)
qed

text \<open>Read-modify-write of a whole block touches only the bytes it modifies.\<close>

lemma put_blit_load [store]:
  assumes "p + length ys \<le> n"
  shows "put a (blit p ys (load a n d)) d = put (a + p) ys d"
proof
  fix x
  have len: "length (blit p ys (load a n d)) = n" using assms by simp
  show "put a (blit p ys (load a n d)) d x = put (a + p) ys d x"
    using assms unfolding put_def len
    by (auto simp: nth_blit nth_load diff_diff_left)
qed

lemma slice_load [store]: "hi \<le> n \<Longrightarrow> lo \<le> hi \<Longrightarrow> slice_of lo hi (load a n d) = load (a + lo) (hi - lo) d"
  by (rule nth_equalityI) (auto simp: nth_slice nth_load add.assoc)

lemma put_apply_other: "x < a \<or> a + length bs \<le> x \<Longrightarrow> put a bs d x = d x"
  by (auto simp: put_def)

section \<open>Stateful operations that may fail\<close>

text \<open>
  An operation takes the state and returns the new state with \<open>Inr\<close> a result or
  \<open>Inl\<close> an error. The state of a failing operation is kept, as the effects a Rust
  function had before its \<^verbatim>\<open>?\<close> or \<^verbatim>\<open>return Err(..)\<close> are.
\<close>

type_synonym ('s, 'e, 'a) op = "'s \<Rightarrow> ('e + 'a) \<times> 's"

definition ret :: "'a \<Rightarrow> ('s, 'e, 'a) op" where
  "ret x s = (Inr x, s)"

definition throw :: "'e \<Rightarrow> ('s, 'e, 'a) op" where
  "throw e s = (Inl e, s)"

definition bind :: "('s, 'e, 'a) op \<Rightarrow> ('a \<Rightarrow> ('s, 'e, 'b) op) \<Rightarrow> ('s, 'e, 'b) op" where
  "bind m f s = (case m s of (Inl e, s') \<Rightarrow> (Inl e, s') | (Inr x, s') \<Rightarrow> f x s')"

definition get :: "('s \<Rightarrow> 'a) \<Rightarrow> ('s, 'e, 'a) op" where
  "get f s = (Inr (f s), s)"

definition modify :: "('s \<Rightarrow> 's) \<Rightarrow> ('s, 'e, unit) op" where
  "modify f s = (Inr (), f s)"

definition ok_or :: "'e \<Rightarrow> 'a option \<Rightarrow> ('s, 'e, 'a) op" where
  "ok_or e x = (case x of None \<Rightarrow> throw e | Some y \<Rightarrow> ret y)"

lemma ret_run [simp, run]: "ret x s = (Inr x, s)" by (simp add: ret_def)
lemma throw_run [simp, run]: "throw e s = (Inl e, s)" by (simp add: throw_def)
lemma get_run [simp, run]: "get f s = (Inr (f s), s)" by (simp add: get_def)
lemma modify_run [simp, run]: "modify f s = (Inr (), f s)" by (simp add: modify_def)
lemma ok_or_run [simp, run]:
  "ok_or e None s = (Inl e, s)" "ok_or e (Some y) s = (Inr y, s)"
  by (simp_all add: ok_or_def)

lemma bind_Inr [run]: "m s = (Inr x, s') \<Longrightarrow> bind m f s = f x s'"
  by (simp add: bind_def)

lemma bind_Inl [run]: "m s = (Inl e, s') \<Longrightarrow> bind m f s = (Inl e, s')"
  by (simp add: bind_def)

lemma bind_ret [simp]: "bind (ret x) f = f x"
  by (rule ext) (simp add: bind_def)

lemma bind_throw [simp]: "bind (throw e) f = throw e"
  by (rule ext) (simp add: bind_def)

lemma bind_eq_Inr:
  "bind m f s = (Inr y, t) \<longleftrightarrow> (\<exists>x s'. m s = (Inr x, s') \<and> f x s' = (Inr y, t))"
  by (auto simp: bind_def split: prod.splits sum.splits)

lemma bind_eq_Inl:
  "bind m f s = (Inl e, t) \<longleftrightarrow>
     m s = (Inl e, t) \<or> (\<exists>x s'. m s = (Inr x, s') \<and> f x s' = (Inl e, t))"
  by (auto simp: bind_def split: prod.splits sum.splits)

text \<open>\<open>pure_op m\<close>: \<open>m\<close> never changes the state.\<close>

definition pure_op :: "('s, 'e, 'a) op \<Rightarrow> bool" where
  "pure_op m \<longleftrightarrow> (\<forall>s. snd (m s) = s)"

lemma pure_opD: "pure_op m \<Longrightarrow> m s = (r, t) \<Longrightarrow> t = s"
  by (metis pure_op_def snd_conv)

lemma pure_op_basic [intro, simp]:
  "pure_op (ret x)" "pure_op (throw e)" "pure_op (get f)" "pure_op (ok_or e z)" "pure_op (Pair r)"
  by (auto simp: pure_op_def ok_or_def split: option.split)

lemma pure_op_bind [intro]:
  assumes "pure_op m" "\<And>x. pure_op (f x)"
  shows "pure_op (bind m f)"
proof -
  have "snd (bind m f s) = s" for s
  proof (cases "m s")
    case (Pair r t)
    then have "t = s" using assms(1) by (auto dest: pure_opD)
    then show ?thesis using Pair assms(2)
      by (cases r) (auto simp: bind_def pure_op_def)
  qed
  then show ?thesis by (simp add: pure_op_def)
qed

section \<open>Indexed stores\<close>

text \<open>
  The interface between the on-disk arrays (the FAT, the root directory, the data
  clusters) and the code above them: cells that can be read and written one by
  one. \<open>cell\<close> is the set of valid indices and \<open>fits\<close> the values a cell can hold.
\<close>

locale indexed_store =
  fixes rd :: "'i \<Rightarrow> 'd \<Rightarrow> 'v" and wr :: "'i \<Rightarrow> 'v \<Rightarrow> 'd \<Rightarrow> 'd"
    and cell :: "'i \<Rightarrow> bool" and fits :: "'v \<Rightarrow> bool"
  assumes rd_wr_same: "cell i \<Longrightarrow> fits v \<Longrightarrow> rd i (wr i v d) = v"
    and rd_wr_other: "cell i \<Longrightarrow> cell j \<Longrightarrow> fits v \<Longrightarrow> i \<noteq> j \<Longrightarrow> rd j (wr i v d) = rd j d"
begin

lemma rd_wr:
  "cell i \<Longrightarrow> cell j \<Longrightarrow> fits v \<Longrightarrow> rd j (wr i v d) = (if i = j then v else rd j d)"
  by (simp add: rd_wr_same rd_wr_other)

lemma rd_fold_wr:
  assumes "\<forall>i\<in>set is. cell i" "cell j" "\<And>i. fits (f i)"
  shows "rd j (fold (\<lambda>i. wr i (f i)) is d) = (if j \<in> set is then f j else rd j d)"
  using assms by (induction "is" arbitrary: d) (auto simp: rd_wr)

end

end
