(* ===== verification/Fs_Device.thy ===== *)
theory Fs_Device
  imports Kaguya_Prelude
begin

text \<open>
  The bottom of the filesystem of \<^verbatim>\<open>src/src/fs.rs\<close>: layout constants, error
  codes, the block device behind \<^verbatim>\<open>read_blocks_unlocked\<close> and
  \<^verbatim>\<open>write_blocks_unlocked\<close> (the RAM disk of the \<^verbatim>\<open>hardware-shell\<close> build or the NVMe
  namespace of the default one), and the boot sector.
\<close>

section \<open>Layout constants\<close>

abbreviation (input) BLOCK_SIZE :: nat where "BLOCK_SIZE \<equiv> 512"
abbreviation (input) SECTORS_PER_CLUSTER :: u32 where "SECTORS_PER_CLUSTER \<equiv> 8"
abbreviation (input) BOOT_SECTOR_LBA :: u64 where "BOOT_SECTOR_LBA \<equiv> 0"
abbreviation (input) FAT_SECTORS :: nat where "FAT_SECTORS \<equiv> 64"
abbreviation (input) FAT_START_LBA :: u64 where "FAT_START_LBA \<equiv> 1"
abbreviation (input) ROOT_DIR_SECTORS :: nat where "ROOT_DIR_SECTORS \<equiv> 16"
abbreviation (input) ROOT_DIR_ENTRIES :: nat where "ROOT_DIR_ENTRIES \<equiv> 256"
abbreviation (input) ROOT_DIR_START_LBA :: u64 where "ROOT_DIR_START_LBA \<equiv> 65"
abbreviation (input) DATA_START_LBA :: u64 where "DATA_START_LBA \<equiv> 81"
abbreviation (input) DIR_ENTRIES_PER_SECTOR :: nat where "DIR_ENTRIES_PER_SECTOR \<equiv> 16"
abbreviation (input) CLUSTER_BYTES :: nat where "CLUSTER_BYTES \<equiv> 4096"
abbreviation (input) FAT_ENTRY_FREE :: u16 where "FAT_ENTRY_FREE \<equiv> 0"
abbreviation (input) FAT_ENTRY_EOC :: u16 where "FAT_ENTRY_EOC \<equiv> 0xFFFF"
abbreviation (input) FAT_ENTRY_RESERVED :: u16 where "FAT_ENTRY_RESERVED \<equiv> 0xFFF0"
abbreviation (input) FAT_MAGIC :: u64 where "FAT_MAGIC \<equiv> 0x4B41474641543136"

section \<open>Errors\<close>

datatype FsError =
    NotReady | InvalidArgument | DeviceError | NotFormatted | NoSpace | FileNotFound
  | BadDescriptor | TooManyOpenFiles | BrokenPipe | AddressInUse | TimedOut
  | NetworkUnreachable | NotConnected | ConnectionRefused | ConnectionReset

fun FsError_code :: "FsError \<Rightarrow> int" where
  "FsError_code NotReady = -1"
| "FsError_code InvalidArgument = -2"
| "FsError_code DeviceError = -3"
| "FsError_code NotFormatted = -4"
| "FsError_code NoSpace = -5"
| "FsError_code FileNotFound = -6"
| "FsError_code BadDescriptor = -7"
| "FsError_code TooManyOpenFiles = -8"
| "FsError_code BrokenPipe = -9"
| "FsError_code AddressInUse = -10"
| "FsError_code TimedOut = -11"
| "FsError_code NetworkUnreachable = -12"
| "FsError_code NotConnected = -13"
| "FsError_code ConnectionRefused = -14"
| "FsError_code ConnectionReset = -15"

section \<open>The block device\<close>

text \<open>
  \<open>RamDisk present\<close> is the \<^verbatim>\<open>RAM_DISK\<close> pointer of the \<^verbatim>\<open>hardware-shell\<close> build
  (\<open>present\<close>: it is not null). \<open>Nvme nsid status\<close> is the default build's device: the
  namespace \<^verbatim>\<open>nvme::default_nsid()\<close> returns, and whether a transfer (read or write,
  first block, number of blocks) completes with status 0. The device's behaviour is
  a parameter: a transfer that completes moves the data, one that does not leaves
  the medium alone.
\<close>

datatype device =
    RamDisk bool
  | Nvme "u32 option" "bool \<Rightarrow> nat \<Rightarrow> nat \<Rightarrow> bool"

fun TOTAL_SECTORS :: "device \<Rightarrow> nat" where
  "TOTAL_SECTORS (RamDisk _) = 16384"
| "TOTAL_SECTORS (Nvme _ _) = 2097152"

definition TOTAL_CLUSTERS :: "device \<Rightarrow> nat" where
  "TOTAL_CLUSTERS d = (TOTAL_SECTORS d - 81) div 8"

text \<open>The state of the filesystem module: device, medium and in-memory generations.\<close>

record fs_state =
  dev :: device
  disk :: store
  SLOT_GENERATIONS :: "u32 list"

type_synonym 'a fsop = "(fs_state, FsError, 'a) op"

fun is_ready :: "device \<Rightarrow> bool" where
  "is_ready (RamDisk present) = present"
| "is_ready (Nvme nsid _) = (nsid \<noteq> None)"

definition checked_end :: "u64 \<Rightarrow> u32 \<Rightarrow> nat option" where
  "checked_end lba count =
     (if unat lba + unat count < 2 ^ 64 then Some (unat lba + unat count) else None)"

definition ram_transfer :: "u64 \<Rightarrow> u32 \<Rightarrow> bytes \<Rightarrow> bool \<Rightarrow> bytes fsop" where
  "ram_transfer lba count buffer wr =
     bind (get dev) (\<lambda>d.
       if \<not> is_ready d then throw NotReady
       else case checked_end lba count of
         None \<Rightarrow> throw InvalidArgument
       | Some e \<Rightarrow>
           if e > TOTAL_SECTORS d then throw InvalidArgument
           else if wr then
             bind (modify (\<lambda>s. s\<lparr>disk := put (unat lba * BLOCK_SIZE)
                      (take (unat count * BLOCK_SIZE) buffer) (disk s)\<rparr>)) (\<lambda>_. ret buffer)
           else get (\<lambda>s. load (unat lba * BLOCK_SIZE) (unat count * BLOCK_SIZE) (disk s)))"

definition read_blocks_unlocked :: "u64 \<Rightarrow> u32 \<Rightarrow> bool \<Rightarrow> bytes fsop" where
  "read_blocks_unlocked lba count null_buffer =
     (if count = 0 \<or> null_buffer then throw InvalidArgument
      else bind (get dev) (\<lambda>d. case d of
        RamDisk _ \<Rightarrow> ram_transfer lba count [] False
      | Nvme nsid status \<Rightarrow>
          bind (ok_or NotReady nsid) (\<lambda>_.
            if status False (unat lba) (unat count)
            then get (\<lambda>s. load (unat lba * BLOCK_SIZE) (unat count * BLOCK_SIZE) (disk s))
            else throw DeviceError)))"

definition write_blocks_unlocked :: "u64 \<Rightarrow> u32 \<Rightarrow> bytes option \<Rightarrow> unit fsop" where
  "write_blocks_unlocked lba count buffer =
     (case buffer of
        None \<Rightarrow> throw InvalidArgument
      | Some buf \<Rightarrow>
          if count = 0 then throw InvalidArgument
          else bind (get dev) (\<lambda>d. case d of
            RamDisk _ \<Rightarrow> bind (ram_transfer lba count buf True) (\<lambda>_. ret ())
          | Nvme nsid status \<Rightarrow>
              bind (ok_or NotReady nsid) (\<lambda>_.
                if status True (unat lba) (unat count)
                then modify (\<lambda>s. s\<lparr>disk := put (unat lba * BLOCK_SIZE)
                        (take (unat count * BLOCK_SIZE) buf) (disk s)\<rparr>)
                else throw DeviceError)))"

definition read_block_unlocked :: "u64 \<Rightarrow> bytes fsop" where
  "read_block_unlocked lba = read_blocks_unlocked lba 1 False"

definition write_block_unlocked :: "u64 \<Rightarrow> bytes \<Rightarrow> unit fsop" where
  "write_block_unlocked lba buffer = write_blocks_unlocked lba 1 (Some buffer)"

text \<open>
  \<open>dev_ok d\<close>: the device is present and serves every transfer inside its capacity.
  The RAM disk is one as soon as its pointer is set; an NVMe namespace is one when
  its commands complete.
\<close>

fun dev_ok :: "device \<Rightarrow> bool" where
  "dev_ok (RamDisk present) = present"
| "dev_ok (Nvme nsid status) =
     (nsid \<noteq> None \<and> (\<forall>w lba count. lba + count \<le> 2097152 \<longrightarrow> status w lba count))"

lemma dev_ok_ready [simp]: "dev_ok d \<Longrightarrow> is_ready d"
  by (cases d) auto

lemma read_blocks_ok [run]:
  assumes "dev_ok (dev s)" "count \<noteq> 0" "unat lba + unat count \<le> TOTAL_SECTORS (dev s)"
  shows "read_blocks_unlocked lba count False s =
           (Inr (load (unat lba * 512) (unat count * 512) (disk s)), s)"
  using assms
  by (cases "dev s")
     (auto simp: read_blocks_unlocked_def ram_transfer_def checked_end_def bind_def)

lemma write_blocks_ok [run]:
  assumes "dev_ok (dev s)" "count \<noteq> 0" "unat lba + unat count \<le> TOTAL_SECTORS (dev s)"
    and "length buf = unat count * 512"
  shows "write_blocks_unlocked lba count (Some buf) s =
           (Inr (), s\<lparr>disk := put (unat lba * 512) buf (disk s)\<rparr>)"
  using assms
  by (cases "dev s")
     (auto simp: write_blocks_unlocked_def ram_transfer_def checked_end_def bind_def)

lemma read_block_ok [run]:
  assumes "dev_ok (dev s)" "unat lba < TOTAL_SECTORS (dev s)"
  shows "read_block_unlocked lba s = (Inr (load (unat lba * 512) 512 (disk s)), s)"
  using assms by (simp add: read_block_unlocked_def read_blocks_ok)

lemma write_block_ok [run]:
  assumes "dev_ok (dev s)" "unat lba < TOTAL_SECTORS (dev s)" "length buf = 512"
  shows "write_block_unlocked lba buf s = (Inr (), s\<lparr>disk := put (unat lba * 512) buf (disk s)\<rparr>)"
  using assms by (simp add: write_block_unlocked_def write_blocks_ok)

lemma pure_read_blocks [intro, simp]: "pure_op (read_blocks_unlocked lba count nb)"
  unfolding read_blocks_unlocked_def ram_transfer_def
  by (auto split: device.split option.split simp: pure_op_def bind_def ok_or_def)

lemma pure_read_block [intro, simp]: "pure_op (read_block_unlocked lba)"
  by (simp add: read_block_unlocked_def)

text \<open>A write leaves the device and the generations alone, whatever its outcome.\<close>

lemma write_blocks_frame:
  "write_blocks_unlocked lba count buf s = (r, t) \<Longrightarrow>
     dev t = dev s \<and> SLOT_GENERATIONS t = SLOT_GENERATIONS s"
  unfolding write_blocks_unlocked_def ram_transfer_def
  by (auto simp: bind_def ok_or_def split: device.splits option.splits if_splits)

lemma write_blocks_effect:
  assumes "write_blocks_unlocked lba count (Some buf) s = (r, t)" "length buf = unat count * 512"
  shows "t = (case r of Inl _ \<Rightarrow> s | Inr _ \<Rightarrow> s\<lparr>disk := put (unat lba * 512) buf (disk s)\<rparr>)"
  using assms unfolding write_blocks_unlocked_def ram_transfer_def
  by (auto simp: bind_def ok_or_def split: device.splits option.splits if_splits)

lemma read_blocks_effect:
  assumes "read_blocks_unlocked lba count nb s = (Inr buf, t)"
  shows "t = s \<and> buf = load (unat lba * 512) (unat count * 512) (disk s)"
  using assms unfolding read_blocks_unlocked_def ram_transfer_def
  by (auto simp: bind_def ok_or_def split: device.splits option.splits if_splits)

lemma read_block_effect:
  assumes "read_block_unlocked lba s = (Inr buf, t)"
  shows "t = s \<and> buf = load (unat lba * 512) 512 (disk s)"
  using read_blocks_effect [OF assms [unfolded read_block_unlocked_def]] by simp

lemma write_block_effect:
  assumes "write_block_unlocked lba buf s = (r, t)" "length buf = 512"
  shows "t = (case r of Inl _ \<Rightarrow> s | Inr _ \<Rightarrow> s\<lparr>disk := put (unat lba * 512) buf (disk s)\<rparr>)"
  using write_blocks_effect [OF assms(1) [unfolded write_block_unlocked_def]] assms(2) by simp

section \<open>The boot sector\<close>

record BootSector =
  magic :: u64
  bytes_per_sector :: u16
  sectors_per_cluster :: u32
  fat_start_lba :: u32
  fat_sectors :: u32
  root_dir_start_lba :: u32
  root_dir_sectors :: u32
  data_start_lba :: u32
  total_clusters :: u32
  padding :: bytes

text \<open>The packed \<^verbatim>\<open>repr(C)\<close> layout, in declaration order.\<close>

definition BootSector_bytes :: "BootSector \<Rightarrow> bytes" where
  "BootSector_bytes b = le_bytes 8 (magic b) @ le_bytes 2 (bytes_per_sector b) @
     le_bytes 4 (sectors_per_cluster b) @ le_bytes 4 (fat_start_lba b) @
     le_bytes 4 (fat_sectors b) @ le_bytes 4 (root_dir_start_lba b) @
     le_bytes 4 (root_dir_sectors b) @ le_bytes 4 (data_start_lba b) @
     le_bytes 4 (total_clusters b) @ padding b"

definition BootSector_read :: "bytes \<Rightarrow> BootSector" where
  "BootSector_read buf = \<lparr>magic = from_le (slice_of 0 8 buf),
     bytes_per_sector = from_le (slice_of 8 10 buf), sectors_per_cluster = from_le (slice_of 10 14 buf),
     fat_start_lba = from_le (slice_of 14 18 buf), fat_sectors = from_le (slice_of 18 22 buf),
     root_dir_start_lba = from_le (slice_of 22 26 buf), root_dir_sectors = from_le (slice_of 26 30 buf),
     data_start_lba = from_le (slice_of 30 34 buf), total_clusters = from_le (slice_of 34 38 buf),
     padding = slice_of 38 512 buf\<rparr>"

definition read_boot_sector_unlocked :: "BootSector fsop" where
  "read_boot_sector_unlocked =
     bind (get dev) (\<lambda>d. if \<not> is_ready d then throw NotReady else
     bind (read_block_unlocked BOOT_SECTOR_LBA) (\<lambda>buf.
       let bs = BootSector_read buf in
       if magic bs = FAT_MAGIC then ret bs else throw NotFormatted))"

definition write_boot_sector_unlocked :: "BootSector \<Rightarrow> unit fsop" where
  "write_boot_sector_unlocked bs =
     bind (get dev) (\<lambda>d. if \<not> is_ready d then throw NotReady
       else write_block_unlocked BOOT_SECTOR_LBA (BootSector_bytes bs))"

end
