(* ===== verification/Fs_Fat.thy ===== *)
theory Fs_Fat
  imports Fs_Device
begin

text \<open>
  The file allocation table of \<^verbatim>\<open>src/src/fs.rs\<close>: reading and writing entries,
  allocating a cluster, releasing and walking a chain, and the data clusters
  themselves. The table is seen through \<open>fat_of\<close>, the array of entries the FAT
  sectors hold; chains of it through \<open>is_chain\<close>.
\<close>

section \<open>Operations\<close>

definition cluster_to_lba :: "u16 \<Rightarrow> u64" where
  "cluster_to_lba cluster = DATA_START_LBA + (ucast cluster - 2) * ucast SECTORS_PER_CLUSTER"

definition read_fat_entry_unlocked :: "u16 \<Rightarrow> u16 fsop" where
  "read_fat_entry_unlocked cluster =
     (let entries_per_sector = BLOCK_SIZE div 2;
          sector_index = unat cluster div entries_per_sector;
          entry_index = unat cluster mod entries_per_sector
      in if sector_index \<ge> FAT_SECTORS then throw InvalidArgument
         else bind (read_block_unlocked (FAT_START_LBA + of_nat sector_index)) (\<lambda>buf.
           let offset = entry_index * 2
           in ret (from_le [buf ! offset, buf ! Suc offset])))"

definition write_fat_entry_unlocked :: "u16 \<Rightarrow> u16 \<Rightarrow> unit fsop" where
  "write_fat_entry_unlocked cluster val =
     (let entries_per_sector = BLOCK_SIZE div 2;
          sector_index = unat cluster div entries_per_sector;
          entry_index = unat cluster mod entries_per_sector
      in if sector_index \<ge> FAT_SECTORS then throw InvalidArgument
         else let lba = FAT_START_LBA + of_nat sector_index in
           bind (read_block_unlocked lba) (\<lambda>buf.
             let offset = entry_index * 2; bytes = le_bytes 2 val
             in write_block_unlocked lba (buf[offset := bytes ! 0, Suc offset := bytes ! 1])))"

definition max_cluster :: "device \<Rightarrow> u16" where
  "max_cluster d = of_nat (min (TOTAL_CLUSTERS d + 1) (FAT_SECTORS * (BLOCK_SIZE div 2) - 1))"

text \<open>The body of \<^verbatim>\<open>for cluster in 2u16..=max_cluster\<close> over the remaining range.\<close>

fun alloc_loop :: "u16 list \<Rightarrow> u16 fsop" where
  "alloc_loop [] = throw NoSpace"
| "alloc_loop (cluster # rest) =
     bind (read_fat_entry_unlocked cluster) (\<lambda>entry.
       if entry = FAT_ENTRY_FREE
       then bind (write_fat_entry_unlocked cluster FAT_ENTRY_EOC) (\<lambda>_. ret cluster)
       else alloc_loop rest)"

definition cluster_range :: "device \<Rightarrow> u16 list" where
  "cluster_range d = map of_nat [2..<Suc (unat (max_cluster d))]"

definition alloc_cluster_unlocked :: "u16 fsop" where
  "alloc_cluster_unlocked = bind (get dev) (\<lambda>d. alloc_loop (cluster_range d))"

definition is_data_cluster :: "u16 \<Rightarrow> bool" where
  "is_data_cluster cluster \<longleftrightarrow> cluster \<ge> 2 \<and> cluster < FAT_ENTRY_RESERVED"

section \<open>The table as an array\<close>

definition fat_of :: "u16 \<Rightarrow> store \<Rightarrow> u16" where
  "fat_of c d = from_le (load (512 + 2 * unat c) 2 d)"

definition fat_put :: "u16 \<Rightarrow> u16 \<Rightarrow> store \<Rightarrow> store" where
  "fat_put c v d = put (512 + 2 * unat c) (le_bytes 2 v) d"

definition fat_cell :: "u16 \<Rightarrow> bool" where
  "fat_cell c \<longleftrightarrow> unat c < 16384"

interpretation fat: indexed_store fat_of fat_put fat_cell "\<lambda>_. True"
proof
  fix i j v d
  show "fat_of i (fat_put i v d) = v" by (simp add: fat_of_def fat_put_def)
  assume "i \<noteq> j"
  then have "unat i \<noteq> unat j" by (simp add: word_unat_eq_iff)
  then show "fat_of j (fat_put i v d) = fat_of j d"
    unfolding fat_of_def fat_put_def by (subst load_put_other) auto
qed

lemmas fat_put_simps [simp] = fat.rd_wr

lemma total_sectors_ge [simp]: "n \<le> 16384 \<Longrightarrow> n \<le> TOTAL_SECTORS d" "n < 16384 \<Longrightarrow> n < TOTAL_SECTORS d"
  by (cases d; simp)+

lemma unat_fat_lba: "k < 64 \<Longrightarrow> unat (1 + of_nat k :: u64) = Suc k"
  by (simp add: unat_word_ariths unat_of_nat)

lemma fat_addr: "(Suc (c div 256)) * 512 + c mod 256 * 2 = 512 + 2 * (c::nat)"
proof -
  have "256 * (c div 256) + c mod 256 = c" by simp
  then have "2 * (256 * (c div 256) + c mod 256) = 2 * c" by (rule arg_cong)
  then show ?thesis by (simp only: mult_Suc add_mult_distrib2)
qed

lemma load_pair:
  assumes "Suc p < n"
  shows "[load a n d ! p, load a n d ! Suc p] = load (a + p) 2 d"
  using assms by (simp add: load_def numeral_2_eq_2)

lemma fat_lba:
  "fat_cell c \<Longrightarrow> unat (1 + of_nat (unat c div 256) :: u64) = Suc (unat c div 256)"
  by (rule unat_fat_lba) (auto simp: fat_cell_def)

lemma fat_pair:
  assumes "fat_cell c"
  shows "from_le [load (Suc (unat c div 256) * 512) 512 d ! (unat c mod 256 * 2),
                  load (Suc (unat c div 256) * 512) 512 d ! Suc (unat c mod 256 * 2)] = fat_of c d"
proof -
  have "unat c mod 256 < 256" by simp
  then have "Suc (unat c mod 256 * 2) < 512" by linarith
  then show ?thesis by (simp only: load_pair fat_addr fat_of_def)
qed

lemma fat_blit:
  assumes "fat_cell c"
  shows "put (Suc (unat c div 256) * 512)
           ((load (Suc (unat c div 256) * 512) 512 d)[unat c mod 256 * 2 := le_bytes 2 v ! 0,
               Suc (unat c mod 256 * 2) := le_bytes 2 v ! 1]) d = fat_put c v d"
proof -
  have "unat c mod 256 < 256" by simp
  then have lt: "unat c mod 256 * 2 + 1 < 512" by linarith
  have two: "[le_bytes 2 v ! 0, le_bytes 2 v ! 1] = le_bytes 2 v"
    by (simp add: le_bytes_def numeral_2_eq_2)
  show ?thesis using lt
    by (simp only: blit_two length_load two put_blit_load length_le_bytes fat_addr fat_put_def)
qed

text \<open>What a successful entry access did, on any device.\<close>

lemma read_fat_effect:
  assumes "read_fat_entry_unlocked c s = (Inr v, t)"
  shows "t = s \<and> fat_cell c \<and> v = fat_of c (disk s)"
proof -
  have c: "fat_cell c"
    using assms by (auto simp: read_fat_entry_unlocked_def Let_def fat_cell_def bind_def
        split: if_splits prod.splits sum.splits)
  obtain buf where buf: "read_block_unlocked (FAT_START_LBA + of_nat (unat c div 256)) s = (Inr buf, t)"
    and v: "v = from_le [buf ! (unat c mod 256 * 2), buf ! Suc (unat c mod 256 * 2)]"
    using assms by (auto simp: read_fat_entry_unlocked_def Let_def bind_eq_Inr split: if_splits)
  show ?thesis using read_block_effect [OF buf] v c
    by (simp only: fat_lba fat_pair)
qed

lemma write_fat_effect:
  assumes "write_fat_entry_unlocked c v s = (r, t)"
  shows "t = (case r of Inl _ \<Rightarrow> s | Inr _ \<Rightarrow> s\<lparr>disk := fat_put c v (disk s)\<rparr>)
         \<and> ((\<exists>x. r = Inr x) \<longrightarrow> fat_cell c)"
proof (cases "fat_cell c")
  case False
  then have "unat c div 256 \<ge> 64" by (auto simp: fat_cell_def)
  then show ?thesis using assms by (auto simp: write_fat_entry_unlocked_def)
next
  case True
  let ?lba = "FAT_START_LBA + of_nat (unat c div 256) :: u64"
  have lt: "\<not> unat c div 256 \<ge> 64" using True by (auto simp: fat_cell_def)
  let ?upd = "\<lambda>buf. buf[unat c mod 256 * 2 := le_bytes 2 v ! 0,
               Suc (unat c mod 256 * 2) := le_bytes 2 v ! 1]"
  have run: "bind (read_block_unlocked ?lba) (\<lambda>buf. write_block_unlocked ?lba (?upd buf)) s = (r, t)"
    using assms lt by (simp add: write_fat_entry_unlocked_def Let_def)
  obtain q where q: "read_block_unlocked ?lba s = (q, s)"
    using pure_read_block pure_opD by (metis surj_pair)
  show ?thesis
  proof (cases q)
    case (Inl e)
    with q run show ?thesis using True by (auto simp: bind_def)
  next
    case (Inr buf)
    have buf: "buf = load (Suc (unat c div 256) * 512) 512 (disk s)"
      using read_block_effect [of ?lba s buf s] q Inr fat_lba [OF True] by simp
    have w: "write_block_unlocked ?lba (?upd buf) s = (r, t)"
      using run q Inr by (simp add: bind_def)
    have len: "length (?upd buf) = 512" by (simp add: buf)
    have upd: "put (unat ?lba * 512) (?upd buf) (disk s) = fat_put c v (disk s)"
      unfolding buf fat_lba [OF True] by (rule fat_blit [OF True])
    show ?thesis using write_block_effect [OF w len, unfolded upd] True by simp
  qed
qed

text \<open>On a working device every entry of the table can be accessed.\<close>

lemma read_fat_block:
  assumes "dev_ok (dev s)" "fat_cell c"
  shows "read_block_unlocked (FAT_START_LBA + of_nat (unat c div 256)) s =
           (Inr (load (Suc (unat c div 256) * 512) 512 (disk s)), s)"
proof -
  have "Suc (unat c div 256) < 16384" using assms(2) by (auto simp: fat_cell_def)
  then have "unat (FAT_START_LBA + of_nat (unat c div 256) :: u64) < TOTAL_SECTORS (dev s)"
    by (simp only: fat_lba [OF assms(2)] total_sectors_ge)
  from read_block_ok [OF assms(1) this] show ?thesis
    by (simp only: fat_lba [OF assms(2)])
qed

lemma read_fat_ok [run]:
  assumes "dev_ok (dev s)" "fat_cell c"
  shows "read_fat_entry_unlocked c s = (Inr (fat_of c (disk s)), s)"
proof -
  have "\<not> unat c div 256 \<ge> 64" using assms(2) by (auto simp: fat_cell_def)
  then show ?thesis
    using read_fat_block [OF assms] fat_pair [OF assms(2), of "disk s"]
    by (simp add: read_fat_entry_unlocked_def Let_def bind_def del: mult_Suc)
qed

lemma write_fat_ok [run]:
  assumes "dev_ok (dev s)" "fat_cell c"
  shows "write_fat_entry_unlocked c v s = (Inr (), s\<lparr>disk := fat_put c v (disk s)\<rparr>)"
proof -
  let ?lba = "FAT_START_LBA + of_nat (unat c div 256) :: u64"
  have lt: "\<not> unat c div 256 \<ge> 64" and "Suc (unat c div 256) < 16384"
    using assms(2) by (auto simp: fat_cell_def)
  then have "unat ?lba < TOTAL_SECTORS (dev s)"
    by (simp only: fat_lba [OF assms(2)] total_sectors_ge)
  from write_block_ok [OF assms(1) this] have
    "write_block_unlocked ?lba ((load (Suc (unat c div 256) * 512) 512 (disk s))
        [unat c mod 256 * 2 := le_bytes 2 v ! 0, Suc (unat c mod 256 * 2) := le_bytes 2 v ! 1]) s =
     (Inr (), s\<lparr>disk := fat_put c v (disk s)\<rparr>)"
    by (simp only: fat_lba [OF assms(2)] fat_blit [OF assms(2)] length_list_update length_load)
  then show ?thesis using lt
    by (simp add: write_fat_entry_unlocked_def Let_def bind_def read_fat_block [OF assms]
        del: mult_Suc One_nat_def)
qed

section \<open>Allocation\<close>

definition valid_cluster :: "device \<Rightarrow> u16 \<Rightarrow> bool" where
  "valid_cluster d c \<longleftrightarrow> 2 \<le> c \<and> c \<le> max_cluster d"

lemma max_cluster_simps [simp]:
  "max_cluster (RamDisk b) = 2038" "max_cluster (Nvme n st) = 16383"
  by (simp_all add: max_cluster_def TOTAL_CLUSTERS_def)

lemma max_cluster_le: "max_cluster d \<le> 16383"
  by (cases d) simp_all

lemma valid_clusterD [dest]:
  assumes "valid_cluster d c"
  shows "fat_cell c" "is_data_cluster c" "c \<ge> 2" "c \<noteq> 0"
proof -
  have le: "c \<le> 16383" "2 \<le> c" using assms max_cluster_le [of d] by (auto simp: valid_cluster_def)
  then have "unat c \<le> 16383" by (simp add: word_le_nat_alt)
  then show "fat_cell c" by (simp add: fat_cell_def)
  show "is_data_cluster c" using le by (auto simp: is_data_cluster_def word_less_nat_alt word_le_nat_alt)
  show "c \<ge> 2" using le by simp
  show "c \<noteq> 0" using le(2) by auto
qed

lemma set_cluster_range: "set (cluster_range d) = {c. valid_cluster d c}"
proof -
  have m: "unat (max_cluster d) < 65536" using max_cluster_le [of d] by (simp add: word_le_nat_alt)
  have "c \<in> set (cluster_range d) \<longleftrightarrow> valid_cluster d c" for c
  proof
    assume "c \<in> set (cluster_range d)"
    then obtain n where n: "c = of_nat n" "2 \<le> n" "n \<le> unat (max_cluster d)"
      by (auto simp: cluster_range_def)
    then have "unat c = n" using m by (simp add: unat_of_nat)
    then show "valid_cluster d c" using n by (simp add: valid_cluster_def word_le_nat_alt)
  next
    assume "valid_cluster d c"
    then have "unat c \<in> {2..<Suc (unat (max_cluster d))}"
      by (auto simp: valid_cluster_def word_le_nat_alt)
    then have "of_nat (unat c) \<in> set (cluster_range d)"
      unfolding cluster_range_def set_map set_upt by (rule imageI)
    then show "c \<in> set (cluster_range d)" by simp
  qed
  then show ?thesis by auto
qed

text \<open>The scan of the table is a linear search for the first free entry.\<close>

lemma alloc_loop_find:
  assumes "dev_ok (dev s)" "\<forall>c\<in>set cs. fat_cell c"
  shows "alloc_loop cs s = (case find (\<lambda>c. fat_of c (disk s) = FAT_ENTRY_FREE) cs of
           None \<Rightarrow> (Inl NoSpace, s)
         | Some c \<Rightarrow> (Inr c, s\<lparr>disk := fat_put c FAT_ENTRY_EOC (disk s)\<rparr>))"
  using assms by (induction cs) (auto simp: bind_def read_fat_ok write_fat_ok)

definition free_clusters :: "fs_state \<Rightarrow> u16 set" where
  "free_clusters s = {c. valid_cluster (dev s) c \<and> fat_of c (disk s) = FAT_ENTRY_FREE}"

lemma alloc_cluster_cases:
  assumes "dev_ok (dev s)"
  obtains (full) "free_clusters s = {}" "alloc_cluster_unlocked s = (Inl NoSpace, s)"
  | (ok) c where "c \<in> free_clusters s"
      "alloc_cluster_unlocked s = (Inr c, s\<lparr>disk := fat_put c FAT_ENTRY_EOC (disk s)\<rparr>)"
proof -
  let ?P = "\<lambda>c. fat_of c (disk s) = FAT_ENTRY_FREE"
  have run: "alloc_cluster_unlocked s = (case find ?P (cluster_range (dev s)) of
           None \<Rightarrow> (Inl NoSpace, s)
         | Some c \<Rightarrow> (Inr c, s\<lparr>disk := fat_put c FAT_ENTRY_EOC (disk s)\<rparr>))"
    using assms by (auto simp: alloc_cluster_unlocked_def bind_def set_cluster_range intro!: alloc_loop_find)
  show thesis
  proof (cases "find ?P (cluster_range (dev s))")
    case None
    then have "free_clusters s = {}"
      by (auto simp: find_None_iff free_clusters_def set_cluster_range)
    then show thesis using None run full by simp
  next
    case (Some c)
    then have "c \<in> free_clusters s"
      by (auto simp: find_Some_iff free_clusters_def set_cluster_range dest!: nth_mem)
    then show thesis using Some run ok by simp
  qed
qed

section \<open>Releasing a chain\<close>

definition used_entries :: "store \<Rightarrow> u16 set" where
  "used_entries d = {c. fat_cell c \<and> fat_of c d \<noteq> FAT_ENTRY_FREE}"

lemma used_entries_put_free:
  "fat_cell c \<Longrightarrow> used_entries (fat_put c FAT_ENTRY_FREE d) = used_entries d - {c}"
  by (auto simp: used_entries_def split: if_splits)

lemma free_step_decreases:
  assumes "is_data_cluster c" "read_fat_entry_unlocked c s = (Inr nx, s1)"
    and "write_fat_entry_unlocked c FAT_ENTRY_FREE s1 = (Inr u, s2)"
  shows "2 * card (used_entries (disk s2)) + (if is_data_cluster nx then 1 else 0)
           < 2 * card (used_entries (disk s)) + 1"
proof -
  from read_fat_effect [OF assms(2)] have c: "fat_cell c" "s1 = s" and nx: "nx = fat_of c (disk s)"
    by auto
  from write_fat_effect [OF assms(3)] c have "disk s2 = fat_put c FAT_ENTRY_FREE (disk s)" by simp
  then have u: "used_entries (disk s2) = used_entries (disk s) - {c}"
    by (simp add: used_entries_put_free c)
  show ?thesis
  proof (cases "nx = 0")
    case True
    have "card (used_entries (disk s2)) \<le> card (used_entries (disk s))"
      unfolding u by (rule card_mono) auto
    then show ?thesis using True by (simp add: is_data_cluster_def)
  next
    case False
    then have "c \<in> used_entries (disk s)" by (simp add: used_entries_def c nx)
    then have "card (used_entries (disk s2)) < card (used_entries (disk s))"
      unfolding u by (intro card_Diff1_less) auto
    then show ?thesis by simp
  qed
qed

lemma not_data_iff:
  "current < 2 \<or> current \<ge> FAT_ENTRY_RESERVED \<longleftrightarrow> \<not> is_data_cluster current"
  by (auto simp: is_data_cluster_def)

lemma reserved_not_data: "c \<ge> FAT_ENTRY_RESERVED \<Longrightarrow> \<not> is_data_cluster c"
  by (auto simp: is_data_cluster_def)

text \<open>
  The loop of \<^verbatim>\<open>free_cluster_chain_unlocked\<close>. It ends on every table: an entry
  is cleared before the next one is visited, so a cyclic chain runs into a cleared
  entry, which is no data cluster.
\<close>

function free_loop :: "u16 \<Rightarrow> unit fsop" where
  "free_loop current s =
     (if current < 2 \<or> current \<ge> FAT_ENTRY_RESERVED then (Inr (), s)
      else case read_fat_entry_unlocked current s of
        (Inl e, s1) \<Rightarrow> (Inl e, s1)
      | (Inr next, s1) \<Rightarrow>
          (case write_fat_entry_unlocked current FAT_ENTRY_FREE s1 of
             (Inl e, s2) \<Rightarrow> (Inl e, s2)
           | (Inr _, s2) \<Rightarrow>
               if next \<ge> FAT_ENTRY_RESERVED then (Inr (), s2) else free_loop next s2))"
  by pat_completeness auto
termination
  by (relation "measure (\<lambda>(c, s). 2 * card (used_entries (disk s)) + (if is_data_cluster c then 1 else 0))")
     (auto simp: not_data_iff dest: free_step_decreases [OF _ sym sym])

declare free_loop.simps [simp del]

definition free_cluster_chain_unlocked :: "u16 \<Rightarrow> unit fsop" where
  "free_cluster_chain_unlocked first_cluster = free_loop first_cluster"

section \<open>Chains\<close>

fun is_chain :: "store \<Rightarrow> u16 \<Rightarrow> u16 list \<Rightarrow> bool" where
  "is_chain d c [] \<longleftrightarrow> \<not> is_data_cluster c"
| "is_chain d c (x # xs) \<longleftrightarrow> x = c \<and> is_data_cluster c \<and> is_chain d (fat_of c d) xs"

lemma is_chain_cong:
  "(\<And>x. x \<in> set cs \<Longrightarrow> fat_of x d' = fat_of x d) \<Longrightarrow> is_chain d' c cs \<longleftrightarrow> is_chain d c cs"
  by (induction cs arbitrary: c) auto

lemma is_chain_unique: "is_chain d c cs \<Longrightarrow> is_chain d c cs' \<Longrightarrow> cs = cs'"
  by (induction cs arbitrary: c cs') (case_tac cs'; auto)+

lemma is_chain_data: "is_chain d c cs \<Longrightarrow> x \<in> set cs \<Longrightarrow> is_data_cluster x"
  by (induction cs arbitrary: c) auto

lemma is_chain_nil_iff: "is_chain d c cs \<Longrightarrow> cs = [] \<longleftrightarrow> \<not> is_data_cluster c"
  by (cases cs) auto

lemma free_loop_done: "\<not> is_data_cluster c \<Longrightarrow> free_loop c s = (Inr (), s)"
  by (subst free_loop.simps) (auto simp: is_data_cluster_def)

lemma free_loop_step:
  assumes "dev_ok (dev s)" "fat_cell c" "is_data_cluster c"
  shows "free_loop c s = free_loop (fat_of c (disk s)) (s\<lparr>disk := fat_put c FAT_ENTRY_FREE (disk s)\<rparr>)"
proof (cases "fat_of c (disk s) \<ge> FAT_ENTRY_RESERVED")
  case True
  then show ?thesis using assms
    by (subst free_loop.simps)
       (auto simp: read_fat_ok write_fat_ok free_loop_done reserved_not_data not_data_iff)
next
  case False
  then show ?thesis using assms
    by (subst free_loop.simps) (auto simp: read_fat_ok write_fat_ok is_data_cluster_def)
qed

text \<open>On a well-formed chain the loop clears exactly the chain's entries.\<close>

lemma free_loop_chain:
  assumes "dev_ok (dev s)" "is_chain (disk s) c cs" "distinct cs" "\<forall>x\<in>set cs. fat_cell x"
  shows "free_loop c s = (Inr (), s\<lparr>disk := fold (\<lambda>x. fat_put x FAT_ENTRY_FREE) cs (disk s)\<rparr>)"
  using assms
proof (induction cs arbitrary: c s)
  case Nil
  then show ?case by (simp add: free_loop_done)
next
  case (Cons x xs)
  let ?s = "s\<lparr>disk := fat_put x FAT_ENTRY_FREE (disk s)\<rparr>"
  from Cons.prems have "is_chain (disk ?s) (fat_of x (disk s)) xs"
    by (simp, subst is_chain_cong [where d = "disk s"]) auto
  then have "free_loop (fat_of x (disk s)) ?s =
      (Inr (), ?s\<lparr>disk := fold (\<lambda>x. fat_put x FAT_ENTRY_FREE) xs (disk ?s)\<rparr>)"
    using Cons.prems by (intro Cons.IH) auto
  then show ?case using Cons.prems by (simp add: free_loop_step)
qed

text \<open>
  On any table whose links stay inside the table the loop returns, and all it
  does is clear entries, starting with the first.
\<close>

definition links_in_table :: "store \<Rightarrow> bool" where
  "links_in_table d \<longleftrightarrow>
     (\<forall>c. fat_cell c \<longrightarrow> is_data_cluster (fat_of c d) \<longrightarrow> fat_cell (fat_of c d))"

lemma free_loop_total:
  assumes "dev_ok (dev s)" "links_in_table (disk s)" "is_data_cluster c \<longrightarrow> fat_cell c"
  shows "\<exists>d'. free_loop c s = (Inr (), s\<lparr>disk := d'\<rparr>)
          \<and> (\<forall>x. fat_cell x \<longrightarrow> fat_of x d' = fat_of x (disk s) \<or> fat_of x d' = FAT_ENTRY_FREE)
          \<and> (is_data_cluster c \<longrightarrow> fat_of c d' = FAT_ENTRY_FREE)"
  using assms
proof (induction "2 * card (used_entries (disk s)) + (if is_data_cluster c then 1 else 0)"
    arbitrary: c s rule: less_induct)
  case less
  show ?case
  proof (cases "is_data_cluster c")
    case False
    then show ?thesis by (intro exI [of _ "disk s"]) (simp add: free_loop_done)
  next
    case True
    let ?s = "s\<lparr>disk := fat_put c FAT_ENTRY_FREE (disk s)\<rparr>"
    let ?nx = "fat_of c (disk s)"
    have c: "fat_cell c" using less.prems True by simp
    have "\<exists>d'. free_loop ?nx ?s = (Inr (), ?s\<lparr>disk := d'\<rparr>)
        \<and> (\<forall>x. fat_cell x \<longrightarrow> fat_of x d' = fat_of x (disk ?s) \<or> fat_of x d' = FAT_ENTRY_FREE)
        \<and> (is_data_cluster ?nx \<longrightarrow> fat_of ?nx d' = FAT_ENTRY_FREE)"
    proof (rule less.hyps)
      show "2 * card (used_entries (disk ?s)) + (if is_data_cluster ?nx then 1 else 0)
          < 2 * card (used_entries (disk s)) + (if is_data_cluster c then 1 else 0)"
        using free_step_decreases [OF True read_fat_ok write_fat_ok] less.prems c True by simp
      show "links_in_table (disk ?s)"
        using less.prems(2) c by (auto simp: links_in_table_def is_data_cluster_def)
      show "is_data_cluster ?nx \<longrightarrow> fat_cell ?nx"
        using less.prems(2) c by (auto simp: links_in_table_def)
    qed (use less.prems in simp)
    then obtain d' where d': "free_loop ?nx ?s = (Inr (), ?s\<lparr>disk := d'\<rparr>)"
      "\<forall>x. fat_cell x \<longrightarrow> fat_of x d' = fat_of x (disk ?s) \<or> fat_of x d' = FAT_ENTRY_FREE"
      by blast
    then show ?thesis using less.prems True c
      by (intro exI [of _ d']) (auto simp: free_loop_step split: if_splits)
  qed
qed

section \<open>Walking a chain\<close>

fun walk_loop :: "nat \<Rightarrow> u16 \<Rightarrow> u16 \<Rightarrow> (u16 \<times> u16) fsop" where
  "walk_loop 0 prev cluster = ret (prev, cluster)"
| "walk_loop (Suc n) prev cluster =
     (if \<not> is_data_cluster cluster then throw DeviceError
      else bind (read_fat_entry_unlocked cluster) (\<lambda>next. walk_loop n cluster next))"

definition walk_chain_unlocked :: "u16 \<Rightarrow> nat \<Rightarrow> (u16 \<times> u16) fsop" where
  "walk_chain_unlocked first steps = walk_loop steps 0 first"

lemma walk_loop_chain:
  assumes "dev_ok (dev s)" "is_chain (disk s) c cs" "\<forall>x\<in>set cs. fat_cell x" "n \<le> length cs"
  shows "\<exists>x. walk_loop n prev c s = (Inr (last (prev # take n cs), x), s)
           \<and> is_chain (disk s) x (drop n cs)"
  using assms
proof (induction n arbitrary: prev c cs)
  case 0
  then show ?case by simp
next
  case (Suc n)
  then obtain xs where cs: "cs = c # xs" and c: "is_data_cluster c" "fat_cell c"
    by (cases cs) auto
  have "\<exists>x. walk_loop n c (fat_of c (disk s)) s = (Inr (last (c # take n xs), x), s)
           \<and> is_chain (disk s) x (drop n xs)"
    using Suc.prems by (intro Suc.IH) (auto simp: cs)
  then show ?case using c Suc.prems(1) by (auto simp: cs bind_def read_fat_ok)
qed

section \<open>Data clusters\<close>

definition cluster_addr :: "u16 \<Rightarrow> nat" where
  "cluster_addr c = 41472 + (unat c - 2) * 4096"

definition cluster_of :: "u16 \<Rightarrow> store \<Rightarrow> bytes" where
  "cluster_of c d = load (cluster_addr c) 4096 d"

definition cluster_put :: "u16 \<Rightarrow> bytes \<Rightarrow> store \<Rightarrow> store" where
  "cluster_put c buf d = put (cluster_addr c) buf d"

lemma length_cluster_of [simp]: "length (cluster_of c d) = 4096"
  by (simp add: cluster_of_def)

lemma cluster_addr_sep:
  assumes "2 \<le> c" "2 \<le> c'" "c \<noteq> c'"
  shows "cluster_addr c + 4096 \<le> cluster_addr c' \<or> cluster_addr c' + 4096 \<le> cluster_addr c"
proof -
  have "unat c \<noteq> unat c'" "2 \<le> unat c" "2 \<le> unat c'"
    using assms by (auto simp: word_unat_eq_iff word_le_nat_alt)
  then show ?thesis by (auto simp: cluster_addr_def)
qed

interpretation cluster: indexed_store cluster_of cluster_put "\<lambda>c. 2 \<le> c" "\<lambda>buf. length buf = 4096"
proof
  fix i j and v :: bytes and d
  assume v: "length v = 4096"
  then show "cluster_of i (cluster_put i v d) = v" by (simp add: cluster_of_def cluster_put_def)
  assume "2 \<le> i" "2 \<le> j" "i \<noteq> j"
  then show "cluster_of j (cluster_put i v d) = cluster_of j d"
    using cluster_addr_sep [of i j] v unfolding cluster_of_def cluster_put_def
    by (subst load_put_other) auto
qed

lemmas cluster_put_simps [simp] = cluster.rd_wr

lemma unat_cluster_to_lba:
  assumes "2 \<le> c"
  shows "unat (cluster_to_lba c) = 81 + (unat c - 2) * 8"
proof -
  have c: "2 \<le> unat c" "unat c < 65536"
    using assms unsigned_less [of c] by (auto simp: word_le_nat_alt)
  have "cluster_to_lba c = of_nat (81 + (unat c - 2) * 8)"
    using c by (simp add: cluster_to_lba_def of_nat_diff)
  moreover have "81 + (unat c - 2) * 8 < 2 ^ 64" using c by simp
  ultimately show ?thesis
    using unat_of_nat_small [where 'a = 64 and n = "81 + (unat c - 2) * 8"] by simp
qed

lemma cluster_in_device:
  assumes "valid_cluster d c"
  shows "unat (cluster_to_lba c) + 8 \<le> TOTAL_SECTORS d"
    and "unat (cluster_to_lba c) * 512 = cluster_addr c"
proof -
  have "2 \<le> c" using assms by auto
  note u = unat_cluster_to_lba [OF this]
  show "unat (cluster_to_lba c) + 8 \<le> TOTAL_SECTORS d"
    using assms by (cases d) (auto simp: u valid_cluster_def word_le_nat_alt)
  show "unat (cluster_to_lba c) * 512 = cluster_addr c"
    by (simp add: u cluster_addr_def)
qed

lemma read_cluster_ok [run]:
  assumes "dev_ok (dev s)" "valid_cluster (dev s) c"
  shows "read_blocks_unlocked (cluster_to_lba c) SECTORS_PER_CLUSTER False s =
           (Inr (cluster_of c (disk s)), s)"
  using cluster_in_device [OF assms(2)] assms(1)
  by (simp add: read_blocks_ok cluster_of_def)

lemma write_cluster_ok [run]:
  assumes "dev_ok (dev s)" "valid_cluster (dev s) c" "length buf = 4096"
  shows "write_blocks_unlocked (cluster_to_lba c) SECTORS_PER_CLUSTER (Some buf) s =
           (Inr (), s\<lparr>disk := cluster_put c buf (disk s)\<rparr>)"
  using cluster_in_device [OF assms(2)] assms(1,3)
  by (simp add: write_blocks_ok cluster_put_def)

text \<open>The table and the data clusters do not overlap.\<close>

lemma fat_of_cluster_put [simp]: "fat_cell c \<Longrightarrow> fat_of c (cluster_put c' buf d) = fat_of c d"
  unfolding fat_of_def cluster_put_def
  by (subst load_put_other) (auto simp: fat_cell_def cluster_addr_def)

lemma cluster_of_fat_put [simp]: "fat_cell c \<Longrightarrow> cluster_of c' (fat_put c v d) = cluster_of c' d"
  unfolding cluster_of_def fat_put_def
  by (subst load_put_other) (auto simp: fat_cell_def cluster_addr_def)

lemma cluster_of_fold_fat_put [simp]:
  "\<forall>x\<in>set cs. fat_cell x \<Longrightarrow> cluster_of c (fold (\<lambda>x. fat_put x (f x)) cs d) = cluster_of c d"
  by (induction cs arbitrary: d) auto

end
