(* ===== verification/Fs_Dir.thy ===== *)
theory Fs_Dir
  imports Fs_Fat
begin

text \<open>
  The root directory of \<^verbatim>\<open>src/src/fs.rs\<close>: the 32-byte entries, the slot
  generations behind file handles, and the searches for a name and for a free slot.
\<close>

record FatDirEntry =
  de_name :: bytes
  first_cluster :: u16
  de_size :: u32
  in_use :: u8
  reserved :: bytes

definition FatDirEntry_bytes :: "FatDirEntry \<Rightarrow> bytes" where
  "FatDirEntry_bytes e = de_name e @ le_bytes 2 (first_cluster e) @ le_bytes 4 (de_size e) @
     [in_use e] @ reserved e"

definition FatDirEntry_read :: "bytes \<Rightarrow> FatDirEntry" where
  "FatDirEntry_read buf = \<lparr>de_name = slice_of 0 22 buf, first_cluster = from_le (slice_of 22 24 buf),
     de_size = from_le (slice_of 24 28 buf), in_use = buf ! 28, reserved = slice_of 29 32 buf\<rparr>"

definition entry_fits :: "FatDirEntry \<Rightarrow> bool" where
  "entry_fits e \<longleftrightarrow> length (de_name e) = 22 \<and> length (reserved e) = 3"

lemma FatDirEntry_read_bytes:
  "entry_fits e \<Longrightarrow> FatDirEntry_read (FatDirEntry_bytes e) = e"
  by (simp add: entry_fits_def FatDirEntry_read_def FatDirEntry_bytes_def nth_append)

lemma length_FatDirEntry_bytes [simp]: "entry_fits e \<Longrightarrow> length (FatDirEntry_bytes e) = 32"
  by (simp add: entry_fits_def FatDirEntry_bytes_def)

definition retire_slot_unlocked :: "nat \<Rightarrow> unit fsop" where
  "retire_slot_unlocked slot =
     modify (\<lambda>s. s\<lparr>SLOT_GENERATIONS := (SLOT_GENERATIONS s)[slot := SLOT_GENERATIONS s ! slot + 1]\<rparr>)"

definition read_dir_entry_unlocked :: "nat \<Rightarrow> FatDirEntry fsop" where
  "read_dir_entry_unlocked index =
     (if index \<ge> ROOT_DIR_ENTRIES then throw InvalidArgument
      else let sector = index div DIR_ENTRIES_PER_SECTOR;
               slot = index mod DIR_ENTRIES_PER_SECTOR;
               lba = ROOT_DIR_START_LBA + of_nat sector
           in bind (read_block_unlocked lba) (\<lambda>buf.
                let offset = slot * 32
                in ret (FatDirEntry_read (slice_of offset (offset + 32) buf))))"

definition write_dir_entry_unlocked :: "nat \<Rightarrow> FatDirEntry \<Rightarrow> unit fsop" where
  "write_dir_entry_unlocked index entry =
     (if index \<ge> ROOT_DIR_ENTRIES then throw InvalidArgument
      else bind (if in_use entry = 0 then retire_slot_unlocked index else ret ()) (\<lambda>_.
        let sector = index div DIR_ENTRIES_PER_SECTOR;
            slot = index mod DIR_ENTRIES_PER_SECTOR;
            lba = ROOT_DIR_START_LBA + of_nat sector
        in bind (read_block_unlocked lba) (\<lambda>buf.
             let offset = slot * 32
             in write_block_unlocked lba (blit offset (FatDirEntry_bytes entry) buf))))"

text \<open>The loop \<^verbatim>\<open>while len < 22 && entry.name[len] != 0\<close>.\<close>

fun name_len :: "bytes \<Rightarrow> nat" where
  "name_len [] = 0"
| "name_len (b # bs) = (if b \<noteq> 0 then Suc (name_len bs) else 0)"

definition stored_name :: "FatDirEntry \<Rightarrow> bytes" where
  "stored_name e = take (name_len (de_name e)) (de_name e)"

fun find_loop :: "bytes \<Rightarrow> nat list \<Rightarrow> (nat \<times> FatDirEntry) option fsop" where
  "find_loop name_bytes [] = ret None"
| "find_loop name_bytes (i # is) =
     bind (read_dir_entry_unlocked i) (\<lambda>entry.
       if in_use entry = 1 \<and> stored_name entry = name_bytes
       then ret (Some (i, entry)) else find_loop name_bytes is)"

definition find_file_unlocked :: "bytes \<Rightarrow> (nat \<times> FatDirEntry) option fsop" where
  "find_file_unlocked name_bytes =
     (if name_bytes = [] \<or> length name_bytes > 21 then throw InvalidArgument
      else find_loop name_bytes [0..<ROOT_DIR_ENTRIES])"

fun free_slot_loop :: "nat list \<Rightarrow> nat option fsop" where
  "free_slot_loop [] = ret None"
| "free_slot_loop (i # is) =
     bind (read_dir_entry_unlocked i) (\<lambda>entry.
       if in_use entry = 0 then ret (Some i) else free_slot_loop is)"

definition find_free_dir_slot_unlocked :: "nat option fsop" where
  "find_free_dir_slot_unlocked = free_slot_loop [0..<ROOT_DIR_ENTRIES]"

section \<open>The directory as an array\<close>

definition dir_of :: "nat \<Rightarrow> store \<Rightarrow> FatDirEntry" where
  "dir_of i d = FatDirEntry_read (load (33280 + 32 * i) 32 d)"

definition dir_put :: "nat \<Rightarrow> FatDirEntry \<Rightarrow> store \<Rightarrow> store" where
  "dir_put i e d = put (33280 + 32 * i) (FatDirEntry_bytes e) d"

lemma dir_of_fits [simp]: "entry_fits (dir_of i d)"
  by (simp add: dir_of_def entry_fits_def FatDirEntry_read_def)

interpretation dir: indexed_store dir_of dir_put "\<lambda>i. i < 256" entry_fits
proof
  fix i j :: nat and v d
  assume v: "entry_fits v"
  then show "dir_of i (dir_put i v d) = v"
    by (simp add: dir_of_def dir_put_def FatDirEntry_read_bytes)
  assume "i \<noteq> j"
  then show "dir_of j (dir_put i v d) = dir_of j d"
    using v unfolding dir_of_def dir_put_def by (subst load_put_other) auto
qed

lemmas dir_put_simps [simp] = dir.rd_wr

lemma dir_lba: "i < 256 \<Longrightarrow> unat (65 + of_nat (i div 16) :: u64) = 65 + i div 16"
  by (simp add: unat_word_ariths unat_of_nat)

lemma dir_addr: "(65 + i div 16) * 512 + i mod 16 * 32 = 33280 + 32 * (i::nat)"
proof -
  have "16 * (i div 16) + i mod 16 = i" by simp
  then have "32 * (16 * (i div 16) + i mod 16) = 32 * i" by (rule arg_cong)
  then show ?thesis by (simp only: add_mult_distrib2 add_mult_distrib)
qed

lemma dir_block_ok:
  assumes "dev_ok (dev s)" "i < 256"
  shows "read_block_unlocked (ROOT_DIR_START_LBA + of_nat (i div 16)) s =
           (Inr (load ((65 + i div 16) * 512) 512 (disk s)), s)"
    and "length buf = 512 \<Longrightarrow> write_block_unlocked (ROOT_DIR_START_LBA + of_nat (i div 16)) buf s =
           (Inr (), s\<lparr>disk := put ((65 + i div 16) * 512) buf (disk s)\<rparr>)"
proof -
  have "65 + i div 16 < 16384" using assms(2) by simp
  then have lt: "unat (ROOT_DIR_START_LBA + of_nat (i div 16) :: u64) < TOTAL_SECTORS (dev s)"
    by (simp only: dir_lba [OF assms(2)] total_sectors_ge)
  show "read_block_unlocked (ROOT_DIR_START_LBA + of_nat (i div 16)) s =
           (Inr (load ((65 + i div 16) * 512) 512 (disk s)), s)"
    using read_block_ok [OF assms(1) lt] by (simp only: dir_lba [OF assms(2)])
  show "length buf = 512 \<Longrightarrow> write_block_unlocked (ROOT_DIR_START_LBA + of_nat (i div 16)) buf s =
           (Inr (), s\<lparr>disk := put ((65 + i div 16) * 512) buf (disk s)\<rparr>)"
    using write_block_ok [OF assms(1) lt] by (simp only: dir_lba [OF assms(2)])
qed

lemma slot_in_block: "i mod 16 * 32 + 32 \<le> (512::nat)"
proof -
  have "i mod 16 < 16" by simp
  then show ?thesis by linarith
qed

lemma read_dir_ok [run]:
  assumes "dev_ok (dev s)" "i < 256"
  shows "read_dir_entry_unlocked i s = (Inr (dir_of i (disk s)), s)"
proof -
  have "slice_of (i mod 16 * 32) (i mod 16 * 32 + 32) (load ((65 + i div 16) * 512) 512 (disk s))
      = load (33280 + 32 * i) 32 (disk s)"
    using slot_in_block [of i] by (simp only: slice_load le_add1 dir_addr add_diff_cancel_left')
  then show ?thesis using assms dir_block_ok(1) [OF assms]
    by (simp add: read_dir_entry_unlocked_def bind_def Let_def dir_of_def)
qed

definition retired :: "nat \<Rightarrow> FatDirEntry \<Rightarrow> u32 list \<Rightarrow> u32 list" where
  "retired i e gens = (if in_use e = 0 then gens[i := gens ! i + 1] else gens)"

lemma write_dir_ok [run]:
  assumes "dev_ok (dev s)" "i < 256" "entry_fits e"
  shows "write_dir_entry_unlocked i e s =
           (Inr (), s\<lparr>disk := dir_put i e (disk s),
                      SLOT_GENERATIONS := retired i e (SLOT_GENERATIONS s)\<rparr>)"
proof -
  let ?s = "s\<lparr>SLOT_GENERATIONS := retired i e (SLOT_GENERATIONS s)\<rparr>"
  let ?blk = "load ((65 + i div 16) * 512) 512 (disk s)"
  have ret: "(if in_use e = 0 then retire_slot_unlocked i else ret ()) s = (Inr (), ?s)"
    by (simp add: retired_def retire_slot_unlocked_def)
  have upd: "put ((65 + i div 16) * 512) (blit (i mod 16 * 32) (FatDirEntry_bytes e) ?blk) (disk s)
      = dir_put i e (disk s)"
    using slot_in_block [of i] assms(3)
    by (simp only: put_blit_load length_FatDirEntry_bytes dir_addr dir_put_def)
  have len: "length (blit (i mod 16 * 32) (FatDirEntry_bytes e) ?blk) = 512"
    using slot_in_block [of i] assms(3) by simp
  have "dev_ok (dev ?s)" using assms(1) by simp
  note blk = dir_block_ok [OF this assms(2)]
  show ?thesis using assms ret blk(1) blk(2) [OF len] upd
    by (simp add: write_dir_entry_unlocked_def bind_def Let_def)
qed

lemma pure_read_dir [intro, simp]: "pure_op (read_dir_entry_unlocked i)"
  unfolding read_dir_entry_unlocked_def Let_def by auto

section \<open>Searches\<close>

definition names_file :: "bytes \<Rightarrow> FatDirEntry \<Rightarrow> bool" where
  "names_file name e \<longleftrightarrow> in_use e = 1 \<and> stored_name e = name"

lemma find_loop_find:
  assumes "dev_ok (dev s)" "\<forall>i\<in>set is. i < 256"
  shows "find_loop name is s =
     (Inr (map_option (\<lambda>i. (i, dir_of i (disk s))) (find (\<lambda>i. names_file name (dir_of i (disk s))) is)), s)"
  using assms by (induction "is") (auto simp: bind_def read_dir_ok names_file_def)

lemma free_slot_loop_find:
  assumes "dev_ok (dev s)" "\<forall>i\<in>set is. i < 256"
  shows "free_slot_loop is s = (Inr (find (\<lambda>i. in_use (dir_of i (disk s)) = 0) is), s)"
  using assms by (induction "is") (auto simp: bind_def read_dir_ok)

definition lookup :: "bytes \<Rightarrow> store \<Rightarrow> nat option" where
  "lookup name d = find (\<lambda>i. names_file name (dir_of i d)) [0..<256]"

lemma find_file_ok [run]:
  assumes "dev_ok (dev s)" "name \<noteq> []" "length name \<le> 21"
  shows "find_file_unlocked name s =
     (Inr (map_option (\<lambda>i. (i, dir_of i (disk s))) (lookup name (disk s))), s)"
  using assms by (simp add: find_file_unlocked_def find_loop_find lookup_def)

lemma find_free_slot_ok [run]:
  assumes "dev_ok (dev s)"
  shows "find_free_dir_slot_unlocked s =
     (Inr (find (\<lambda>i. in_use (dir_of i (disk s)) = 0) [0..<256]), s)"
  using assms by (simp add: find_free_dir_slot_unlocked_def free_slot_loop_find)

lemma lookup_Some: "lookup name d = Some i \<Longrightarrow> i < 256 \<and> names_file name (dir_of i d)"
  by (auto simp: lookup_def find_Some_iff)

lemma lookup_None: "lookup name d = None \<longleftrightarrow> (\<forall>i<256. \<not> names_file name (dir_of i d))"
  by (auto simp: lookup_def find_None_iff)

lemma pure_find_loop: "pure_op (find_loop name is)"
  by (induction "is") auto

lemma pure_find_file [intro, simp]: "pure_op (find_file_unlocked name)"
  by (simp add: find_file_unlocked_def pure_find_loop)

lemma pure_find_free [intro, simp]: "pure_op find_free_dir_slot_unlocked"
proof -
  have "pure_op (free_slot_loop is)" for "is" by (induction "is") auto
  then show ?thesis by (simp add: find_free_dir_slot_unlocked_def)
qed

section \<open>Separation from the table and the data\<close>

lemma fat_of_dir_put [simp]: "fat_cell c \<Longrightarrow> entry_fits e \<Longrightarrow> fat_of c (dir_put i e d) = fat_of c d"
  unfolding fat_of_def dir_put_def by (subst load_put_other) (auto simp: fat_cell_def)

lemma dir_of_fat_put [simp]: "fat_cell c \<Longrightarrow> dir_of i (fat_put c v d) = dir_of i d"
  unfolding dir_of_def fat_put_def by (subst load_put_other) (auto simp: fat_cell_def)

lemma dir_of_fold_fat_put [simp]:
  "\<forall>x\<in>set cs. fat_cell x \<Longrightarrow> dir_of i (fold (\<lambda>x. fat_put x (f x)) cs d) = dir_of i d"
  by (induction cs arbitrary: d) auto

lemma cluster_of_dir_put [simp]:
  "i < 256 \<Longrightarrow> entry_fits e \<Longrightarrow> cluster_of c (dir_put i e d) = cluster_of c d"
  unfolding cluster_of_def dir_put_def by (subst load_put_other) (auto simp: cluster_addr_def)

lemma dir_of_cluster_put [simp]:
  "i < 256 \<Longrightarrow> dir_of i (cluster_put c buf d) = dir_of i d"
  unfolding dir_of_def cluster_put_def by (subst load_put_other) (auto simp: cluster_addr_def)

text \<open>A name is found again under the bytes it was stored from.\<close>

lemma name_len_append_zero: "0 \<notin> set xs \<Longrightarrow> name_len (xs @ 0 # ys) = length xs"
  by (induction xs) auto

lemma stored_name_blit:
  assumes "0 \<notin> set name" "length name \<le> 21" "de_name e = blit 0 name (replicate 22 0)"
  shows "stored_name e = name"
proof -
  have "blit 0 name (replicate 22 (0::u8)) = name @ replicate (22 - length name) 0"
    by (simp add: blit_def drop_replicate)
  also have "\<dots> = name @ 0 # replicate (21 - length name) 0"
    using assms(2) by (simp add: Suc_diff_le flip: replicate_Suc)
  finally show ?thesis using assms by (simp add: stored_name_def name_len_append_zero)
qed

end
