(* ===== verification/Fs_Files.thy ===== *)
theory Fs_Files
  imports Fs_Dir
begin

text \<open>
  The file operations of \<^verbatim>\<open>src/src/fs.rs\<close> (the \<^verbatim>\<open>_unlocked\<close> functions, which
  the public ones run under \<^verbatim>\<open>FS_LOCK\<close>): formatting, whole-file create, read and
  delete, handles, and offset-based reads and writes.
\<close>

section \<open>Formatting\<close>

definition boot_record :: "device \<Rightarrow> BootSector" where
  "boot_record d = \<lparr>magic = FAT_MAGIC, bytes_per_sector = of_nat BLOCK_SIZE,
     sectors_per_cluster = SECTORS_PER_CLUSTER, fat_start_lba = ucast FAT_START_LBA,
     fat_sectors = of_nat FAT_SECTORS, root_dir_start_lba = ucast ROOT_DIR_START_LBA,
     root_dir_sectors = of_nat ROOT_DIR_SECTORS, data_start_lba = ucast DATA_START_LBA,
     total_clusters = of_nat (TOTAL_CLUSTERS d), padding = replicate 474 0\<rparr>"

fun zero_blocks :: "u64 \<Rightarrow> nat list \<Rightarrow> unit fsop" where
  "zero_blocks base [] = ret ()"
| "zero_blocks base (i # is) =
     bind (write_block_unlocked (base + of_nat i) (replicate BLOCK_SIZE 0)) (\<lambda>_. zero_blocks base is)"

fun retire_slots :: "nat list \<Rightarrow> unit fsop" where
  "retire_slots [] = ret ()"
| "retire_slots (slot # rest) = bind (retire_slot_unlocked slot) (\<lambda>_. retire_slots rest)"

definition format_unlocked :: "unit fsop" where
  "format_unlocked =
     bind (get dev) (\<lambda>d. if \<not> is_ready d then throw NotReady else
     bind (write_boot_sector_unlocked (boot_record d)) (\<lambda>_.
     bind (zero_blocks FAT_START_LBA [0..<FAT_SECTORS]) (\<lambda>_.
     bind (write_fat_entry_unlocked 0 0xFFF8) (\<lambda>_.
     bind (write_fat_entry_unlocked 1 FAT_ENTRY_EOC) (\<lambda>_.
     bind (retire_slots [0..<ROOT_DIR_ENTRIES]) (\<lambda>_.
     zero_blocks ROOT_DIR_START_LBA [0..<ROOT_DIR_SECTORS]))))))"

section \<open>Whole files\<close>

definition empty_entry :: FatDirEntry where
  "empty_entry = \<lparr>de_name = replicate 22 0, first_cluster = 0, de_size = 0, in_use = 0,
     reserved = replicate 3 0\<rparr>"

definition new_entry :: "bytes \<Rightarrow> u16 \<Rightarrow> u32 \<Rightarrow> FatDirEntry" where
  "new_entry name_bytes first sz = \<lparr>de_name = blit 0 name_bytes (replicate 22 0),
     first_cluster = first, de_size = sz, in_use = 1, reserved = replicate 3 0\<rparr>"

text \<open>One zero-padded cluster of the data.\<close>

definition chunk_buf :: "bytes \<Rightarrow> nat \<Rightarrow> bytes" where
  "chunk_buf data i =
     (let src_offset = i * CLUSTER_BYTES;
          src_end = min (src_offset + CLUSTER_BYTES) (length data)
      in blit 0 (slice_of src_offset src_end data) (replicate CLUSTER_BYTES 0))"

text \<open>\<^verbatim>\<open>for i in 0..clusters_needed\<close>, with the loop's \<^verbatim>\<open>prev_cluster\<close> and \<^verbatim>\<open>first\<close>.\<close>

fun create_loop :: "bytes \<Rightarrow> nat list \<Rightarrow> u16 option \<Rightarrow> u16 \<Rightarrow> u16 fsop" where
  "create_loop data [] prev_cluster first = ret first"
| "create_loop data (i # is) prev_cluster first =
     bind alloc_cluster_unlocked (\<lambda>c.
       let first' = (if i = 0 then c else first) in
       bind (case prev_cluster of None \<Rightarrow> ret () | Some prev \<Rightarrow> write_fat_entry_unlocked prev c) (\<lambda>_.
       bind (write_blocks_unlocked (cluster_to_lba c) SECTORS_PER_CLUSTER (Some (chunk_buf data i)))
         (\<lambda>_. create_loop data is (Some c) first')))"

definition remove_entry :: "nat \<Rightarrow> FatDirEntry \<Rightarrow> unit fsop" where
  "remove_entry idx entry =
     bind (if first_cluster entry \<ge> 2 then free_cluster_chain_unlocked (first_cluster entry) else ret ())
       (\<lambda>_. write_dir_entry_unlocked idx empty_entry)"

definition create_file_unlocked :: "bytes \<Rightarrow> bytes \<Rightarrow> unit fsop" where
  "create_file_unlocked name_bytes data =
     (if name_bytes = [] \<or> length name_bytes > 21 then throw InvalidArgument else
      bind read_boot_sector_unlocked (\<lambda>_.
      bind (find_file_unlocked name_bytes) (\<lambda>found.
      bind (case found of None \<Rightarrow> ret () | Some (idx, old_entry) \<Rightarrow> remove_entry idx old_entry) (\<lambda>_.
      bind find_free_dir_slot_unlocked (\<lambda>slot.
      bind (ok_or NoSpace slot) (\<lambda>slot_idx.
      bind (if data = [] then ret 0
            else create_loop data [0..<(length data + CLUSTER_BYTES - 1) div CLUSTER_BYTES] None 0)
        (\<lambda>first. write_dir_entry_unlocked slot_idx
                     (new_entry name_bytes first (of_nat (length data))))))))))"

function read_file_loop :: "nat \<Rightarrow> u16 \<Rightarrow> nat \<Rightarrow> bytes \<Rightarrow> bytes fsop" where
  "read_file_loop sz current written result =
     (if current \<ge> 2 \<and> current < FAT_ENTRY_RESERVED \<and> written < sz then
        let to_read = min (sz - written) CLUSTER_BYTES in
        bind (read_blocks_unlocked (cluster_to_lba current) SECTORS_PER_CLUSTER False) (\<lambda>cluster_buf.
        bind (read_fat_entry_unlocked current) (\<lambda>next.
          read_file_loop sz next (written + to_read) (blit written (take to_read cluster_buf) result)))
      else ret result)"
  by pat_completeness auto
termination by (relation "measure (\<lambda>(sz, current, written, result). sz - written)") auto

definition read_file_unlocked :: "bytes \<Rightarrow> bytes fsop" where
  "read_file_unlocked name =
     bind (find_file_unlocked name) (\<lambda>found.
     bind (ok_or FileNotFound found) (\<lambda>(_, entry).
       let sz = unat (de_size entry) in
       if sz = 0 then ret []
       else read_file_loop sz (first_cluster entry) 0 (replicate sz 0)))"

definition delete_file_unlocked :: "bytes \<Rightarrow> unit fsop" where
  "delete_file_unlocked name =
     bind (find_file_unlocked name) (\<lambda>found.
     bind (ok_or FileNotFound found) (\<lambda>(idx, entry). remove_entry idx entry))"

section \<open>Handles\<close>

record FileId =
  fid_slot :: nat
  fid_generation :: u32

definition file_id_unlocked :: "nat \<Rightarrow> FileId fsop" where
  "file_id_unlocked slot = get (\<lambda>s. \<lparr>fid_slot = slot, fid_generation = SLOT_GENERATIONS s ! slot\<rparr>)"

definition open_entry_unlocked :: "FileId \<Rightarrow> FatDirEntry fsop" where
  "open_entry_unlocked fid =
     bind (file_id_unlocked (fid_slot fid)) (\<lambda>cur.
       if cur \<noteq> fid then throw FileNotFound else
       bind (read_dir_entry_unlocked (fid_slot fid)) (\<lambda>entry.
         if in_use entry \<noteq> 1 then throw FileNotFound else ret entry))"

definition open_file_unlocked :: "bytes \<Rightarrow> bool \<Rightarrow> bool \<Rightarrow> FileId fsop" where
  "open_file_unlocked name create trunc =
     bind read_boot_sector_unlocked (\<lambda>_.
     bind (find_file_unlocked name) (\<lambda>found. case found of
       Some (slot, entry) \<Rightarrow>
         bind (if trunc \<and> (de_size entry \<noteq> 0 \<or> first_cluster entry \<noteq> 0) then
                 bind (write_dir_entry_unlocked slot (entry\<lparr>first_cluster := 0, de_size := 0\<rparr>)) (\<lambda>_.
                   if is_data_cluster (first_cluster entry)
                   then free_cluster_chain_unlocked (first_cluster entry) else ret ())
               else ret ())
           (\<lambda>_. file_id_unlocked slot)
     | None \<Rightarrow>
         if create then
           bind find_free_dir_slot_unlocked (\<lambda>slot.
           bind (ok_or NoSpace slot) (\<lambda>slot.
           bind (write_dir_entry_unlocked slot (new_entry name 0 0)) (\<lambda>_.
             file_id_unlocked slot)))
         else throw FileNotFound))"

definition file_size_unlocked :: "FileId \<Rightarrow> nat fsop" where
  "file_size_unlocked fid = bind (open_entry_unlocked fid) (\<lambda>entry. ret (unat (de_size entry)))"

section \<open>Offset-based access\<close>

function read_at_loop :: "nat \<Rightarrow> u16 \<Rightarrow> nat \<Rightarrow> nat \<Rightarrow> bytes \<Rightarrow> bytes fsop" where
  "read_at_loop len cluster within got buf =
     (if got < len then
        if \<not> is_data_cluster cluster then throw DeviceError else
        bind (read_blocks_unlocked (cluster_to_lba cluster) SECTORS_PER_CLUSTER False) (\<lambda>cluster_buf.
          let n = min (CLUSTER_BYTES - within) (len - got);
              buf' = blit got (slice_of within (within + n) cluster_buf) buf;
              got' = got + n
          in bind (if got' < len then read_fat_entry_unlocked cluster else ret cluster) (\<lambda>cluster'.
               read_at_loop len cluster' 0 got' buf'))
      else ret buf)"
  by pat_completeness auto
termination
  by (relation "measures [\<lambda>(len, cluster, within, got, buf). len - got,
                          \<lambda>(len, cluster, within, got, buf). within]") auto

text \<open>
  \<open>buf_len\<close> is the length of the caller's buffer; the bytes stored in it are the result.
\<close>

definition read_at_unlocked :: "FileId \<Rightarrow> nat \<Rightarrow> nat \<Rightarrow> bytes fsop" where
  "read_at_unlocked fid offset buf_len =
     bind (open_entry_unlocked fid) (\<lambda>entry.
       let sz = unat (de_size entry) in
       if offset \<ge> sz \<or> buf_len = 0 then ret []
       else let len = min buf_len (sz - offset) in
         bind (walk_chain_unlocked (first_cluster entry) (offset div CLUSTER_BYTES)) (\<lambda>(_, cluster).
           read_at_loop len cluster (offset mod CLUSTER_BYTES) 0 (replicate len 0)))"

text \<open>The variables the closure of \<^verbatim>\<open>write_at_unlocked\<close> mutates.\<close>

record write_vars =
  wv_first :: u16
  wv_prev :: u16
  wv_cluster :: u16
  wv_start :: nat
  wv_reached :: nat
  wv_buf :: bytes

text \<open>
  One pass over a cluster: allocate or read it, zero the gap, copy the data, write
  it back. \<open>Inl\<close> leaves the closure with an error; the variables survive it.
\<close>

definition gap_fill :: "nat \<Rightarrow> nat \<Rightarrow> nat \<Rightarrow> bytes \<Rightarrow> nat \<Rightarrow> bytes \<Rightarrow> bytes" where
  "gap_fill sz offset end_pos data cluster_start buf =
     (let cluster_end = cluster_start + CLUSTER_BYTES;
          gap_lo = max sz cluster_start; gap_hi = min offset cluster_end;
          buf = (if gap_lo < gap_hi
                 then blit (gap_lo - cluster_start) (replicate (gap_hi - gap_lo) 0) buf else buf);
          lo = max offset cluster_start; hi = min end_pos cluster_end
      in if lo < hi
         then blit (lo - cluster_start) (slice_of (lo - offset) (hi - offset) data) buf else buf)"

definition write_prepare :: "nat \<Rightarrow> nat \<Rightarrow> write_vars \<Rightarrow> fs_state \<Rightarrow> (FsError + unit) \<times> write_vars \<times> fs_state" where
  "write_prepare offset end_pos v s =
     (if \<not> is_data_cluster (wv_cluster v) then
        case alloc_cluster_unlocked s of
          (Inl e, s1) \<Rightarrow> (Inl e, v, s1)
        | (Inr c, s1) \<Rightarrow>
            if wv_prev v = 0 then
              (Inr (), v\<lparr>wv_cluster := c, wv_first := c, wv_buf := replicate CLUSTER_BYTES 0\<rparr>, s1)
            else (case write_fat_entry_unlocked (wv_prev v) c s1 of
                (Inl e, s2) \<Rightarrow> (Inl e, v\<lparr>wv_cluster := c\<rparr>, s2)
              | (Inr _, s2) \<Rightarrow>
                  (Inr (), v\<lparr>wv_cluster := c, wv_buf := replicate CLUSTER_BYTES 0\<rparr>, s2))
      else if offset > wv_start v \<or> end_pos < wv_start v + CLUSTER_BYTES then
        case read_blocks_unlocked (cluster_to_lba (wv_cluster v)) SECTORS_PER_CLUSTER False s of
          (Inl e, s1) \<Rightarrow> (Inl e, v, s1)
        | (Inr buf, s1) \<Rightarrow> (Inr (), v\<lparr>wv_buf := buf\<rparr>, s1)
      else (Inr (), v, s))"

function write_at_loop ::
  "nat \<Rightarrow> nat \<Rightarrow> nat \<Rightarrow> bytes \<Rightarrow> write_vars \<Rightarrow> fs_state \<Rightarrow> (FsError + unit) \<times> write_vars \<times> fs_state" where
  "write_at_loop sz offset end_pos data v s =
     (case write_prepare offset end_pos v s of
        (Inl e, v1, s1) \<Rightarrow> (Inl e, v1, s1)
      | (Inr _, v1, s1) \<Rightarrow>
          let cluster_end = wv_start v + CLUSTER_BYTES;
              buf = gap_fill sz offset end_pos data (wv_start v) (wv_buf v1)
          in (case write_blocks_unlocked (cluster_to_lba (wv_cluster v1)) SECTORS_PER_CLUSTER (Some buf) s1 of
                (Inl e, s2) \<Rightarrow> (Inl e, v1\<lparr>wv_buf := buf\<rparr>, s2)
              | (Inr _, s2) \<Rightarrow>
                  let v2 = v1\<lparr>wv_buf := buf,
                              wv_reached := max (min end_pos cluster_end) (min offset cluster_end)\<rparr>
                  in if cluster_end \<ge> end_pos then (Inr (), v2, s2)
                     else (case read_fat_entry_unlocked (wv_cluster v1) s2 of
                             (Inl e, s3) \<Rightarrow> (Inl e, v2\<lparr>wv_start := cluster_end, wv_prev := wv_cluster v1\<rparr>, s3)
                           | (Inr next, s3) \<Rightarrow>
                               write_at_loop sz offset end_pos data
                                 (v2\<lparr>wv_start := cluster_end, wv_prev := wv_cluster v1,
                                     wv_cluster := next\<rparr>) s3)))"
  by pat_completeness auto
termination
  by (relation "measure (\<lambda>(sz, offset, end_pos, data, v, s). end_pos - wv_start v)") auto

definition write_at_unlocked :: "FileId \<Rightarrow> nat option \<Rightarrow> bytes \<Rightarrow> (nat \<times> nat) fsop" where
  "write_at_unlocked fid offset data =
     bind (open_entry_unlocked fid) (\<lambda>entry.
       let sz = unat (de_size entry);
           offset = (case offset of None \<Rightarrow> sz | Some x \<Rightarrow> x)
       in if data = [] then ret (offset, 0)
       else if \<not> (offset + length data < 2 ^ 64 \<and> offset + length data \<le> 2 ^ 32 - 1) then throw NoSpace
       else (\<lambda>s.
         let end_pos = offset + length data;
             start = min offset sz;
             cluster_start = start - start mod CLUSTER_BYTES;
             v = \<lparr>wv_first = first_cluster entry, wv_prev = 0, wv_cluster = 0,
                  wv_start = cluster_start, wv_reached = start, wv_buf = replicate CLUSTER_BYTES 0\<rparr>;
             (result, v', s') =
               (case walk_chain_unlocked (first_cluster entry) (cluster_start div CLUSTER_BYTES) s of
                  (Inl e, s1) \<Rightarrow> (Inl e, v, s1)
                | (Inr (prev, cluster), s1) \<Rightarrow>
                    write_at_loop sz offset end_pos data (v\<lparr>wv_prev := prev, wv_cluster := cluster\<rparr>) s1);
             written = wv_reached v' - offset;
             entry' = entry\<lparr>first_cluster := wv_first v',
                            de_size := (if written > 0 then of_nat (max sz (wv_reached v'))
                                        else de_size entry)\<rparr>
         in bind (write_dir_entry_unlocked (fid_slot fid) entry') (\<lambda>_.
              case result of
                Inr _ \<Rightarrow> ret (offset, length data)
              | Inl e \<Rightarrow> if written > 0 then ret (offset, written) else throw e) s'))"

section \<open>Listing\<close>

record PublicFileEntry =
  pf_name :: bytes
  pf_size :: nat
  pf_first_cluster :: u16

fun list_loop :: "(bytes \<Rightarrow> bytes) \<Rightarrow> nat list \<Rightarrow> PublicFileEntry list fsop" where
  "list_loop from_utf8_lossy [] = ret []"
| "list_loop from_utf8_lossy (i # is) =
     bind (read_dir_entry_unlocked i) (\<lambda>entry.
     bind (list_loop from_utf8_lossy is) (\<lambda>rest.
       ret (if in_use entry = 1
            then \<lparr>pf_name = from_utf8_lossy (stored_name entry), pf_size = unat (de_size entry),
                  pf_first_cluster = first_cluster entry\<rparr> # rest
            else rest)))"

definition list_files_unlocked :: "(bytes \<Rightarrow> bytes) \<Rightarrow> PublicFileEntry list fsop" where
  "list_files_unlocked from_utf8_lossy =
     bind read_boot_sector_unlocked (\<lambda>_. list_loop from_utf8_lossy [0..<ROOT_DIR_ENTRIES])"

end
