(* ===== verification/Fs_Volume.thy ===== *)
theory Fs_Volume
  imports Fs_Files
begin

text \<open>
  The volume of \<^verbatim>\<open>src/src/fs.rs\<close> as a whole: the invariant \<open>wf_fs\<close> of directory, table
  and clusters, the abstract view \<open>fs_view\<close> of a volume as a finite map from names to
  contents, and the two lemmas every operation is proved with: replacing the file of
  one slot (\<open>replace_slot\<close>) and growing a chain by free clusters (\<open>grown\<close>).
\<close>

section \<open>The chain of a file\<close>

fun chain_fuel :: "nat \<Rightarrow> store \<Rightarrow> u16 \<Rightarrow> u16 list" where
  "chain_fuel 0 d c = []"
| "chain_fuel (Suc n) d c = (if is_data_cluster c then c # chain_fuel n d (fat_of c d) else [])"

definition chain_of :: "store \<Rightarrow> u16 \<Rightarrow> u16 list" where
  "chain_of d c = chain_fuel 65536 d c"

lemma chain_fuel_chain: "is_chain d c cs \<Longrightarrow> length cs \<le> n \<Longrightarrow> chain_fuel n d c = cs"
proof (induction cs arbitrary: c n)
  case Nil
  then show ?case by (cases n) auto
next
  case (Cons x xs)
  then obtain m where "n = Suc m" by (cases n) auto
  with Cons show ?case by auto
qed

lemma distinct_u16_length:
  fixes cs :: "u16 list"
  assumes "distinct cs"
  shows "length cs \<le> 65536"
proof -
  have "card (set cs) \<le> card (UNIV :: u16 set)" by (rule card_mono) auto
  then show ?thesis using assms by (simp add: distinct_card card_word)
qed

definition chain_ok :: "device \<Rightarrow> store \<Rightarrow> u16 \<Rightarrow> u16 list \<Rightarrow> bool" where
  "chain_ok dv d c cs \<longleftrightarrow> is_chain d c cs \<and> distinct cs
     \<and> (\<forall>x\<in>set cs. valid_cluster dv x \<and> fat_of x d \<noteq> FAT_ENTRY_FREE)"

lemma chain_ok_chain_of: "chain_ok dv d c cs \<Longrightarrow> chain_of d c = cs"
  by (auto simp: chain_ok_def chain_of_def intro!: chain_fuel_chain distinct_u16_length)

lemma chain_ok_cong:
  assumes "\<And>x. x \<in> set cs \<Longrightarrow> fat_of x d' = fat_of x d"
  shows "chain_ok dv d' c cs \<longleftrightarrow> chain_ok dv d c cs"
  using is_chain_cong [OF assms] assms by (auto simp: chain_ok_def)

lemma chain_ok_Nil: "chain_ok dv d c [] \<longleftrightarrow> \<not> is_data_cluster c"
  by (simp add: chain_ok_def)

lemma chain_ok_cells: "chain_ok dv d c cs \<Longrightarrow> x \<in> set cs \<Longrightarrow> fat_cell x \<and> 2 \<le> x \<and> valid_cluster dv x"
  by (auto simp: chain_ok_def)

section \<open>The volume invariant\<close>

definition formatted :: "store \<Rightarrow> bool" where
  "formatted d \<longleftrightarrow> magic (BootSector_read (load 0 512 d)) = FAT_MAGIC"

definition used :: "store \<Rightarrow> nat \<Rightarrow> bool" where
  "used d i \<longleftrightarrow> i < 256 \<and> in_use (dir_of i d) = 1"

definition slot_chain :: "store \<Rightarrow> nat \<Rightarrow> u16 list" where
  "slot_chain d i = chain_of d (first_cluster (dir_of i d))"

text \<open>\<open>vol_ok dv d ch\<close>: the files in use have the chains \<open>ch\<close>, which are well formed,
  long enough for the sizes and pairwise disjoint; no two files share a name.\<close>

definition vol_ok :: "device \<Rightarrow> store \<Rightarrow> (nat \<Rightarrow> u16 list) \<Rightarrow> bool" where
  "vol_ok dv d ch \<longleftrightarrow> formatted d
     \<and> (\<forall>i. used d i \<longrightarrow> chain_ok dv d (first_cluster (dir_of i d)) (ch i)
                       \<and> unat (de_size (dir_of i d)) \<le> 4096 * length (ch i))
     \<and> (\<forall>i j. used d i \<longrightarrow> used d j \<longrightarrow> i \<noteq> j \<longrightarrow>
          set (ch i) \<inter> set (ch j) = {} \<and> stored_name (dir_of i d) \<noteq> stored_name (dir_of j d))"

definition wf_fs :: "fs_state \<Rightarrow> bool" where
  "wf_fs s \<longleftrightarrow> dev_ok (dev s) \<and> length (SLOT_GENERATIONS s) = 256
     \<and> vol_ok (dev s) (disk s) (slot_chain (disk s))"

lemma vol_ok_slot_chain: "vol_ok dv d ch \<Longrightarrow> used d i \<Longrightarrow> slot_chain d i = ch i"
  by (auto simp: vol_ok_def slot_chain_def chain_ok_chain_of)

lemma vol_ok_canonical: "vol_ok dv d ch \<Longrightarrow> vol_ok dv d (slot_chain d)"
  using vol_ok_slot_chain [of dv d ch] by (simp add: vol_ok_def)

lemma wf_fsI:
  "dev_ok (dev s) \<Longrightarrow> length (SLOT_GENERATIONS s) = 256 \<Longrightarrow> vol_ok (dev s) (disk s) ch \<Longrightarrow> wf_fs s"
  by (auto simp: wf_fs_def dest: vol_ok_canonical)

section \<open>The abstract view\<close>

definition content_of :: "store \<Rightarrow> FatDirEntry \<Rightarrow> bytes" where
  "content_of d e = take (unat (de_size e))
     (concat (map (\<lambda>c. cluster_of c d) (chain_of d (first_cluster e))))"

definition fs_view :: "store \<Rightarrow> bytes \<Rightarrow> bytes option" where
  "fs_view d name = map_option (\<lambda>i. content_of d (dir_of i d)) (lookup name d)"

lemma lookup_used: "lookup name d = Some i \<Longrightarrow> used d i \<and> stored_name (dir_of i d) = name"
  by (auto dest: lookup_Some simp: used_def names_file_def)

lemma lookup_iff:
  assumes "vol_ok dv d ch"
  shows "lookup name d = Some i \<longleftrightarrow> used d i \<and> stored_name (dir_of i d) = name"
proof
  assume i: "used d i \<and> stored_name (dir_of i d) = name"
  then have "lookup name d \<noteq> None" by (auto simp: lookup_None used_def names_file_def)
  then obtain j where j: "lookup name d = Some j" by auto
  then have "j = i" using lookup_used [OF j] i assms by (auto simp: vol_ok_def)
  with j show "lookup name d = Some i" by simp
qed (rule lookup_used)

lemma fs_view_iff:
  assumes "vol_ok dv d ch"
  shows "fs_view d name = Some bs \<longleftrightarrow>
    (\<exists>i. used d i \<and> stored_name (dir_of i d) = name \<and> content_of d (dir_of i d) = bs)"
  unfolding fs_view_def by (auto simp: lookup_iff [OF assms])

lemma used_lookup:
  "vol_ok dv d ch \<Longrightarrow> used d i \<Longrightarrow> lookup (stored_name (dir_of i d)) d = Some i"
  by (simp add: lookup_iff)

lemma length_concat_clusters [simp]:
  "length (concat (map (\<lambda>c. cluster_of c d) cs)) = 4096 * length cs"
  by (induction cs) simp_all

section \<open>Replacing the file of one slot\<close>

text \<open>
  Every operation that changes the volume touches one directory slot, the clusters
  of its file and clusters of no file (\<open>T\<close>).
\<close>

lemma replace_slot:
  assumes v: "vol_ok dv d ch" and i: "i < 256" and f: "formatted d'"
    and dirs: "\<And>j. j < 256 \<Longrightarrow> j \<noteq> i \<Longrightarrow> dir_of j d' = dir_of j d"
    and fresh: "\<And>j. used d j \<Longrightarrow> j \<noteq> i \<Longrightarrow> set (ch j) \<inter> T = {}"
    and frame: "\<And>x. valid_cluster dv x \<Longrightarrow> x \<notin> T \<Longrightarrow>
                  fat_of x d' = fat_of x d \<and> cluster_of x d' = cluster_of x d"
    and new: "used d' i \<Longrightarrow> chain_ok dv d' (first_cluster (dir_of i d')) cs
                \<and> unat (de_size (dir_of i d')) \<le> 4096 * length cs \<and> set cs \<subseteq> T"
    and name: "\<And>j. used d' i \<Longrightarrow> used d j \<Longrightarrow> j \<noteq> i \<Longrightarrow>
                 stored_name (dir_of j d) \<noteq> stored_name (dir_of i d')"
  shows "vol_ok dv d' (ch(i := cs))"
    and "fs_view d' = (\<lambda>nm. if used d' i \<and> nm = stored_name (dir_of i d')
           then Some (content_of d' (dir_of i d'))
           else if used d i \<and> nm = stored_name (dir_of i d) then None else fs_view d nm)"
proof -
  have used: "used d' j \<longleftrightarrow> used d j" if "j \<noteq> i" for j
    using dirs [of j] that by (auto simp: used_def)
  have dir: "dir_of j d' = dir_of j d" if "used d j" "j \<noteq> i" for j
    using dirs [of j] that by (auto simp: used_def)
  have same: "fat_of x d' = fat_of x d \<and> cluster_of x d' = cluster_of x d"
    if "used d j" "j \<noteq> i" "x \<in> set (ch j)" for j x
    using frame fresh [OF that(1,2)] v that by (fastforce simp: vol_ok_def chain_ok_def)
  have chain: "chain_ok dv d' (first_cluster (dir_of j d)) (ch j)" if "used d j" "j \<noteq> i" for j
    using v same [OF that] that chain_ok_cong [of "ch j" d' d] by (auto simp: vol_ok_def)
  show v': "vol_ok dv d' (ch(i := cs))"
    unfolding vol_ok_def
  proof (intro conjI allI impI)
    fix j assume j: "used d' j"
    show "chain_ok dv d' (first_cluster (dir_of j d')) ((ch(i := cs)) j)"
      using j new chain [of j] used [of j] dir [of j] by (cases "j = i") auto
    show "unat (de_size (dir_of j d')) \<le> 4096 * length ((ch(i := cs)) j)"
      using j new v used [of j] dir [of j] by (cases "j = i") (auto simp: vol_ok_def)
  next
    fix j k assume jk: "used d' j" "used d' k" "j \<noteq> k"
    show "set ((ch(i := cs)) j) \<inter> set ((ch(i := cs)) k) = {}"
      using jk new fresh [of j] fresh [of k] used [of j] used [of k] v
      by (cases "j = i"; cases "k = i") (auto simp: vol_ok_def)
    show "stored_name (dir_of j d') \<noteq> stored_name (dir_of k d')"
      using jk name [of j] name [of k] used [of j] used [of k] dir [of j] dir [of k] v
      by (cases "j = i"; cases "k = i") (auto simp: vol_ok_def)
  qed (rule f)
  have content: "content_of d' (dir_of j d) = content_of d (dir_of j d)" if "used d j" "j \<noteq> i" for j
  proof -
    have "chain_of d' (first_cluster (dir_of j d)) = ch j" "chain_of d (first_cluster (dir_of j d)) = ch j"
      using chain [OF that] v that by (auto intro: chain_ok_chain_of simp: vol_ok_def)
    then show ?thesis using same [OF that] by (simp add: content_of_def cong: map_cong)
  qed
  define G where "G nm = (if used d' i \<and> nm = stored_name (dir_of i d')
           then Some (content_of d' (dir_of i d'))
           else if used d i \<and> nm = stored_name (dir_of i d) then None else fs_view d nm)" for nm
  have eq: "fs_view d' nm = Some bs \<longleftrightarrow> G nm = Some bs" for nm bs
  proof (cases "used d' i \<and> nm = stored_name (dir_of i d')")
    case True
    then show ?thesis using v' by (auto simp: fs_view_def used_lookup G_def)
  next
    case False
    have L: "fs_view d' nm = Some bs \<longleftrightarrow> (\<exists>j. j \<noteq> i \<and> used d j \<and> stored_name (dir_of j d) = nm \<and> content_of d (dir_of j d) = bs)"
      unfolding fs_view_iff [OF v'] using False used dir content by metis
    show ?thesis
    proof (cases "used d i \<and> nm = stored_name (dir_of i d)")
      case True
      then have "\<not> fs_view d' nm = Some bs" unfolding L using v by (auto simp: vol_ok_def)
      then show ?thesis using False True by (auto simp: G_def)
    next
      case no: False
      then have "fs_view d' nm = Some bs \<longleftrightarrow> fs_view d nm = Some bs" unfolding L fs_view_iff [OF v] by metis
      then show ?thesis using False no by (auto simp: G_def)
    qed
  qed
  have "fs_view d' nm = G nm" for nm using eq [of nm] by (cases "G nm") auto
  then show "fs_view d' = (\<lambda>nm. if used d' i \<and> nm = stored_name (dir_of i d')
           then Some (content_of d' (dir_of i d'))
           else if used d i \<and> nm = stored_name (dir_of i d) then None else fs_view d nm)"
    by (intro ext) (simp add: G_def)
qed

section \<open>Growing a chain by free clusters\<close>

fun path :: "store \<Rightarrow> u16 \<Rightarrow> u16 list \<Rightarrow> u16 \<Rightarrow> bool" where
  "path d x [] y \<longleftrightarrow> x = y"
| "path d x (c # cs) y \<longleftrightarrow> c = x \<and> is_data_cluster x \<and> path d (fat_of x d) cs y"

lemma is_chain_append: "is_chain d x (as @ bs) \<longleftrightarrow> (\<exists>y. path d x as y \<and> is_chain d y bs)"
  by (induction "as" arbitrary: x) auto

lemma path_cong:
  "(\<And>x. x \<in> set cs \<Longrightarrow> fat_of x d' = fat_of x d) \<Longrightarrow> path d' c cs y \<longleftrightarrow> path d c cs y"
  by (induction cs arbitrary: c) auto

text \<open>A free cluster is marked as the end and the last cluster is linked to it.\<close>

lemma chain_ok_extend:
  assumes ok: "chain_ok dv d x cs" and c: "valid_cluster dv c" "c \<notin> set cs" and ne: "cs \<noteq> []"
  shows "chain_ok dv (fat_put (last cs) c (fat_put c FAT_ENTRY_EOC d)) x (cs @ [c])"
proof -
  obtain bs l where cs: "cs = bs @ [l]" using ne by (cases cs rule: rev_cases) auto
  have l: "fat_cell l" "is_data_cluster l" "l \<noteq> c" "l \<notin> set bs" and fc: "fat_cell c" "is_data_cluster c"
    and dist: "distinct bs" and bs: "\<forall>z\<in>set bs. fat_cell z" and pth: "path d x bs l"
    using ok c unfolding cs chain_ok_def is_chain_append by auto
  let ?d = "fat_put l c (fat_put c FAT_ENTRY_EOC d)"
  have "path ?d x bs l"
    using pth l c bs fc unfolding cs by (subst path_cong) auto
  moreover have "\<not> is_data_cluster FAT_ENTRY_EOC" by (simp add: is_data_cluster_def)
  ultimately have "is_chain ?d x (cs @ [c])"
    using l fc unfolding cs by (auto simp: is_chain_append)
  moreover have "fat_of z ?d \<noteq> FAT_ENTRY_FREE" if "z \<in> set (cs @ [c])" for z
  proof -
    have "fat_of z ?d = (if l = z then c else if c = z then FAT_ENTRY_EOC else fat_of z d)"
      using that l fc bs unfolding cs by auto
    then show ?thesis using that ok c unfolding cs chain_ok_def by (auto simp: valid_clusterD)
  qed
  ultimately show ?thesis using ok c unfolding chain_ok_def cs by auto
qed

lemma chain_ok_single:
  assumes "valid_cluster dv c"
  shows "chain_ok dv (fat_put c FAT_ENTRY_EOC d) c [c]"
  using assms by (auto simp: chain_ok_def is_data_cluster_def)

text \<open>
  \<open>grown s0 cs0 s cs\<close>: since \<open>s0\<close>, the chain \<open>cs0\<close> was extended to \<open>cs\<close> by clusters that
  were free, and only the table entries and contents of \<open>cs\<close> were written.
\<close>

definition grown :: "fs_state \<Rightarrow> u16 list \<Rightarrow> fs_state \<Rightarrow> u16 list \<Rightarrow> bool" where
  "grown s0 cs0 s cs \<longleftrightarrow> dev s = dev s0 \<and> SLOT_GENERATIONS s = SLOT_GENERATIONS s0
     \<and> load 0 512 (disk s) = load 0 512 (disk s0)
     \<and> (\<forall>i<256. dir_of i (disk s) = dir_of i (disk s0))
     \<and> (\<forall>x. fat_cell x \<longrightarrow> 2 \<le> x \<longrightarrow> x \<notin> set cs \<longrightarrow>
          fat_of x (disk s) = fat_of x (disk s0) \<and> cluster_of x (disk s) = cluster_of x (disk s0))
     \<and> (\<exists>new. cs = cs0 @ new \<and> set new \<subseteq> free_clusters s0)"

lemma grown_refl: "grown s cs s cs"
  by (simp add: grown_def)

lemma boot_untouched [simp]:
  "load 0 512 (fat_put c v d) = load 0 512 d"
  "load 0 512 (cluster_put c buf d) = load 0 512 d"
  "load 0 512 (dir_put i e d) = load 0 512 d"
  by (auto simp: fat_put_def cluster_put_def dir_put_def cluster_addr_def load_put_other)

lemma formatted_simps [simp]:
  "formatted (fat_put c v d) = formatted d"
  "formatted (cluster_put c buf d) = formatted d"
  "formatted (dir_put i e d) = formatted d"
  by (simp_all add: formatted_def)

lemma grown_free:
  assumes "grown s0 cs0 s cs" "chain_ok (dev s) (disk s) x cs" "c \<in> free_clusters s"
  shows "c \<in> free_clusters s0" "c \<notin> set cs" "valid_cluster (dev s) c"
  using assms unfolding grown_def chain_ok_def free_clusters_def by auto

lemma grown_alloc:
  assumes "grown s0 cs0 s cs" "chain_ok (dev s) (disk s) x cs" "c \<in> free_clusters s"
  shows "grown s0 cs0 (s\<lparr>disk := fat_put c v (disk s)\<rparr>) (cs @ [c])"
  using assms(1) grown_free [OF assms] by (auto simp: grown_def)

lemma grown_link:
  assumes "grown s0 cs0 s cs" "x \<in> set cs" "fat_cell x"
  shows "grown s0 cs0 (s\<lparr>disk := fat_put x v (disk s)\<rparr>) cs"
  using assms by (auto simp: grown_def)

lemma grown_write:
  assumes "grown s0 cs0 s cs" "x \<in> set cs" "2 \<le> x" "length buf = 4096"
  shows "grown s0 cs0 (s\<lparr>disk := cluster_put x buf (disk s)\<rparr>) cs"
  using assms by (auto simp: grown_def)

lemma chain_ok_cluster_put [simp]:
  "chain_ok dv (cluster_put x buf d) c cs \<longleftrightarrow> chain_ok dv d c cs" if "\<forall>x\<in>set cs. fat_cell x"
  using that by (intro chain_ok_cong) auto

section \<open>Consequences of the invariant\<close>

lemma read_boot_ok [run]:
  assumes "dev_ok (dev s)" "formatted (disk s)"
  shows "read_boot_sector_unlocked s = (Inr (BootSector_read (load 0 512 (disk s))), s)"
  using assms by (cases "dev s")
    (auto simp: read_boot_sector_unlocked_def bind_def read_block_ok formatted_def)

lemma wf_fsD:
  assumes "wf_fs s"
  shows "dev_ok (dev s)" "formatted (disk s)" "length (SLOT_GENERATIONS s) = 256"
    "vol_ok (dev s) (disk s) (slot_chain (disk s))"
  using assms by (auto simp: wf_fs_def vol_ok_def)

lemma wf_slot:
  assumes "wf_fs s" "used (disk s) i"
  shows "chain_ok (dev s) (disk s) (first_cluster (dir_of i (disk s))) (slot_chain (disk s) i)"
    "unat (de_size (dir_of i (disk s))) \<le> 4096 * length (slot_chain (disk s) i)"
  using assms by (auto simp: wf_fs_def vol_ok_def)

lemma wf_chain_used:
  assumes "wf_fs s" "used (disk s) i" "x \<in> set (slot_chain (disk s) i)"
  shows "valid_cluster (dev s) x" "x \<notin> free_clusters s"
  using wf_slot(1) [OF assms(1,2)] assms(3) by (auto simp: chain_ok_def free_clusters_def)

lemma wf_disjoint:
  assumes "wf_fs s" "used (disk s) i" "used (disk s) j" "i \<noteq> j"
  shows "set (slot_chain (disk s) i) \<inter> set (slot_chain (disk s) j) = {}"
    "stored_name (dir_of i (disk s)) \<noteq> stored_name (dir_of j (disk s))"
  using assms by (auto simp: wf_fs_def vol_ok_def)

subsection \<open>Committing and abandoning a grown chain\<close>

definition base_chain :: "store \<Rightarrow> nat \<Rightarrow> u16 list" where
  "base_chain d i = (if used d i then slot_chain d i else [])"

lemma grown_fresh:
  assumes "wf_fs s0" "grown s0 (base_chain (disk s0) i) s cs" "used (disk s0) j" "j \<noteq> i"
  shows "set (slot_chain (disk s0) j) \<inter> set cs = {}"
proof -
  obtain new where cs: "cs = base_chain (disk s0) i @ new" "set new \<subseteq> free_clusters s0"
    using assms(2) by (auto simp: grown_def)
  have "set (slot_chain (disk s0) j) \<inter> set new = {}"
    using wf_chain_used(2) [OF assms(1,3)] cs(2) by blast
  moreover have "set (slot_chain (disk s0) j) \<inter> set (base_chain (disk s0) i) = {}"
    using wf_disjoint(1) [OF assms(1,3) _ assms(4)] by (cases "used (disk s0) i") (simp_all add: base_chain_def)
  ultimately show ?thesis using cs(1) by auto
qed

lemma commit_slot:
  assumes wf: "wf_fs s0" and i: "i < 256" and g: "grown s0 (base_chain (disk s0) i) s cs"
    and ok: "chain_ok (dev s) (disk s) (first_cluster e) cs"
    and e: "entry_fits e" "in_use e = 1" "unat (de_size e) \<le> 4096 * length cs"
    and name: "\<And>j. used (disk s0) j \<Longrightarrow> j \<noteq> i \<Longrightarrow> stored_name (dir_of j (disk s0)) \<noteq> stored_name e"
  shows "wf_fs (s\<lparr>disk := dir_put i e (disk s)\<rparr>)"
    and "fs_view (dir_put i e (disk s)) = (\<lambda>nm. if nm = stored_name e
           then Some (take (unat (de_size e)) (concat (map (\<lambda>c. cluster_of c (disk s)) cs)))
           else if used (disk s0) i \<and> nm = stored_name (dir_of i (disk s0)) then None
           else fs_view (disk s0) nm)"
proof -
  let ?d = "dir_put i e (disk s)"
  have cells: "\<forall>x\<in>set cs. fat_cell x" using ok by (auto dest: chain_ok_cells)
  have d: "dir_of i ?d = e" using i e by simp
  have used: "used ?d i" using i e by (simp add: used_def)
  have ok': "chain_ok (dev s0) ?d (first_cluster e) cs"
    using ok g cells e chain_ok_cong [of cs ?d "disk s"] by (simp add: grown_def)
  have f: "formatted ?d" using wf_fsD(2) [OF wf] g by (simp add: formatted_def grown_def)
  have fr: "fat_of x ?d = fat_of x (disk s0) \<and> cluster_of x ?d = cluster_of x (disk s0)"
    if "valid_cluster (dev s0) x" "x \<notin> set cs" for x
    using that g e i valid_clusterD(1,3) [OF that(1)] by (simp add: grown_def)
  have dirs: "dir_of j ?d = dir_of j (disk s0)" if "j < 256" "j \<noteq> i" for j
    using that g e i by (simp add: grown_def)
  note R = replace_slot [where d' = ?d and cs = cs and T = "set cs",
      OF wf_fsD(4) [OF wf] i f dirs grown_fresh [OF wf g] fr]
  show "wf_fs (s\<lparr>disk := ?d\<rparr>)"
    by (rule wf_fsI) (use R(1) d ok' e name g wf in \<open>auto simp: grown_def wf_fs_def\<close>)
  have c: "content_of ?d e = take (unat (de_size e)) (concat (map (\<lambda>c. cluster_of c (disk s)) cs))"
    using chain_ok_chain_of [OF ok'] i e by (simp add: content_of_def)
  have V: "fs_view ?d = (\<lambda>nm. if used ?d i \<and> nm = stored_name (dir_of i ?d)
           then Some (content_of ?d (dir_of i ?d))
           else if used (disk s0) i \<and> nm = stored_name (dir_of i (disk s0)) then None
           else fs_view (disk s0) nm)"
    by (rule R(2)) (use d ok' e name in auto)
  show "fs_view ?d = (\<lambda>nm. if nm = stored_name e
           then Some (take (unat (de_size e)) (concat (map (\<lambda>c. cluster_of c (disk s)) cs)))
           else if used (disk s0) i \<and> nm = stored_name (dir_of i (disk s0)) then None
           else fs_view (disk s0) nm)"
    unfolding V d c using used by simp
qed

lemma abandon_slot:
  assumes wf: "wf_fs s0" and i: "i < 256" "\<not> used (disk s0) i" and g: "grown s0 [] s cs"
  shows "wf_fs s" and "fs_view (disk s) = fs_view (disk s0)"
proof -
  have g': "grown s0 (base_chain (disk s0) i) s cs" using g i by (simp add: base_chain_def)
  have u: "\<not> used (disk s) i" using g i by (auto simp: grown_def used_def)
  have f: "formatted (disk s)" using wf_fsD(2) [OF wf] g by (simp add: formatted_def grown_def)
  have fr: "fat_of x (disk s) = fat_of x (disk s0) \<and> cluster_of x (disk s) = cluster_of x (disk s0)"
    if "valid_cluster (dev s0) x" "x \<notin> set cs" for x
    using that g valid_clusterD(1,3) [OF that(1)] by (simp add: grown_def)
  have dirs: "dir_of j (disk s) = dir_of j (disk s0)" if "j < 256" "j \<noteq> i" for j
    using that g by (simp add: grown_def)
  note R = replace_slot [where d' = "disk s" and cs = cs and T = "set cs",
      OF wf_fsD(4) [OF wf] i(1) f dirs grown_fresh [OF wf g'] fr]
  show "wf_fs s"
    by (rule wf_fsI) (use R(1) u g wf in \<open>auto simp: grown_def wf_fs_def\<close>)
  have "fs_view (disk s) = (\<lambda>nm. if used (disk s) i \<and> nm = stored_name (dir_of i (disk s))
           then Some (content_of (disk s) (dir_of i (disk s)))
           else if used (disk s0) i \<and> nm = stored_name (dir_of i (disk s0)) then None
           else fs_view (disk s0) nm)"
    by (rule R(2)) (use u in auto)
  then show "fs_view (disk s) = fs_view (disk s0)" using u i by simp
qed

subsection \<open>Releasing the chain of a slot\<close>

lemma release_slot:
  assumes wf: "wf_fs s" and i: "used (disk s) i"
    and e: "entry_fits e" "in_use e = 1 \<Longrightarrow> first_cluster e = 0 \<and> de_size e = 0
                \<and> stored_name e = stored_name (dir_of i (disk s))"
    and dirs: "\<And>j. j < 256 \<Longrightarrow> dir_of j d' = (if j = i then e else dir_of j (disk s))"
    and boot: "load 0 512 d' = load 0 512 (disk s)"
    and fat: "\<And>x. fat_cell x \<Longrightarrow> fat_of x d' = (if x \<in> set (slot_chain (disk s) i) then 0 else fat_of x (disk s))"
    and cl: "\<And>x. cluster_of x d' = cluster_of x (disk s)"
  shows "vol_ok (dev s) d' ((slot_chain (disk s))(i := []))"
    and "fs_view d' = (fs_view (disk s))(stored_name (dir_of i (disk s)) :=
           (if in_use e = 1 then Some [] else None))"
proof -
  have i': "i < 256" using i by (simp add: used_def)
  have d: "dir_of i d' = e" using dirs i' by simp
  have u: "used d' i \<longleftrightarrow> in_use e = 1" using i' d by (simp add: used_def)
  have f: "formatted d'" using wf_fsD(2) [OF wf] boot by (simp add: formatted_def)
  have dirs': "dir_of j d' = dir_of j (disk s)" if "j < 256" "j \<noteq> i" for j
    using dirs that by simp
  have fresh: "set (slot_chain (disk s) j) \<inter> set (slot_chain (disk s) i) = {}"
    if "used (disk s) j" "j \<noteq> i" for j
    using wf_disjoint(1) [OF wf that(1) i that(2)] .
  have fr: "fat_of x d' = fat_of x (disk s) \<and> cluster_of x d' = cluster_of x (disk s)"
    if "valid_cluster (dev s) x" "x \<notin> set (slot_chain (disk s) i)" for x
    using fat [OF valid_clusterD(1) [OF that(1)]] that cl by simp
  have name: "stored_name (dir_of j (disk s)) \<noteq> stored_name (dir_of i d')"
    if "used d' i" "used (disk s) j" "j \<noteq> i" for j
    using wf_disjoint(2) [OF wf that(2) i that(3)] that u d e by simp
  have new: "chain_ok (dev s) d' (first_cluster (dir_of i d')) []
        \<and> unat (de_size (dir_of i d')) \<le> 4096 * length ([] :: u16 list)
        \<and> set [] \<subseteq> set (slot_chain (disk s) i)" if "used d' i"
    using that u d e by (simp add: chain_ok_Nil is_data_cluster_def)
  note R = replace_slot [where d' = d' and cs = "[]" and T = "set (slot_chain (disk s) i)",
      OF wf_fsD(4) [OF wf] i' f dirs' fresh fr new name]
  show "vol_ok (dev s) d' ((slot_chain (disk s))(i := []))" by (rule R(1))
  have V: "fs_view d' = (\<lambda>nm. if used d' i \<and> nm = stored_name (dir_of i d')
           then Some (content_of d' (dir_of i d'))
           else if used (disk s) i \<and> nm = stored_name (dir_of i (disk s)) then None
           else fs_view (disk s) nm)"
    by (rule R(2))
  have "content_of d' e = []" if "in_use e = 1" using e that by (simp add: content_of_def)
  then show "fs_view d' = (fs_view (disk s))(stored_name (dir_of i (disk s)) :=
           (if in_use e = 1 then Some [] else None))"
    unfolding V d using u e i by (intro ext) auto
qed

end
