(* ===== verification/Fs_Correct.thy ===== *)
theory Fs_Correct
  imports Fs_Volume
begin

text \<open>
  What the whole-file operations of \<^verbatim>\<open>src/src/fs.rs\<close> do on a well-formed volume: removal of
  a file, the allocation loop of \<^verbatim>\<open>create_file\<close>, reading back, deleting, creating and
  formatting, each as an equation on states and as an operation on \<open>fs_view\<close>.
\<close>

section \<open>Removing a file\<close>

definition removed :: "nat \<Rightarrow> fs_state \<Rightarrow> fs_state" where
  "removed i s = s\<lparr>
     disk := dir_put i empty_entry
       (fold (\<lambda>x. fat_put x FAT_ENTRY_FREE) (slot_chain (disk s) i) (disk s)),
     SLOT_GENERATIONS := (SLOT_GENERATIONS s)[i := SLOT_GENERATIONS s ! i + 1]\<rparr>"

lemma empty_entry_simps [simp]:
  "entry_fits empty_entry" "in_use empty_entry = 0" "first_cluster empty_entry = 0"
  by (simp_all add: empty_entry_def entry_fits_def)

lemma below_two_no_data: "\<not> 2 \<le> c \<Longrightarrow> \<not> is_data_cluster c"
  by (simp add: is_data_cluster_def)

lemma load_boot_fold [simp]: "load 0 512 (fold (\<lambda>x. fat_put x (f x)) cs d) = load 0 512 d"
  by (induction cs arbitrary: d) auto

lemma free_chain_ok:
  assumes "dev_ok (dev s)" "chain_ok (dev s) d c cs" "\<And>x. x \<in> set cs \<Longrightarrow> fat_of x (disk s) = fat_of x d"
  shows "free_cluster_chain_unlocked c s =
           (Inr (), s\<lparr>disk := fold (\<lambda>x. fat_put x FAT_ENTRY_FREE) cs (disk s)\<rparr>)"
proof -
  have "chain_ok (dev s) (disk s) c cs" using assms chain_ok_cong [of cs "disk s" d] by blast
  then show ?thesis unfolding free_cluster_chain_unlocked_def
    by (intro free_loop_chain) (auto simp: chain_ok_def assms(1))
qed

lemma remove_entry_ok:
  assumes wf: "wf_fs s" and i: "used (disk s) i"
  shows "remove_entry i (dir_of i (disk s)) s = (Inr (), removed i s)"
proof -
  let ?e = "dir_of i (disk s)" and ?cs = "slot_chain (disk s) i"
  have ok: "chain_ok (dev s) (disk s) (first_cluster ?e) ?cs" using wf_slot(1) [OF wf i] .
  have i': "i < 256" using i by (simp add: used_def)
  have nil: "?cs = []" if "\<not> 2 \<le> first_cluster ?e"
    using ok that is_chain_nil_iff by (auto simp: chain_ok_def below_two_no_data)
  have "(if first_cluster ?e \<ge> 2 then free_cluster_chain_unlocked (first_cluster ?e) else ret ()) s
      = (Inr (), s\<lparr>disk := fold (\<lambda>x. fat_put x FAT_ENTRY_FREE) ?cs (disk s)\<rparr>)"
    using free_chain_ok [OF wf_fsD(1) [OF wf] ok] nil by auto
  then show ?thesis
    using i' wf_fsD(1) [OF wf]
    by (simp add: remove_entry_def bind_def write_dir_ok removed_def retired_def)
qed

lemma removed_view:
  assumes wf: "wf_fs s" and i: "used (disk s) i"
  shows "wf_fs (removed i s)"
    and "fs_view (disk (removed i s)) = (fs_view (disk s))(stored_name (dir_of i (disk s)) := None)"
    and "free_clusters (removed i s) = free_clusters s \<union> set (slot_chain (disk s) i)"
    and "\<not> used (disk (removed i s)) i"
    and "\<And>j. j < 256 \<Longrightarrow> j \<noteq> i \<Longrightarrow> dir_of j (disk (removed i s)) = dir_of j (disk s)"
proof -
  let ?cs = "slot_chain (disk s) i" and ?d = "disk (removed i s)"
  have i': "i < 256" using i by (simp add: used_def)
  have cells: "\<forall>x\<in>set ?cs. fat_cell x" using wf_slot(1) [OF wf i] by (auto dest: chain_ok_cells)
  have dirs: "dir_of j ?d = (if j = i then empty_entry else dir_of j (disk s))" if "j < 256" for j
    using that i' cells by (simp add: removed_def)
  have fat: "fat_of x ?d = (if x \<in> set ?cs then 0 else fat_of x (disk s))" if "fat_cell x" for x
    using that cells by (simp add: removed_def fat.rd_fold_wr)
  have cl: "cluster_of x ?d = cluster_of x (disk s)" for x using i' cells by (simp add: removed_def)
  have boot: "load 0 512 ?d = load 0 512 (disk s)" by (simp add: removed_def)
  note R = release_slot [where e = empty_entry, OF wf i _ _ dirs boot fat cl]
  show "wf_fs (removed i s)"
    by (rule wf_fsI) (use R(1) wf_fsD [OF wf] in \<open>auto simp: removed_def\<close>)
  show "fs_view ?d = (fs_view (disk s))(stored_name (dir_of i (disk s)) := None)"
    using R(2) by simp
  have "dev (removed i s) = dev s" by (simp add: removed_def)
  then have "c \<in> free_clusters (removed i s) \<longleftrightarrow> c \<in> free_clusters s \<union> set ?cs" for c
    using fat [OF valid_clusterD(1), of "dev s" c] wf_chain_used(1) [OF wf i, of c]
    by (auto simp: free_clusters_def)
  then show "free_clusters (removed i s) = free_clusters s \<union> set ?cs" by blast
  show "\<not> used ?d i" using dirs [OF i'] by (simp add: used_def)
  show "\<And>j. j < 256 \<Longrightarrow> j \<noteq> i \<Longrightarrow> dir_of j ?d = dir_of j (disk s)" using dirs by simp
qed

section \<open>Building the chain of a new file\<close>

definition chain_head :: "u16 list \<Rightarrow> u16" where
  "chain_head cs = (case cs of [] \<Rightarrow> 0 | c # _ \<Rightarrow> c)"

definition chain_end :: "u16 list \<Rightarrow> u16 option" where
  "chain_end cs = (if cs = [] then None else Some (last cs))"

definition built :: "bytes \<Rightarrow> fs_state \<Rightarrow> fs_state \<Rightarrow> u16 list \<Rightarrow> bool" where
  "built data s0 s cs \<longleftrightarrow> grown s0 [] s cs \<and> chain_ok (dev s) (disk s) (chain_head cs) cs
     \<and> map (\<lambda>c. cluster_of c (disk s)) cs = map (chunk_buf data) [0..<length cs]"

lemma length_chunk_buf [simp]: "length (chunk_buf data i) = 4096"
  by (simp add: chunk_buf_def Let_def slice_of_def)

lemma built_Nil: "built data s s []"
  by (simp add: built_def grown_refl chain_ok_Nil chain_head_def is_data_cluster_def)

lemma grown_free_clusters:
  assumes "grown s0 cs0 s cs" "chain_ok (dev s) (disk s) x cs"
  shows "free_clusters s = free_clusters s0 - set cs"
  using assms by (auto simp: free_clusters_def grown_def chain_ok_def)

text \<open>One iteration: allocate, link, write.\<close>

definition extended :: "u16 list \<Rightarrow> u16 \<Rightarrow> bytes \<Rightarrow> fs_state \<Rightarrow> fs_state" where
  "extended cs c buf s = s\<lparr>disk := cluster_put c buf
     ((if cs = [] then id else fat_put (last cs) c) (fat_put c FAT_ENTRY_EOC (disk s)))\<rparr>"

lemma extended_chain:
  assumes ok: "chain_ok (dev s) (disk s) x cs" and x: "cs = [] \<Longrightarrow> y = c" "cs \<noteq> [] \<Longrightarrow> y = x"
    and g: "grown s0 cs0 s cs" and c: "c \<in> free_clusters s" and buf: "length buf = 4096"
  shows "chain_ok (dev s) (disk (extended cs c buf s)) y (cs @ [c])"
    and "grown s0 cs0 (extended cs c buf s) (cs @ [c])"
    and "map (\<lambda>z. cluster_of z (disk (extended cs c buf s))) (cs @ [c])
           = map (\<lambda>c. cluster_of c (disk s)) cs @ [buf]"
proof -
  note f = grown_free [OF g ok c]
  have cells: "\<forall>z\<in>set (cs @ [c]). fat_cell z \<and> 2 \<le> z" using ok f(3) by (auto dest: chain_ok_cells)
  show "chain_ok (dev s) (disk (extended cs c buf s)) y (cs @ [c])"
    using chain_ok_single [OF f(3)] chain_ok_extend [OF ok f(3,2)] x cells
    by (cases "cs = []") (auto simp: extended_def)
  have g1: "grown s0 cs0 (s\<lparr>disk := fat_put c FAT_ENTRY_EOC (disk s)\<rparr>) (cs @ [c])"
    using grown_alloc [OF g ok c] .
  have "grown s0 cs0 (s\<lparr>disk := (if cs = [] then id else fat_put (last cs) c)
      (fat_put c FAT_ENTRY_EOC (disk s))\<rparr>) (cs @ [c])"
    using g1 grown_link [OF g1, of "last cs" c] cells by auto
  from grown_write [OF this, of c buf] show "grown s0 cs0 (extended cs c buf s) (cs @ [c])"
    using cells buf by (simp add: extended_def)
  show "map (\<lambda>z. cluster_of z (disk (extended cs c buf s))) (cs @ [c])
           = map (\<lambda>c. cluster_of c (disk s)) cs @ [buf]"
    using cells f(2) buf by (auto simp: extended_def)
qed

lemma built_step:
  assumes b: "built data s0 s cs" and c: "c \<in> free_clusters s"
  shows "built data s0 (extended cs c (chunk_buf data (length cs)) s) (cs @ [c])"
proof -
  let ?buf = "chunk_buf data (length cs)"
  have b': "chain_ok (dev s) (disk s) (chain_head cs) cs" "grown s0 [] s cs"
    "map (\<lambda>c. cluster_of c (disk s)) cs = map (chunk_buf data) [0..<length cs]"
    using b by (auto simp: built_def)
  have dev: "dev (extended cs c ?buf s) = dev s" by (simp add: extended_def)
  have hd: "cs = [] \<Longrightarrow> chain_head (cs @ [c]) = c" "cs \<noteq> [] \<Longrightarrow> chain_head (cs @ [c]) = chain_head cs"
    by (auto simp: chain_head_def split: list.splits)
  note E = extended_chain [OF b'(1) hd b'(2) c length_chunk_buf]
  show ?thesis unfolding built_def dev using E(1,2) [of data "length cs"] E(3) [of data "length cs"] b'(3)
    by simp
qed

lemma create_loop_run:
  assumes "dev_ok (dev s)" "built data s0 s cs"
  shows "\<exists>r s' cs'. create_loop data [length cs..<length cs + n] (chain_end cs) (chain_head cs) s = (r, s')
     \<and> built data s0 s' cs'
     \<and> (case r of Inr f \<Rightarrow> f = chain_head cs' \<and> length cs' = length cs + n
                | Inl e \<Rightarrow> e = NoSpace \<and> free_clusters s' = {} \<and> length cs' < length cs + n)"
  using assms
proof (induction n arbitrary: s cs)
  case 0
  then show ?case by auto
next
  case (Suc n)
  have upt: "[length cs..<length cs + Suc n] = length cs # [length (cs @ [x])..<length (cs @ [x]) + n]" for x
    by (simp add: upt_conv_Cons)
  show ?case
  proof (cases rule: alloc_cluster_cases [OF Suc.prems(1)])
    case 1
    then have "create_loop data [length cs..<length cs + Suc n] (chain_end cs) (chain_head cs) s = (Inl NoSpace, s)"
      unfolding upt [of 0] create_loop.simps by (simp add: bind_def)
    then show ?thesis using Suc.prems(2) 1 by auto
  next
    case (2 c)
    let ?s = "extended cs c (chunk_buf data (length cs)) s"
    let ?first = "if length cs = 0 then c else chain_head cs"
    have b: "built data s0 ?s (cs @ [c])" using built_step [OF Suc.prems(2) 2(1)] .
    have v: "valid_cluster (dev s) c" using 2(1) by (simp add: free_clusters_def)
    have l: "cs \<noteq> [] \<Longrightarrow> fat_cell (last cs)"
      using Suc.prems(2) chain_ok_cells [OF _ last_in_set] by (auto simp: built_def)
    have first: "?first = chain_head (cs @ [c])" "chain_end (cs @ [c]) = Some c"
      by (auto simp: chain_head_def chain_end_def split: list.splits)
    have link: "(case chain_end cs of None \<Rightarrow> ret () | Some prev \<Rightarrow> write_fat_entry_unlocked prev c)
        (s\<lparr>disk := fat_put c FAT_ENTRY_EOC (disk s)\<rparr>) = (Inr (), s\<lparr>disk :=
          (if cs = [] then id else fat_put (last cs) c) (fat_put c FAT_ENTRY_EOC (disk s))\<rparr>)"
      using l Suc.prems(1) by (auto simp: chain_end_def write_fat_ok)
    have step: "create_loop data [length cs..<length cs + Suc n] (chain_end cs) (chain_head cs) s
        = create_loop data [length (cs @ [c])..<length (cs @ [c]) + n] (chain_end (cs @ [c]))
            (chain_head (cs @ [c])) ?s"
      unfolding upt [of c] create_loop.simps
      using 2(2) link v Suc.prems(1) first by (simp add: bind_def Let_def write_cluster_ok extended_def)
    have dv: "dev_ok (dev ?s)" using Suc.prems(1) by (simp add: extended_def)
    have len: "length (cs @ [c]) + n = length cs + Suc n" by simp
    show ?thesis using Suc.IH [OF dv b] unfolding step len .
  qed
qed


section \<open>Reading a file back\<close>

declare read_file_loop.simps [simp del]

lemma chain_ok_Cons:
  "chain_ok dv d c (x # xs) \<Longrightarrow> x = c \<and> is_data_cluster c \<and> valid_cluster dv c \<and> chain_ok dv d (fat_of c d) xs"
  by (auto simp: chain_ok_def)

lemma take_blit: "p + length ys \<le> length xs \<Longrightarrow> take (p + length ys) (blit p ys xs) = take p xs @ ys"
  by (simp add: blit_def)

lemma read_file_loop_ok:
  assumes "dev_ok (dev s)" "chain_ok (dev s) (disk s) current cs"
    and "written \<le> sz" "sz - written \<le> 4096 * length cs" "length result = sz"
  shows "read_file_loop sz current written result s =
     (Inr (take written result @ take (sz - written) (concat (map (\<lambda>c. cluster_of c (disk s)) cs))), s)"
  using assms
proof (induction cs arbitrary: current written result)
  case Nil
  then show ?case by (subst read_file_loop.simps) simp
next
  case (Cons x xs)
  note c = chain_ok_Cons [OF Cons.prems(2)]
  show ?case
  proof (cases "written < sz")
    case False
    then show ?thesis using Cons.prems by (subst read_file_loop.simps) simp
  next
    case True
    let ?n = "min (sz - written) 4096" and ?buf = "cluster_of current (disk s)"
    have guard: "current \<ge> 2 \<and> current < FAT_ENTRY_RESERVED \<and> written < sz"
      using c True by (simp add: is_data_cluster_def)
    have fc: "fat_cell current" using c by auto
    let ?r = "blit written (take ?n ?buf) result"
    have r: "length ?r = sz" "take (written + ?n) ?r = take written result @ take ?n ?buf"
      using Cons.prems(5) True take_blit [of written "take ?n ?buf" result] by (auto simp: blit_def)
    have "read_file_loop sz current written result s
        = read_file_loop sz (fat_of current (disk s)) (written + ?n) ?r s"
      using guard Cons.prems(1) c fc
      by (subst read_file_loop.simps) (simp add: Let_def bind_def read_cluster_ok read_fat_ok)
    also have "\<dots> = (Inr (take (written + ?n) ?r @ take (sz - (written + ?n))
        (concat (map (\<lambda>c. cluster_of c (disk s)) xs))), s)"
      using Cons.prems(1,3,4) c r True by (intro Cons.IH) auto
    finally show ?thesis using r(2) c by (cases "sz - written \<le> 4096") auto
  qed
qed

lemma content_of_used:
  "used d i \<Longrightarrow> content_of d (dir_of i d) = take (unat (de_size (dir_of i d)))
     (concat (map (\<lambda>c. cluster_of c d) (slot_chain d i)))"
  by (simp add: content_of_def slot_chain_def)

lemma read_file_run:
  assumes wf: "wf_fs s" and name: "name \<noteq> []" "length name \<le> 21"
  shows "read_file_unlocked name s =
    (case fs_view (disk s) name of None \<Rightarrow> (Inl FileNotFound, s) | Some bs \<Rightarrow> (Inr bs, s))"
proof (cases "lookup name (disk s)")
  case None
  then show ?thesis using wf_fsD(1) [OF wf] name
    by (simp add: read_file_unlocked_def bind_def find_file_ok fs_view_def ok_or_def)
next
  case (Some i)
  let ?e = "dir_of i (disk s)"
  have u: "used (disk s) i" using lookup_used [OF Some] by simp
  have "(let sz = unat (de_size ?e) in if sz = 0 then ret []
      else read_file_loop sz (first_cluster ?e) 0 (replicate sz 0)) s = (Inr (content_of (disk s) ?e), s)"
    using read_file_loop_ok [OF wf_fsD(1) [OF wf] wf_slot(1) [OF wf u], of 0 "unat (de_size ?e)"]
      wf_slot(2) [OF wf u] by (simp add: Let_def content_of_used [OF u])
  then show ?thesis using wf_fsD(1) [OF wf] name Some
    by (simp add: read_file_unlocked_def bind_def find_file_ok fs_view_def ok_or_def)
qed

section \<open>Deleting and creating\<close>

lemma delete_file_run:
  assumes wf: "wf_fs s" and name: "name \<noteq> []" "length name \<le> 21"
  shows "delete_file_unlocked name s =
    (case lookup name (disk s) of None \<Rightarrow> (Inl FileNotFound, s) | Some i \<Rightarrow> (Inr (), removed i s))"
proof (cases "lookup name (disk s)")
  case None
  then show ?thesis using wf_fsD(1) [OF wf] name
    by (simp add: delete_file_unlocked_def bind_def find_file_ok ok_or_def)
next
  case (Some i)
  have u: "used (disk s) i" using lookup_used [OF Some] by simp
  show ?thesis using wf_fsD(1) [OF wf] name Some remove_entry_ok [OF wf u]
    by (simp add: delete_file_unlocked_def bind_def find_file_ok ok_or_def)
qed

text \<open>The volume after \<^verbatim>\<open>create_file\<close> has dropped a previous file of the name.\<close>

definition cleared :: "bytes \<Rightarrow> fs_state \<Rightarrow> fs_state" where
  "cleared name s = (case lookup name (disk s) of None \<Rightarrow> s | Some i \<Rightarrow> removed i s)"

lemma cleared_view:
  assumes "wf_fs s"
  shows "wf_fs (cleared name s)" "fs_view (disk (cleared name s)) = (fs_view (disk s))(name := None)"
proof -
  have n: "fs_view (disk s) name = None" if "lookup name (disk s) = None"
    using that by (simp add: fs_view_def)
  show "wf_fs (cleared name s)" using assms removed_view(1) lookup_used
    by (auto simp: cleared_def split: option.split)
  show "fs_view (disk (cleared name s)) = (fs_view (disk s))(name := None)"
    using assms removed_view(2) lookup_used n by (fastforce simp: cleared_def split: option.split)
qed

definition clusters_needed :: "bytes \<Rightarrow> nat" where
  "clusters_needed data = (length data + 4095) div 4096"

definition free_slot :: "store \<Rightarrow> nat option" where
  "free_slot d = find (\<lambda>i. in_use (dir_of i d) = 0) [0..<256]"

lemma free_slot_Some: "free_slot d = Some i \<Longrightarrow> i < 256 \<and> in_use (dir_of i d) = 0 \<and> \<not> used d i"
  by (auto simp: free_slot_def find_Some_iff used_def)

lemma clusters_needed_le: "length data \<le> 4096 * clusters_needed data"
proof -
  let ?m = "length data + 4095"
  have "?m = ?m div 4096 * 4096 + ?m mod 4096" by (rule div_mult_mod_eq [symmetric])
  moreover have "?m mod 4096 < 4096" by simp
  ultimately show ?thesis unfolding clusters_needed_def by linarith
qed

lemma chunks_concat:
  "length data \<le> 4096 * n \<Longrightarrow> take (length data) (concat (map (chunk_buf data) [0..<n])) = data"
proof (induction n arbitrary: data)
  case 0
  then show ?case by simp
next
  case (Suc n)
  have shift: "chunk_buf data (Suc i) = chunk_buf (drop 4096 data) i" for i
    by (simp add: chunk_buf_def Let_def slice_of_def min_def add.commute)
  have upt: "map (chunk_buf data) [0..<Suc n] = chunk_buf data 0 # map (chunk_buf (drop 4096 data)) [0..<n]"
  proof -
    have "[0..<Suc n] = 0 # map Suc [0..<n]" by (simp only: map_Suc_upt upt_conv_Cons zero_less_Suc)
    then show ?thesis by (simp add: shift comp_def del: upt_Suc)
  qed
  have c0: "chunk_buf data 0 = take 4096 data @ replicate (4096 - length data) 0"
    by (simp add: chunk_buf_def Let_def slice_of_def blit_def min_def)
  show ?case
  proof (cases "length data \<le> 4096")
    case True
    then show ?thesis unfolding upt by (simp add: c0)
  next
    case False
    then show ?thesis unfolding upt using Suc.IH [of "drop 4096 data"] Suc.prems by (simp add: c0)
  qed
qed


lemma new_entry_simps [simp]:
  "in_use (new_entry name c n) = 1" "first_cluster (new_entry name c n) = c"
  "de_size (new_entry name c n) = n"
  by (simp_all add: new_entry_def)

lemma new_entry_fits: "length name \<le> 21 \<Longrightarrow> entry_fits (new_entry name c n)"
  by (simp add: new_entry_def entry_fits_def)

lemma new_entry_name: "0 \<notin> set name \<Longrightarrow> length name \<le> 21 \<Longrightarrow> stored_name (new_entry name c n) = name"
  by (rule stored_name_blit) (simp_all add: new_entry_def)

lemma built_props:
  assumes "built data s0 s cs"
  shows "grown s0 [] s cs" "chain_ok (dev s) (disk s) (chain_head cs) cs"
    "free_clusters s = free_clusters s0 - set cs" "card (set cs) = length cs" "set cs \<subseteq> free_clusters s0"
    "dev s = dev s0" "SLOT_GENERATIONS s = SLOT_GENERATIONS s0"
  using assms grown_free_clusters [of s0 "[]" s cs "chain_head cs"]
  by (auto simp: built_def chain_ok_def distinct_card grown_def)

lemma finite_free_clusters [simp]: "finite (free_clusters s)"
  by (rule finite)

text \<open>The loop over all clusters of the data, from a state with no chain yet.\<close>

lemma create_chain_run:
  assumes "dev_ok (dev s)"
  obtains (ok) s' cs where
      "(if data = [] then ret 0 else create_loop data
          [0..<(length data + CLUSTER_BYTES - 1) div CLUSTER_BYTES] None 0) s = (Inr (chain_head cs), s')"
      "built data s s' cs" "length cs = clusters_needed data"
      "clusters_needed data \<le> card (free_clusters s)"
  | (full) s' cs where
      "(if data = [] then ret 0 else create_loop data
          [0..<(length data + CLUSTER_BYTES - 1) div CLUSTER_BYTES] None 0) s = (Inl NoSpace, s')"
      "built data s s' cs" "free_clusters s' = {}" "card (free_clusters s) < clusters_needed data"
proof (cases "data = []")
  case True
  then show ?thesis using ok [of "[]" s] built_Nil [of data s]
    by (simp add: chain_head_def clusters_needed_def)
next
  case False
  obtain r s' cs where run: "create_loop data [0..<clusters_needed data] None 0 s = (r, s')"
    and b: "built data s s' cs"
    and r: "case r of Inr f \<Rightarrow> f = chain_head cs \<and> length cs = clusters_needed data
              | Inl e \<Rightarrow> e = NoSpace \<and> free_clusters s' = {} \<and> length cs < clusters_needed data"
    using create_loop_run [OF assms built_Nil, of data "clusters_needed data", unfolded list.size(3) add_0]
    by (auto simp: chain_head_def chain_end_def)
  have n: "(length data + CLUSTER_BYTES - 1) div CLUSTER_BYTES = clusters_needed data"
    by (simp add: clusters_needed_def)
  note p = built_props [OF b]
  have le: "length cs \<le> card (free_clusters s)" using card_mono [OF _ p(5)] p(4) by simp
  show ?thesis
  proof (cases r)
    case (Inr f)
    then show ?thesis using ok [of cs s'] run b r le False n by simp
  next
    case (Inl e)
    then have "free_clusters s \<subseteq> set cs" using r p(3) by auto
    then have "card (free_clusters s) \<le> length cs" using card_mono [of "set cs"] p(4) by simp
    then show ?thesis using full [of s' cs] run b r Inl False n by simp
  qed
qed

lemma create_file_unfold:
  assumes wf: "wf_fs s" and name: "name \<noteq> []" "length name \<le> 21"
  shows "create_file_unlocked name data s =
     (case free_slot (disk (cleared name s)) of None \<Rightarrow> (Inl NoSpace, cleared name s)
      | Some i \<Rightarrow> bind (if data = [] then ret 0 else create_loop data
          [0..<(length data + CLUSTER_BYTES - 1) div CLUSTER_BYTES] None 0)
          (\<lambda>first. write_dir_entry_unlocked i (new_entry name first (of_nat (length data))))
          (cleared name s))"
proof -
  have clr: "(case map_option (\<lambda>i. (i, dir_of i (disk s))) (lookup name (disk s)) of
        None \<Rightarrow> ret () | Some (idx, old) \<Rightarrow> remove_entry idx old) s = (Inr (), cleared name s)"
    using remove_entry_ok [OF wf] lookup_used by (auto simp: cleared_def split: option.split)
  show ?thesis unfolding create_file_unlocked_def
    using name wf_fsD(1,2) [OF wf] wf_fsD(1) [OF cleared_view(1) [OF wf, of name]] clr
    by (auto simp: bind_def read_boot_ok find_file_ok find_free_slot_ok ok_or_def
        free_slot_def [symmetric] split: option.splits prod.splits sum.splits)
qed

lemma cleared_free_slot:
  assumes "wf_fs s"
  shows "free_slot (disk (cleared name s)) \<noteq> None \<longleftrightarrow>
           lookup name (disk s) \<noteq> None \<or> free_slot (disk s) \<noteq> None"
proof (cases "lookup name (disk s)")
  case (Some i)
  have u: "used (disk s) i" using lookup_used [OF Some] by simp
  have c: "\<forall>x\<in>set (slot_chain (disk s) i). fat_cell x" using wf_chain_used(1) [OF assms u] by auto
  have "i < 256" using u by (simp add: used_def)
  moreover have "in_use (dir_of i (disk (cleared name s))) = 0"
    using \<open>i < 256\<close> c Some by (simp add: cleared_def removed_def)
  ultimately show ?thesis using Some by (auto simp: free_slot_def find_None_iff)
qed (simp add: cleared_def)

definition old_chain :: "bytes \<Rightarrow> store \<Rightarrow> u16 list" where
  "old_chain name d = (case lookup name d of None \<Rightarrow> [] | Some i \<Rightarrow> slot_chain d i)"

lemma cleared_free_clusters:
  assumes "wf_fs s"
  shows "free_clusters (cleared name s) = free_clusters s \<union> set (old_chain name (disk s))"
    and "card (free_clusters (cleared name s)) = card (free_clusters s) + length (old_chain name (disk s))"
proof -
  show f: "free_clusters (cleared name s) = free_clusters s \<union> set (old_chain name (disk s))"
    using removed_view(3) [OF assms] lookup_used
    by (auto simp: cleared_def old_chain_def split: option.splits)
  have "free_clusters s \<inter> set (old_chain name (disk s)) = {}"
  proof (cases "lookup name (disk s)")
    case (Some i)
    then show ?thesis using wf_chain_used(2) [OF assms conjunct1 [OF lookup_used [OF Some]]]
      by (auto simp: old_chain_def)
  qed (simp add: old_chain_def)
  moreover have "distinct (old_chain name (disk s))"
    using wf_slot(1) [OF assms] lookup_used
    by (fastforce simp: old_chain_def chain_ok_def split: option.splits)
  ultimately show "card (free_clusters (cleared name s)) = card (free_clusters s) + length (old_chain name (disk s))"
    by (simp add: f card_Un_disjoint distinct_card)
qed

lemma create_file_cases:
  assumes wf: "wf_fs s" and name: "name \<noteq> []" "length name \<le> 21" "0 \<notin> set name"
  obtains (ok) s' where "create_file_unlocked name data s = (Inr (), s')" "wf_fs s'"
      "fs_view (disk s') = (fs_view (disk s))(name \<mapsto> data)"
      "SLOT_GENERATIONS s' = SLOT_GENERATIONS (cleared name s)"
      "free_slot (disk (cleared name s)) \<noteq> None"
      "clusters_needed data \<le> card (free_clusters (cleared name s))"
  | (full) s' where "create_file_unlocked name data s = (Inl NoSpace, s')" "wf_fs s'"
      "fs_view (disk s') = (fs_view (disk s))(name := None)"
      "free_slot (disk (cleared name s)) \<noteq> None" "free_clusters s' = {}"
      "card (free_clusters (cleared name s)) < clusters_needed data"
  | (no_slot) "create_file_unlocked name data s = (Inl NoSpace, cleared name s)"
      "free_slot (disk (cleared name s)) = None"
proof (cases "free_slot (disk (cleared name s))")
  case None
  then show ?thesis using no_slot create_file_unfold [OF wf name(1,2)] by simp
next
  case (Some i)
  let ?s = "cleared name s"
  note C = cleared_view [OF wf, of name]
  have i: "i < 256" "\<not> used (disk ?s) i" using free_slot_Some [OF Some] by auto
  show ?thesis
  proof (cases rule: create_chain_run [OF wf_fsD(1) [OF C(1)], of data])
    case (2 s' cs)
    note g = built_props(1) [OF 2(2)]
    show ?thesis using full [of s'] abandon_slot [OF C(1) i g] 2 Some C(2)
        create_file_unfold [OF wf name(1,2), of data] by (simp add: bind_def)
  next
    case (1 s' cs)
    note p = built_props [OF 1(2)]
    let ?e = "new_entry name (chain_head cs) (of_nat (length data))"
    have "length cs \<le> 65536" using p(2) by (auto simp: chain_ok_def intro: distinct_u16_length)
    then have len: "length data \<le> 4096 * length cs" "length data < 2 ^ 32"
      using clusters_needed_le [of data] 1(3) by auto
    then have sz: "unat (of_nat (length data) :: u32) = length data" by (intro unat_of_nat_small) simp
    have fits: "entry_fits ?e" and nm: "stored_name ?e = name"
      using name by (auto intro: new_entry_fits new_entry_name)
    have other: "stored_name (dir_of j (disk ?s)) \<noteq> name" if "used (disk ?s) j" for j
      using fun_cong [OF C(2), of name] used_lookup [OF wf_fsD(4) [OF C(1)] that]
      by (auto simp: fs_view_def)
    have base: "base_chain (disk ?s) i = []" using i by (simp add: base_chain_def)
    have g: "grown ?s (base_chain (disk ?s) i) s' cs" using p(1) base by simp
    have ok': "chain_ok (dev s') (disk s') (first_cluster ?e) cs"
      "unat (de_size ?e) \<le> 4096 * length cs" using p(2) sz len by auto
    note K = commit_slot [OF C(1) i(1) g ok'(1) fits new_entry_simps(1) ok'(2), unfolded nm, OF other]
    have cont: "concat (map (\<lambda>c. cluster_of c (disk s')) cs) = concat (map (chunk_buf data) [0..<length cs])"
      using 1(2) by (simp add: built_def)
    have "fs_view (dir_put i ?e (disk s')) = (fs_view (disk s))(name \<mapsto> data)"
      using K(2) sz i(2) chunks_concat [OF len(1)] C(2) cont by (intro ext) simp
    moreover have "create_file_unlocked name data s = (Inr (), s'\<lparr>disk := dir_put i ?e (disk s')\<rparr>)"
      using create_file_unfold [OF wf name(1,2), of data] 1(1) Some i(1) fits wf_fsD(1) [OF C(1)] p(6)
      by (simp add: bind_def write_dir_ok retired_def)
    ultimately show ?thesis
      using ok [of "s'\<lparr>disk := dir_put i ?e (disk s')\<rparr>"] K(1) p(7) 1(4) Some by simp
  qed
qed

section \<open>Formatting\<close>

lemma BootSector_read_bytes [codec]:
  "length (padding b) = 474 \<Longrightarrow> BootSector_read (BootSector_bytes b) = b"
  by (simp add: BootSector_read_def BootSector_bytes_def)

lemma length_BootSector_bytes [simp]: "length (padding b) = 474 \<Longrightarrow> length (BootSector_bytes b) = 512"
  by (simp add: BootSector_bytes_def)

lemma put_put_append: "put (a + length xs) ys (put a xs d) = put a (xs @ ys) d"
  by (rule ext) (auto simp: put_def nth_append)

lemma load_put_inside:
  "p + n \<le> length bs \<Longrightarrow> load (a + p) n (put a bs d) = slice_of p (p + n) bs"
  by (rule nth_equalityI) (auto simp: nth_load nth_slice put_def)

lemma zero_blocks_ok:
  assumes "dev_ok (dev s)" "unat base + k + n \<le> 16384"
  shows "zero_blocks base [k..<k + n] s =
     (Inr (), s\<lparr>disk := put ((unat base + k) * 512) (replicate (512 * n) 0) (disk s)\<rparr>)"
  using assms
proof (induction n arbitrary: k s)
  case 0
  have "put a [] d = d" for a d by (rule ext) (auto simp: put_def)
  then show ?case by simp
next
  case (Suc n)
  let ?s = "s\<lparr>disk := put ((unat base + k) * 512) (replicate 512 0) (disk s)\<rparr>"
  have lba: "unat (base + of_nat k) = unat base + k"
    using Suc.prems(2) by (simp add: unat_word_ariths unat_of_nat)
  have "unat base + k < 16384" using Suc.prems(2) by simp
  then have w: "write_block_unlocked (base + of_nat k) (replicate BLOCK_SIZE 0) s = (Inr (), ?s)"
    using Suc.prems(1) lba by (simp add: write_block_ok)
  have "[k..<k + Suc n] = k # [Suc k..<Suc k + n]" by (simp add: upt_conv_Cons)
  then have "zero_blocks base [k..<k + Suc n] s = zero_blocks base [Suc k..<Suc k + n] ?s"
    using w by (simp add: bind_def del: upt_Suc)
  also have "\<dots> = (Inr (), ?s\<lparr>disk := put ((unat base + Suc k) * 512) (replicate (512 * n) 0) (disk ?s)\<rparr>)"
    using Suc.prems by (intro Suc.IH) auto
  also have "put ((unat base + Suc k) * 512) (replicate (512 * n) 0) (disk ?s)
      = put ((unat base + k) * 512) (replicate (512 * Suc n) 0) (disk s)"
    using put_put_append [of "(unat base + k) * 512" "replicate 512 0" "replicate (512 * n) 0" "disk s"]
    by (simp add: replicate_add [symmetric] algebra_simps)
  finally show ?case by simp
qed

lemma retire_slots_ok:
  "retire_slots is s = (Inr (), s\<lparr>SLOT_GENERATIONS := fold (\<lambda>i g. g[i := g ! i + 1]) is (SLOT_GENERATIONS s)\<rparr>)"
  by (induction "is" arbitrary: s) (auto simp: bind_def retire_slot_unlocked_def)

lemma fold_update_all:
  "n \<le> length g \<Longrightarrow> fold (\<lambda>i g. g[i := f (g ! i)]) [0..<n] g = map f (take n g) @ drop n g"
proof (induction n)
  case (Suc n)
  then have "n < length g" by simp
  then show ?case using Suc
    by (simp add: take_Suc_conv_app_nth nth_append list_update_append flip: Cons_nth_drop_Suc)
qed simp

definition formatted_disk :: "device \<Rightarrow> store \<Rightarrow> store" where
  "formatted_disk dv d = put 33280 (replicate 8192 0)
     (fat_put 1 FAT_ENTRY_EOC (fat_put 0 0xFFF8
       (put 512 (replicate 32768 0) (put 0 (BootSector_bytes (boot_record dv)) d))))"

lemma length_boot_padding [simp]: "length (padding (boot_record dv)) = 474"
  by (simp add: boot_record_def)

lemma format_run:
  assumes "dev_ok (dev s)" "length (SLOT_GENERATIONS s) = 256"
  shows "format_unlocked s = (Inr (), s\<lparr>disk := formatted_disk (dev s) (disk s),
           SLOT_GENERATIONS := map (\<lambda>g. g + 1) (SLOT_GENERATIONS s)\<rparr>)"
proof -
  have boot: "write_boot_sector_unlocked (boot_record (dev s)) s =
      (Inr (), s\<lparr>disk := put 0 (BootSector_bytes (boot_record (dev s))) (disk s)\<rparr>)"
    using assms(1) by (simp add: write_boot_sector_unlocked_def bind_def write_block_ok)
  have z1: "zero_blocks FAT_START_LBA [0..<FAT_SECTORS] t =
      (Inr (), t\<lparr>disk := put 512 (replicate 32768 0) (disk t)\<rparr>)" if "dev t = dev s" for t
    using zero_blocks_ok [of t FAT_START_LBA 0 64] that assms(1) by (simp del: upt_Suc)
  have z2: "zero_blocks ROOT_DIR_START_LBA [0..<ROOT_DIR_SECTORS] t =
      (Inr (), t\<lparr>disk := put 33280 (replicate 8192 0) (disk t)\<rparr>)" if "dev t = dev s" for t
    using zero_blocks_ok [of t ROOT_DIR_START_LBA 0 16] that assms(1) by (simp del: upt_Suc)
  have gens: "fold (\<lambda>i g. g[i := g ! i + 1]) [0..<256] (SLOT_GENERATIONS s) = map (\<lambda>g. g + 1) (SLOT_GENERATIONS s)"
    using fold_update_all [of 256 "SLOT_GENERATIONS s" "\<lambda>g. g + 1"] assms(2) by simp
  have cells: "fat_cell 0" "fat_cell 1" by (simp_all add: fat_cell_def)
  show ?thesis
    unfolding format_unlocked_def
    by (simp add: bind_def assms(1) boot z1 z2 write_fat_ok cells retire_slots_ok gens formatted_disk_def
        del: upt_Suc)
qed

lemma formatted_disk_props:
  shows "formatted (formatted_disk dv d)"
    and "\<And>i. i < 256 \<Longrightarrow> in_use (dir_of i (formatted_disk dv d)) = 0"
    and "\<And>c. fat_cell c \<Longrightarrow> 2 \<le> c \<Longrightarrow> fat_of c (formatted_disk dv d) = FAT_ENTRY_FREE"
    and "BootSector_read (load 0 512 (formatted_disk dv d)) = boot_record dv"
proof -
  show boot: "BootSector_read (load 0 512 (formatted_disk dv d)) = boot_record dv"
    by (simp add: formatted_disk_def load_put_other fat_put_def BootSector_read_bytes)
  then show "formatted (formatted_disk dv d)" by (simp add: formatted_def boot_record_def)
  show "in_use (dir_of i (formatted_disk dv d)) = 0" if "i < 256" for i
  proof -
    have "load (33280 + 32 * i) 32 (formatted_disk dv d) = slice_of (32 * i) (32 * i + 32) (replicate 8192 0)"
      unfolding formatted_disk_def by (rule load_put_inside) (use that in simp)
    then show ?thesis using that by (simp add: dir_of_def FatDirEntry_read_def slice_of_def)
  qed
  show "fat_of c (formatted_disk dv d) = FAT_ENTRY_FREE" if c: "fat_cell c" "2 \<le> c" for c
  proof -
    have ne: "0 \<noteq> c" "1 \<noteq> c" using c(2) by (auto simp: word_le_nat_alt)
    have cells: "fat_cell 0" "fat_cell 1" by (simp_all add: fat_cell_def)
    let ?z = "put 512 (replicate 32768 0) (put 0 (BootSector_bytes (boot_record dv)) d)"
    have "fat_of c (formatted_disk dv d) = fat_of c (fat_put 1 FAT_ENTRY_EOC (fat_put 0 0xFFF8 ?z))"
      unfolding fat_of_def formatted_disk_def using c by (subst load_put_other) (auto simp: fat_cell_def)
    also have "\<dots> = fat_of c ?z" using ne c cells by simp
    also have "\<dots> = from_le (slice_of (2 * unat c) (2 * unat c + 2) (replicate 32768 0))"
      unfolding fat_of_def by (subst load_put_inside) (use c in \<open>auto simp: fat_cell_def\<close>)
    also have "\<dots> = 0" using c by (simp add: slice_of_def fat_cell_def from_le.simps numeral_2_eq_2)
    finally show ?thesis by simp
  qed
qed

end
