(* ===== verification/Fs_Offset.thy ===== *)
theory Fs_Offset
  imports Fs_Correct
begin

text \<open>
  Handles and offset-based access of \<^verbatim>\<open>src/src/fs.rs\<close>: \<^verbatim>\<open>read_at\<close> returns a window of
  the contents, \<^verbatim>\<open>write_at\<close> overlays them (zero-filling a gap and stopping early when
  the volume is full), \<^verbatim>\<open>open_file\<close> creates, truncates or finds.
\<close>

section \<open>Handles\<close>

definition valid_handle :: "fs_state \<Rightarrow> FileId \<Rightarrow> bool" where
  "valid_handle s fid \<longleftrightarrow> used (disk s) (fid_slot fid)
     \<and> fid_generation fid = SLOT_GENERATIONS s ! fid_slot fid"

lemma open_entry_ok:
  assumes "dev_ok (dev s)" "valid_handle s fid"
  shows "open_entry_unlocked fid s = (Inr (dir_of (fid_slot fid) (disk s)), s)"
  using assms by (cases fid)
    (simp add: open_entry_unlocked_def file_id_unlocked_def bind_def valid_handle_def used_def read_dir_ok)

lemma open_entry_stale:
  assumes "fid_generation fid \<noteq> SLOT_GENERATIONS s ! fid_slot fid"
  shows "open_entry_unlocked fid s = (Inl FileNotFound, s)"
  using assms by (cases fid) (auto simp: open_entry_unlocked_def file_id_unlocked_def bind_def)

section \<open>The bytes of a chain\<close>

definition flat :: "store \<Rightarrow> u16 list \<Rightarrow> bytes" where
  "flat d cs = concat (map (\<lambda>c. cluster_of c d) cs)"

lemma length_flat [simp]: "length (flat d cs) = 4096 * length cs"
  by (simp add: flat_def)

lemma flat_Cons: "flat d (c # cs) = cluster_of c d @ flat d cs"
  by (simp add: flat_def)

lemma flat_drop: "k \<le> length cs \<Longrightarrow> flat d (drop k cs) = drop (4096 * k) (flat d cs)"
proof (induction k arbitrary: cs)
  case (Suc k)
  then obtain c cs' where "cs = c # cs'" by (cases cs) auto
  with Suc show ?case by (simp add: flat_Cons)
qed (simp add: flat_def)

lemma flat_nth:
  "j < length cs \<Longrightarrow> q < 4096 \<Longrightarrow> flat d cs ! (4096 * j + q) = cluster_of (cs ! j) d ! q"
proof (induction j arbitrary: cs)
  case 0
  then obtain c cs' where "cs = c # cs'" by (cases cs) auto
  with 0 show ?case by (simp add: flat_Cons nth_append)
next
  case (Suc j)
  then obtain c cs' where "cs = c # cs'" by (cases cs) auto
  with Suc show ?case by (simp add: flat_Cons nth_append)
qed

section \<open>Reading at an offset\<close>

declare read_at_loop.simps [simp del]

lemma read_at_loop_ok:
  assumes "dev_ok (dev s)" "chain_ok (dev s) (disk s) cluster cs"
    and "got \<le> len" "within < 4096" "len - got + within \<le> 4096 * length cs \<or> got = len" "length buf = len"
  shows "read_at_loop len cluster within got buf s =
     (Inr (take got buf @ take (len - got) (drop within (flat (disk s) cs))), s)"
  using assms
proof (induction cs arbitrary: cluster within got buf)
  case Nil
  then show ?case by (subst read_at_loop.simps) auto
next
  case (Cons x xs)
  note c = chain_ok_Cons [OF Cons.prems(2)]
  show ?case
  proof (cases "got < len")
    case False
    then show ?thesis using Cons.prems by (subst read_at_loop.simps) simp
  next
    case True
    let ?b = "cluster_of cluster (disk s)" and ?n = "min (4096 - within) (len - got)"
    let ?buf = "blit got (slice_of within (within + ?n) ?b) buf"
    have fc: "fat_cell cluster" using c by auto
    have len: "length (slice_of within (within + ?n) ?b) = ?n" by simp
    have buf: "length ?buf = len" "take (got + ?n) ?buf = take got buf @ slice_of within (within + ?n) ?b"
      using Cons.prems(6) True take_blit [of got "slice_of within (within + ?n) ?b" buf, unfolded len]
      by (auto simp: blit_def)
    have step: "read_at_loop len cluster within got buf s = read_at_loop len
        (if got + ?n < len then fat_of cluster (disk s) else cluster) 0 (got + ?n) ?buf s"
      using c True Cons.prems(1) fc
      by (subst read_at_loop.simps) (simp add: Let_def bind_def read_cluster_ok read_fat_ok)
    show ?thesis
    proof (cases "got + ?n < len")
      case more: True
      then have n: "?n = 4096 - within" by simp
      have "read_at_loop len (fat_of cluster (disk s)) 0 (got + ?n) ?buf s
          = (Inr (take (got + ?n) ?buf @ take (len - (got + ?n)) (drop 0 (flat (disk s) xs))), s)"
        using Cons.prems(1,4,5) c buf more n by (intro Cons.IH) auto
      then show ?thesis using step more buf(2) c Cons.prems(4) n
        by (simp add: flat_Cons slice_of_def)
    next
      case False
      then have n: "?n = len - got" "len - got \<le> 4096 - within" using True by auto
      have "read_at_loop len cluster 0 (got + ?n) ?buf s = (Inr ?buf, s)"
        by (subst read_at_loop.simps) (simp only: False if_False ret_run)
      moreover have "?buf = take (got + ?n) ?buf" using buf(1) False by simp
      ultimately show ?thesis using step False buf(2) c Cons.prems(4) n
        by (simp add: flat_Cons slice_of_def)
    qed
  qed
qed

lemma read_at_run:
  assumes wf: "wf_fs s" and h: "valid_handle s fid"
  shows "read_at_unlocked fid offset buf_len s =
    (Inr (take buf_len (drop offset (content_of (disk s) (dir_of (fid_slot fid) (disk s))))), s)"
proof -
  let ?i = "fid_slot fid" and ?e = "dir_of (fid_slot fid) (disk s)"
  let ?cs = "slot_chain (disk s) ?i" and ?sz = "unat (de_size ?e)"
  have u: "used (disk s) ?i" using h by (simp add: valid_handle_def)
  note ok = wf_slot(1) [OF wf u] and sz = wf_slot(2) [OF wf u] and dv = wf_fsD(1) [OF wf]
  have content: "content_of (disk s) ?e = take ?sz (flat (disk s) ?cs)"
    by (simp add: content_of_used [OF u] flat_def)
  show ?thesis
  proof (cases "offset \<ge> ?sz \<or> buf_len = 0")
    case True
    then show ?thesis unfolding content
      by (auto simp: read_at_unlocked_def bind_def open_entry_ok [OF dv h] Let_def)
  next
    case False
    let ?k = "offset div 4096" and ?w = "offset mod 4096" and ?len = "min buf_len (?sz - offset)"
    have off: "4096 * ?k + ?w = offset" by simp
    have "4096 * ?k < 4096 * length ?cs" using False sz off by linarith
    then have k: "?k < length ?cs" by simp
    have ch: "is_chain (disk s) (first_cluster ?e) ?cs" "\<forall>x\<in>set ?cs. fat_cell x"
      using ok by (auto simp: chain_ok_def)
    obtain x where w: "walk_loop ?k 0 (first_cluster ?e) s = (Inr (last (0 # take ?k ?cs), x), s)"
      and x: "is_chain (disk s) x (drop ?k ?cs)"
      using walk_loop_chain [OF dv ch(1,2), of ?k 0] k by auto
    have okx: "chain_ok (dev s) (disk s) x (drop ?k ?cs)"
      using x ok by (auto simp: chain_ok_def dest: in_set_dropD)
    have "?len \<le> ?sz - offset" by (rule min.cobounded2)
    then have "?len + ?w \<le> 4096 * length ?cs - 4096 * ?k" using sz off False by linarith
    then have bound: "?len - 0 + ?w \<le> 4096 * length (drop ?k ?cs)" by (simp add: diff_mult_distrib2)
    have "read_at_loop ?len x ?w 0 (replicate ?len 0) s =
        (Inr (take 0 (replicate ?len 0) @ take (?len - 0) (drop ?w (flat (disk s) (drop ?k ?cs)))), s)"
      by (rule read_at_loop_ok [OF dv okx]) (use bound in auto)
    also have "drop ?w (flat (disk s) (drop ?k ?cs)) = drop offset (flat (disk s) ?cs)"
      using k off by (simp add: flat_drop add.commute)
    finally show ?thesis using w False unfolding content
      by (simp add: read_at_unlocked_def bind_def open_entry_ok [OF dv h] Let_def
          walk_chain_unlocked_def drop_take take_take)
  qed
qed

section \<open>Writing at an offset\<close>

declare write_at_loop.simps [simp del]

text \<open>Byte \<open>p\<close> of the file once all of \<open>data\<close> is written over \<open>old\<close> (of which \<open>sz\<close> bytes count).\<close>

definition newbyte :: "nat \<Rightarrow> nat \<Rightarrow> bytes \<Rightarrow> bytes \<Rightarrow> nat \<Rightarrow> u8" where
  "newbyte sz off data old p =
     (if off \<le> p \<and> p < off + length data then data ! (p - off) else if p < sz then old ! p else 0)"

text \<open>Copying into the window \<open>lo..hi\<close> of the cluster that starts at \<open>st\<close>.\<close>

lemma window_blit:
  assumes "length b = 4096" "st \<le> lo" "lo < hi" "hi \<le> st + 4096" "length ys = hi - lo"
  shows "length (blit (lo - st) ys b) = 4096"
    and "q < 4096 \<Longrightarrow> blit (lo - st) ys b ! q =
          (if lo \<le> st + q \<and> st + q < hi then ys ! (st + q - lo) else b ! q)"
proof -
  have le: "lo - st + length ys \<le> length b" using assms by linarith
  then show "length (blit (lo - st) ys b) = 4096" using assms(1) by simp
  assume q: "q < 4096"
  have "lo - st \<le> q \<and> q < lo - st + length ys \<longleftrightarrow> lo \<le> st + q \<and> st + q < hi"
    using assms by linarith
  moreover have "q - (lo - st) = st + q - lo" using assms by linarith
  ultimately show "blit (lo - st) ys b ! q =
      (if lo \<le> st + q \<and> st + q < hi then ys ! (st + q - lo) else b ! q)"
    using nth_blit [OF le] q assms(1) by simp
qed

lemma gap_fill_spec:
  assumes buf: "length buf = 4096" and e: "end_pos = off + length data"
  shows "length (gap_fill sz off end_pos data st buf) = 4096"
    and "q < 4096 \<Longrightarrow> gap_fill sz off end_pos data st buf ! q =
     (if off \<le> st + q \<and> st + q < end_pos then data ! (st + q - off)
      else if sz \<le> st + q \<and> st + q < off then 0 else buf ! q)"
proof -
  define gl gh lo hi where "gl = max sz st" and "gh = min off (st + 4096)"
    and "lo = max off st" and "hi = min end_pos (st + 4096)"
  define b where "b = (if gl < gh then blit (gl - st) (replicate (gh - gl) 0) buf else buf)"
  have G: "st \<le> gl" "gh \<le> st + 4096" "st \<le> lo" "hi \<le> st + 4096" "off \<le> lo" "hi \<le> end_pos"
    by (auto simp: gl_def gh_def lo_def hi_def)
  have in1: "gl \<le> st + q \<and> st + q < gh \<longleftrightarrow> sz \<le> st + q \<and> st + q < off" if "q < 4096"
    using that by (auto simp: gl_def gh_def)
  have in2: "lo \<le> st + q \<and> st + q < hi \<longleftrightarrow> off \<le> st + q \<and> st + q < end_pos" if "q < 4096"
    using that by (auto simp: lo_def hi_def)
  have lb: "length b = 4096" using window_blit(1) [OF buf G(1) _ G(2)] buf by (simp add: b_def)
  have b: "b ! q = (if sz \<le> st + q \<and> st + q < off then 0 else buf ! q)" if "q < 4096"
  proof (cases "gl < gh")
    case True
    have "st + q - gl < gh - gl" if "gl \<le> st + q \<and> st + q < gh" using that by linarith
    then show ?thesis using window_blit(2) [OF buf G(1) True G(2) length_replicate \<open>q < 4096\<close>] True in1 [OF that]
      by (simp add: b_def)
  next
    case False
    then show ?thesis using in1 [OF that] by (auto simp: b_def)
  qed
  let ?ys = "slice_of (lo - off) (hi - off) data"
  have ys: "length ?ys = hi - lo" if "lo < hi" using G(5,6) e that by simp
  have gf: "gap_fill sz off end_pos data st buf = (if lo < hi then blit (lo - st) ?ys b else b)"
    by (simp add: gap_fill_def Let_def b_def gl_def gh_def lo_def hi_def)
  show "length (gap_fill sz off end_pos data st buf) = 4096"
    unfolding gf using window_blit(1) [OF lb G(3) _ G(4) ys] lb by simp
  assume q: "q < 4096"
  show "gap_fill sz off end_pos data st buf ! q =
     (if off \<le> st + q \<and> st + q < end_pos then data ! (st + q - off)
      else if sz \<le> st + q \<and> st + q < off then 0 else buf ! q)"
  proof (cases "lo < hi")
    case True
    have "?ys ! (st + q - lo) = data ! (st + q - off)" if "off \<le> st + q \<and> st + q < end_pos"
    proof -
      have "lo \<le> st + q" "st + q < hi" using in2 [OF q] that by auto
      then show ?thesis using G(5,6) e by (subst nth_slice) auto
    qed
    then show ?thesis unfolding gf
      using window_blit(2) [OF lb G(3) True G(4) ys [OF True] q] True in2 [OF q] b [OF q] by simp
  next
    case False
    then show ?thesis unfolding gf using in2 [OF q] b [OF q] by auto
  qed
qed

lemmas length_gap_fill [simp] = gap_fill_spec(1)
lemmas gap_fill_nth = gap_fill_spec(2)

text \<open>
  The loop has written the clusters before number \<open>k\<close> of the chain \<open>cs\<close>; the others are as
  they were in \<open>s0\<close>, where the chain was \<open>cs0\<close>.
\<close>

definition wr_inv ::
  "fs_state \<Rightarrow> u16 list \<Rightarrow> nat \<Rightarrow> nat \<Rightarrow> bytes \<Rightarrow> u16 \<Rightarrow> fs_state \<Rightarrow> u16 list \<Rightarrow> nat \<Rightarrow> bool" where
  "wr_inv s0 cs0 sz off data first s cs k \<longleftrightarrow>
     dev_ok (dev s) \<and> grown s0 cs0 s cs \<and> chain_ok (dev s) (disk s) first cs
     \<and> k \<le> length cs \<and> length cs \<le> max k (length cs0) \<and> sz \<le> 4096 * length cs0
     \<and> (\<forall>j q. j < k \<longrightarrow> q < 4096 \<longrightarrow> 4096 * j + q < sz \<or> 4096 * j + q < off + length data \<longrightarrow>
          cluster_of (cs ! j) (disk s) ! q = newbyte sz off data (flat (disk s0) cs0) (4096 * j + q))
     \<and> (\<forall>j. k \<le> j \<longrightarrow> j < length cs \<longrightarrow>
          cluster_of (cs ! j) (disk s) = cluster_of (cs ! j) (disk s0))"

lemma wr_invD:
  assumes "wr_inv s0 cs0 sz off data first s cs k"
  shows "grown s0 cs0 s cs" "chain_ok (dev s) (disk s) first cs" "dev_ok (dev s)"
    "length cs \<le> max k (length cs0)" "sz \<le> 4096 * length cs0" "k \<le> length cs"
    "\<And>j q. j < k \<Longrightarrow> q < 4096 \<Longrightarrow> 4096 * j + q < sz \<or> 4096 * j + q < off + length data \<Longrightarrow>
       cluster_of (cs ! j) (disk s) ! q = newbyte sz off data (flat (disk s0) cs0) (4096 * j + q)"
    "\<And>j. k \<le> j \<Longrightarrow> j < length cs \<Longrightarrow> cluster_of (cs ! j) (disk s) = cluster_of (cs ! j) (disk s0)"
  using assms unfolding wr_inv_def by blast+

lemma wr_invI:
  assumes "grown s0 cs0 s cs" "chain_ok (dev s) (disk s) first cs" "dev_ok (dev s)"
    "length cs \<le> max k (length cs0)" "sz \<le> 4096 * length cs0" "k \<le> length cs"
    "\<And>j q. j < k \<Longrightarrow> q < 4096 \<Longrightarrow> 4096 * j + q < sz \<or> 4096 * j + q < off + length data \<Longrightarrow>
       cluster_of (cs ! j) (disk s) ! q = newbyte sz off data (flat (disk s0) cs0) (4096 * j + q)"
    "\<And>j. k \<le> j \<Longrightarrow> j < length cs \<Longrightarrow> cluster_of (cs ! j) (disk s) = cluster_of (cs ! j) (disk s0)"
  shows "wr_inv s0 cs0 sz off data first s cs k"
  using assms unfolding wr_inv_def by blast

definition wr_vars :: "u16 list \<Rightarrow> nat \<Rightarrow> write_vars \<Rightarrow> bool" where
  "wr_vars cs k v \<longleftrightarrow> wv_start v = 4096 * k \<and> length (wv_buf v) = 4096
     \<and> wv_prev v = (if k = 0 then 0 else cs ! (k - 1))
     \<and> (if k < length cs then wv_cluster v = cs ! k else \<not> is_data_cluster (wv_cluster v))
     \<and> (k = length cs \<longrightarrow> wv_reached v = 4096 * k)"

text \<open>What the buffer must hold before the gap and the data are copied into it.\<close>

lemma newbyte_fill:
  assumes "length buf = 4096" "q < 4096" "p = st + q"
    and "p < sz \<Longrightarrow> \<not> (off \<le> p \<and> p < off + length data) \<Longrightarrow> buf ! q = old ! p"
    and "p < sz \<or> p < off + length data"
  shows "gap_fill sz off (off + length data) data st buf ! q = newbyte sz off data old p"
  using assms by (auto simp: gap_fill_nth newbyte_def)

lemma wr_step_old:
  assumes inv: "wr_inv s0 cs0 sz off data first s cs k" and k: "k < length cs"
    and buf: "length buf = 4096"
    and ok: "\<And>q. q < 4096 \<Longrightarrow> 4096 * k + q < sz \<Longrightarrow>
        \<not> (off \<le> 4096 * k + q \<and> 4096 * k + q < off + length data) \<Longrightarrow> buf ! q = cluster_of (cs ! k) (disk s) ! q"
    and b: "b = gap_fill sz off (off + length data) data (4096 * k) buf"
  shows "wr_inv s0 cs0 sz off data first (s\<lparr>disk := cluster_put (cs ! k) b (disk s)\<rparr>) cs (Suc k)"
proof -
  note I = wr_invD [OF inv]
  have cells: "\<forall>x\<in>set cs. fat_cell x \<and> 2 \<le> x" using I(2) by (auto dest: chain_ok_cells)
  have x: "cs ! k \<in> set cs" "2 \<le> cs ! k" using k cells by auto
  have lb: "length b = 4096" using buf b by simp
  have dist: "cs ! j = cs ! k \<longleftrightarrow> j = k" if "j < length cs" for j
    using I(2) k that by (auto simp: chain_ok_def nth_eq_iff_index_eq)
  have cl: "cluster_of (cs ! j) (cluster_put (cs ! k) b (disk s)) = (if j = k then b else cluster_of (cs ! j) (disk s))"
    if "j < length cs" for j using dist [OF that] that cells lb x(2) by auto
  have k0: "k < length cs0" using I(4) k by auto
  have cs0: "cs ! k = cs0 ! k" using I(1) k0 by (auto simp: grown_def nth_append)
  have old: "cluster_of (cs ! k) (disk s) ! q = flat (disk s0) cs0 ! (4096 * k + q)" if "q < 4096" for q
    using I(8) [of k] k by (simp add: flat_nth [OF k0 that] cs0)
  have new: "b ! q = newbyte sz off data (flat (disk s0) cs0) (4096 * k + q)"
    if "q < 4096" "4096 * k + q < sz \<or> 4096 * k + q < off + length data" for q
    unfolding b by (rule newbyte_fill [OF buf that(1) refl _ that(2)]) (use ok old that in auto)
  let ?s = "s\<lparr>disk := cluster_put (cs ! k) b (disk s)\<rparr>"
  show ?thesis
  proof (rule wr_invI)
    show "grown s0 cs0 ?s cs" by (rule grown_write [OF I(1) x lb])
    show "chain_ok (dev ?s) (disk ?s) first cs" using I(2) cells by simp
    fix j q assume "j < Suc k" "q < (4096::nat)" "4096 * j + q < sz \<or> 4096 * j + q < off + length data"
    then show "cluster_of (cs ! j) (disk ?s) ! q = newbyte sz off data (flat (disk s0) cs0) (4096 * j + q)"
      using cl [of j] new [of q] I(7) [of j q] k by (cases "j = k") auto
  next
    fix j assume "Suc k \<le> j" "j < length cs"
    then show "cluster_of (cs ! j) (disk ?s) = cluster_of (cs ! j) (disk s0)"
      using cl [of j] I(8) [of j] by simp
  qed (use I k in auto)
qed

lemma wr_step_new:
  assumes inv: "wr_inv s0 cs0 sz off data first s cs (length cs)" and c: "c \<in> free_clusters s"
    and f: "cs = [] \<Longrightarrow> f' = c" "cs \<noteq> [] \<Longrightarrow> f' = first"
    and b: "b = gap_fill sz off (off + length data) data (4096 * length cs) (replicate 4096 0)"
  shows "wr_inv s0 cs0 sz off data f' (extended cs c b s) (cs @ [c]) (Suc (length cs))"
proof -
  note I = wr_invD [OF inv]
  have lb: "length b = 4096" using b by simp
  note E = extended_chain [OF I(2) f I(1) c lb]
  have len: "length cs0 \<le> length cs" using I(1) by (auto simp: grown_def)
  have new: "b ! q = newbyte sz off data (flat (disk s0) cs0) (4096 * length cs + q)"
    if "q < 4096" "4096 * length cs + q < sz \<or> 4096 * length cs + q < off + length data" for q
    unfolding b by (rule newbyte_fill [OF _ that(1) refl _ that(2)]) (use I(5) len in auto)
  have cl: "cluster_of ((cs @ [c]) ! j) (disk (extended cs c b s)) =
      (if j = length cs then b else cluster_of (cs ! j) (disk s))" if "j \<le> length cs" for j
    using arg_cong [OF E(3), of "\<lambda>xs. xs ! j"] that by (auto simp: nth_append)
  have dv: "dev (extended cs c b s) = dev s" by (simp add: extended_def)
  let ?s = "extended cs c b s"
  show ?thesis
  proof (rule wr_invI)
    show "grown s0 cs0 ?s (cs @ [c])" by (rule E(2))
    show "chain_ok (dev ?s) (disk ?s) f' (cs @ [c])" using E(1) dv by simp
    fix j q assume "j < Suc (length cs)" "q < (4096::nat)"
      "4096 * j + q < sz \<or> 4096 * j + q < off + length data"
    then show "cluster_of ((cs @ [c]) ! j) (disk ?s) ! q =
        newbyte sz off data (flat (disk s0) cs0) (4096 * j + q)"
      using cl [of j] new [of q] I(7) [of j q] by (cases "j = length cs") auto
  qed (use I dv in auto)
qed


text \<open>One pass of the loop over cluster \<open>k\<close>.\<close>

lemma wr_pass:
  assumes inv: "wr_inv s0 cs0 sz off data (wv_first v) s cs k" and v: "wr_vars cs k v"
    and e: "end_pos = off + length data"
  obtains (full) "write_prepare off end_pos v s = (Inl NoSpace, v, s)" "k = length cs"
      "free_clusters s = {}"
  | (go) v1 s1 s2 cs' where "write_prepare off end_pos v s = (Inr (), v1, s1)"
      "length (wv_buf v1) = 4096"
      "write_blocks_unlocked (cluster_to_lba (wv_cluster v1)) SECTORS_PER_CLUSTER
         (Some (gap_fill sz off end_pos data (wv_start v) (wv_buf v1))) s1 = (Inr (), s2)"
      "wr_inv s0 cs0 sz off data (wv_first v1) s2 cs' (Suc k)" "wv_cluster v1 = cs' ! k"
proof -
  note I = wr_invD [OF inv]
  have st: "wv_start v = 4096 * k" and lb: "length (wv_buf v) = 4096"
    and prev: "wv_prev v = (if k = 0 then 0 else cs ! (k - 1))"
    using v by (auto simp: wr_vars_def)
  have cells: "\<forall>x\<in>set cs. fat_cell x \<and> valid_cluster (dev s) x \<and> is_data_cluster x \<and> x \<noteq> 0"
    using I(2) by (auto simp: chain_ok_def)
  show thesis
  proof (cases "k < length cs")
    case True
    then have c: "wv_cluster v = cs ! k" "is_data_cluster (cs ! k)" "valid_cluster (dev s) (cs ! k)"
      using v cells by (auto simp: wr_vars_def)
    let ?rd = "off > wv_start v \<or> end_pos < wv_start v + 4096"
    let ?v = "if ?rd then v\<lparr>wv_buf := cluster_of (cs ! k) (disk s)\<rparr> else v"
    let ?b = "gap_fill sz off end_pos data (wv_start v) (wv_buf ?v)"
    let ?s = "s\<lparr>disk := cluster_put (cs ! k) ?b (disk s)\<rparr>"
    have p: "write_prepare off end_pos v s = (Inr (), ?v, s)"
      using c I(3) by (simp add: write_prepare_def read_cluster_ok)
    have lb': "length (wv_buf ?v) = 4096" using lb by simp
    have cv: "wv_cluster ?v = cs ! k" and fv: "wv_first ?v = wv_first v" using c(1) by simp_all
    have w: "write_blocks_unlocked (cluster_to_lba (wv_cluster ?v)) SECTORS_PER_CLUSTER (Some ?b) s = (Inr (), ?s)"
      unfolding cv by (rule write_cluster_ok [OF I(3) c(3) gap_fill_spec(1) [OF lb' e]])
    have "wr_inv s0 cs0 sz off data (wv_first ?v) ?s cs (Suc k)"
      unfolding fv by (rule wr_step_old [OF inv True lb']) (use st e in auto)
    then show thesis using go [OF p lb' w _ cv] by blast
  next
    case False
    then have k: "k = length cs" and nd: "\<not> is_data_cluster (wv_cluster v)"
      using I(6) v by (auto simp: wr_vars_def)
    have inv': "wr_inv s0 cs0 sz off data (wv_first v) s cs (length cs)" using inv k by simp
    show thesis
    proof (cases rule: alloc_cluster_cases [OF I(3)])
      case 1
      then show thesis using full k nd by (simp add: write_prepare_def)
    next
      case (2 c)
      have vc: "valid_cluster (dev s) c" using 2(1) by (simp add: free_clusters_def)
      let ?v = "if cs = [] then v\<lparr>wv_cluster := c, wv_first := c, wv_buf := replicate 4096 0\<rparr>
                else v\<lparr>wv_cluster := c, wv_buf := replicate 4096 0\<rparr>"
      let ?s1 = "s\<lparr>disk := (if cs = [] then id else fat_put (last cs) c) (fat_put c FAT_ENTRY_EOC (disk s))\<rparr>"
      let ?b = "gap_fill sz off end_pos data (wv_start v) (replicate 4096 0)"
      have pv: "wv_prev v = 0 \<longleftrightarrow> cs = []" "cs \<noteq> [] \<Longrightarrow> wv_prev v = last cs \<and> fat_cell (last cs)"
        using prev k cells by (auto simp: last_conv_nth)
      have p: "write_prepare off end_pos v s = (Inr (), ?v, ?s1)"
        using nd 2(2) pv I(3) by (auto simp: write_prepare_def write_fat_ok)
      have w: "write_blocks_unlocked (cluster_to_lba (wv_cluster ?v)) SECTORS_PER_CLUSTER (Some ?b) ?s1
          = (Inr (), extended cs c ?b s)"
        using I(3) vc gap_fill_spec(1) [OF _ e, of "replicate 4096 0"]
        by (auto simp: extended_def write_cluster_ok)
      have "wr_inv s0 cs0 sz off data (wv_first ?v) (extended cs c ?b s) (cs @ [c]) (Suc (length cs))"
        by (rule wr_step_new [OF inv' 2(1)]) (use st e k in auto)
      then have inv'': "wr_inv s0 cs0 sz off data (wv_first ?v) (extended cs c ?b s) (cs @ [c]) (Suc k)"
        unfolding k .
      have bv: "wv_buf ?v = replicate 4096 0" and cv: "wv_cluster ?v = (cs @ [c]) ! k" using k by simp_all
      have w': "write_blocks_unlocked (cluster_to_lba (wv_cluster ?v)) SECTORS_PER_CLUSTER
          (Some (gap_fill sz off end_pos data (wv_start v) (wv_buf ?v))) ?s1 = (Inr (), extended cs c ?b s)"
        unfolding bv by (rule w)
      have lb': "length (wv_buf ?v) = 4096" unfolding bv by simp
      show thesis by (rule go [OF p lb' w' inv'' cv])
    qed
  qed
qed


lemma is_chain_next:
  "is_chain d x cs \<Longrightarrow> k < length cs \<Longrightarrow>
     if Suc k < length cs then fat_of (cs ! k) d = cs ! Suc k else \<not> is_data_cluster (fat_of (cs ! k) d)"
proof (induction cs arbitrary: x k)
  case (Cons c cs)
  show ?case
  proof (cases k)
    case 0
    then show ?thesis using Cons.prems by (cases cs) auto
  next
    case (Suc j)
    then show ?thesis using Cons.IH [of "fat_of x d" j] Cons.prems by auto
  qed
qed simp

definition wr_done :: "fs_state \<Rightarrow> u16 list \<Rightarrow> nat \<Rightarrow> nat \<Rightarrow> bytes \<Rightarrow> FsError + unit \<Rightarrow> write_vars
    \<Rightarrow> fs_state \<Rightarrow> u16 list \<Rightarrow> bool" where
  "wr_done s0 cs0 sz off data r v' s' cs' \<longleftrightarrow>
     r = Inr () \<and> wv_reached v' = off + length data
       \<and> (\<exists>k. off + length data \<le> 4096 * k \<and> wr_inv s0 cs0 sz off data (wv_first v') s' cs' k)
   \<or> r = Inl NoSpace \<and> free_clusters s' = {} \<and> wv_reached v' = 4096 * length cs'
       \<and> 4096 * length cs' < off + length data
       \<and> wr_inv s0 cs0 sz off data (wv_first v') s' cs' (length cs')"

lemma write_at_loop_run:
  assumes "wr_inv s0 cs0 sz off data (wv_first (v :: write_vars)) s cs k" "wr_vars cs k v"
    and "end_pos = off + length data" "4096 * k < end_pos"
  shows "\<exists>r v' s' cs'. write_at_loop sz off end_pos data v s = (r, v', s')
           \<and> wr_done s0 cs0 sz off data r v' s' cs'"
  using assms
proof (induction "end_pos - 4096 * k" arbitrary: v s cs k rule: less_induct)
  case less
  have st: "wv_start v = 4096 * k" using less.prems(2) by (simp add: wr_vars_def)
  show ?case
  proof (cases rule: wr_pass [OF less.prems(1-3)])
    case 1
    then have "write_at_loop sz off end_pos data v s = (Inl NoSpace, v, s)"
      by (subst write_at_loop.simps) simp
    then show ?thesis using 1 less.prems by (auto simp: wr_done_def wr_vars_def)
  next
    case (2 v1 s1 s2 cs')
    let ?ce = "4096 * k + 4096" and ?b = "gap_fill sz off end_pos data (wv_start v) (wv_buf v1)"
    let ?v2 = "v1\<lparr>wv_buf := ?b, wv_reached := max (min end_pos ?ce) (min off ?ce)\<rparr>"
    note I = wr_invD [OF 2(4)]
    show ?thesis
    proof (cases "?ce \<ge> end_pos")
      case True
      have run: "write_at_loop sz off end_pos data v s = (Inr (), ?v2, s2)"
        using 2 True st by (subst write_at_loop.simps) (simp add: Let_def)
      have "wv_reached ?v2 = off + length data" using True less.prems(3) by simp
      moreover have "\<exists>k. off + length data \<le> 4096 * k \<and> wr_inv s0 cs0 sz off data (wv_first ?v2) s2 cs' k"
        using True less.prems(3) 2(4) by (intro exI [of _ "Suc k"]) simp
      ultimately have "wr_done s0 cs0 sz off data (Inr ()) ?v2 s2 cs'"
        unfolding wr_done_def by blast
      with run show ?thesis by blast
    next
      case False
      have k: "k < length cs'" using I(6) by simp
      have c: "fat_cell (cs' ! k)" using chain_ok_cells [OF I(2) nth_mem [OF k]] by simp
      let ?v3 = "?v2\<lparr>wv_start := ?ce, wv_prev := wv_cluster v1, wv_cluster := fat_of (cs' ! k) (disk s2)\<rparr>"
      have run: "write_at_loop sz off end_pos data v s = write_at_loop sz off end_pos data ?v3 s2"
        using 2 False st c I(3) by (subst write_at_loop.simps) (simp add: Let_def read_fat_ok)
      have "is_chain (disk s2) (wv_first v1) cs'" using I(2) by (simp add: chain_ok_def)
      from is_chain_next [OF this k] have vars: "wr_vars cs' (Suc k) ?v3"
        using 2(2,5) False less.prems(3) by (auto simp: wr_vars_def)
      have inv: "wr_inv s0 cs0 sz off data (wv_first ?v3) s2 cs' (Suc k)" using 2(4) by simp
      have "end_pos - 4096 * Suc k < end_pos - 4096 * k" "4096 * Suc k < end_pos" using False by auto
      from less.hyps [OF this(1) inv vars less.prems(3) this(2)] show ?thesis unfolding run .
    qed
  qed
qed

lemma wr_inv_flat:
  assumes inv: "wr_inv s0 cs0 sz off data f s cs k"
    and p: "p < sz \<or> p < off + length data" "p < 4096 * k \<or> off + length data \<le> p" "p < 4096 * length cs"
  shows "flat (disk s) cs ! p = newbyte sz off data (flat (disk s0) cs0) p"
proof -
  note I = wr_invD [OF inv]
  define j q where "j = p div 4096" and "q = p mod 4096"
  have pj: "p = 4096 * j + q" and q: "q < 4096" by (simp_all add: j_def q_def)
  have j: "j < length cs" using p(3) pj by linarith
  show ?thesis
  proof (cases "j < k")
    case True
    then show ?thesis using I(7) [OF True q] p(1) flat_nth [OF j q, of "disk s"] pj by simp
  next
    case False
    then have ge: "off + length data \<le> p" and lt: "p < sz" using p pj by auto
    then have j0: "j < length cs0" using I(5) pj by linarith
    have "cs ! j = cs0 ! j" using I(1) j0 by (auto simp: grown_def nth_append)
    then have "flat (disk s) cs ! p = flat (disk s0) cs0 ! p"
      using flat_nth [OF j q, of "disk s"] flat_nth [OF j0 q, of "disk s0"] I(8) [of j] False j pj by simp
    then show ?thesis using ge lt by (simp add: newbyte_def)
  qed
qed

lemma grown_capacity:
  assumes g: "grown s0 cs0 s cs" and ok: "chain_ok (dev s) (disk s) f cs"
    and cs0: "set cs0 \<inter> free_clusters s0 = {}"
  shows "length cs \<le> length cs0 + card (free_clusters s0)"
    and "free_clusters s = {} \<Longrightarrow> length cs = length cs0 + card (free_clusters s0)"
proof -
  obtain new where new: "cs = cs0 @ new" "set new \<subseteq> free_clusters s0" using g by (auto simp: grown_def)
  have d: "distinct new" using ok new(1) by (simp add: chain_ok_def)
  then show "length cs \<le> length cs0 + card (free_clusters s0)"
    using card_mono [OF finite_free_clusters new(2)] new(1) by (simp add: distinct_card)
  assume "free_clusters s = {}"
  then have "free_clusters s0 \<subseteq> set cs" using grown_free_clusters [OF g ok] by auto
  then have "free_clusters s0 = set new" using new cs0 by auto
  then show "length cs = length cs0 + card (free_clusters s0)" using new(1) d by (simp add: distinct_card)
qed

definition overlay :: "nat \<Rightarrow> bytes \<Rightarrow> bytes \<Rightarrow> bytes" where
  "overlay off data old = take off old @ replicate (off - length old) 0 @ data @ drop (off + length data) old"

lemma length_overlay [simp]: "length (overlay off data old) = max (length old) (off + length data)"
  by (auto simp: overlay_def)

lemma overlay_nth:
  assumes "p < length (overlay off data old)"
  shows "overlay off data old ! p = (if off \<le> p \<and> p < off + length data then data ! (p - off)
           else if p < length old then old ! p else 0)"
  using assms by (auto simp: overlay_def nth_append min_def not_less)

lemma overlay_flat:
  assumes "sz \<le> length old" "length X \<ge> max sz (off + n)" "n \<le> length data"
    and "\<And>p. p < max sz (off + n) \<Longrightarrow> X ! p = newbyte sz off data old p"
    and "n < length data \<Longrightarrow> sz \<le> off + n"
  shows "take (max sz (off + n)) X = overlay off (take n data) (take sz old)"
proof (rule nth_equalityI)
  show "length (take (max sz (off + n)) X) = length (overlay off (take n data) (take sz old))"
    using assms(1,2,3) by simp
  fix p assume p: "p < length (take (max sz (off + n)) X)"
  then have p': "p < max sz (off + n)" by simp
  then have "p < length (overlay off (take n data) (take sz old))" using assms(1,3) by simp
  from overlay_nth [OF this] show "take (max sz (off + n)) X ! p = overlay off (take n data) (take sz old) ! p"
    using assms(1,3,5) assms(4) [OF p'] p' by (auto simp: newbyte_def)
qed

lemma write_start:
  assumes wf: "wf_fs s" and u: "used (disk s) i" and sz: "sz = unat (de_size (dir_of i (disk s)))"
    and cs: "cs = slot_chain (disk s) i" and k: "k = min off sz div 4096"
    and v: "v = \<lparr>wv_first = first_cluster (dir_of i (disk s)), wv_prev = prev, wv_cluster = cluster,
                 wv_start = 4096 * k, wv_reached = min off sz, wv_buf = replicate 4096 0\<rparr>"
    and w: "walk_chain_unlocked (first_cluster (dir_of i (disk s))) k s = (Inr (prev, cluster), s')"
  shows "s' = s" "wr_inv s cs sz off data (wv_first v) s cs k" "wr_vars cs k v"
proof -
  note ok = wf_slot(1) [OF wf u, folded cs] and le = wf_slot(2) [OF wf u, folded cs sz]
    and dv = wf_fsD(1) [OF wf]
  have km: "4096 * k \<le> min off sz" unfolding k by (rule times_div_less_eq_dividend)
  then have kl: "k \<le> length cs" using le by linarith
  have ch: "is_chain (disk s) (first_cluster (dir_of i (disk s))) cs" "\<forall>x\<in>set cs. fat_cell x"
    using ok by (auto simp: chain_ok_def)
  obtain x where "walk_loop k 0 (first_cluster (dir_of i (disk s))) s = (Inr (last (0 # take k cs), x), s)"
    and x: "is_chain (disk s) x (drop k cs)"
    using walk_loop_chain [OF dv ch kl, of 0] by auto
  then have p: "prev = last (0 # take k cs)" "cluster = x" "s' = s" using w by (auto simp: walk_chain_unlocked_def)
  then show "s' = s" by simp
  have "prev = (if k = 0 then 0 else cs ! (k - 1))"
    using p(1) kl by (auto simp: last_conv_nth min_def)
  moreover have "if k < length cs then cluster = cs ! k else \<not> is_data_cluster cluster"
    using x p(2) by (auto simp: Cons_nth_drop_Suc [symmetric])
  moreover have "k = length cs \<longrightarrow> min off sz = 4096 * k" using km le by auto
  ultimately show "wr_vars cs k v" by (simp add: wr_vars_def v)
  show "wr_inv s cs sz off data (wv_first v) s cs k"
  proof (rule wr_invI)
    fix j q assume j: "j < k" "q < (4096::nat)"
    then have "4096 * j + q < 4096 * k" by linarith
    then have "4096 * j + q < off" "4096 * j + q < sz" using km by auto
    then show "cluster_of (cs ! j) (disk s) ! q = newbyte sz off data (flat (disk s) cs) (4096 * j + q)"
      using j kl by (simp add: newbyte_def flat_nth)
  qed (use ok dv kl le in \<open>auto simp: v grown_refl\<close>)
qed


text \<open>The bytes a file can hold once it has taken every free cluster.\<close>

definition capacity :: "fs_state \<Rightarrow> nat \<Rightarrow> nat" where
  "capacity s i = 4096 * (length (slot_chain (disk s) i) + card (free_clusters s))"

lemma write_commit:
  assumes wf: "wf_fs s" and u: "used (disk s) i" and sz: "sz = unat (de_size (dir_of i (disk s)))"
    and inv: "wr_inv s (slot_chain (disk s) i) sz off data f t cs k"
    and data: "data \<noteq> []" and n: "n \<le> length data" "0 < n \<Longrightarrow> off + n < 2 ^ 32 \<and> off + n \<le> 4096 * length cs"
    and k: "n = length data \<Longrightarrow> off + n \<le> 4096 * k"
      "n < length data \<Longrightarrow> k = length cs \<and> (0 < n \<longrightarrow> sz \<le> off + n) \<and> (n = 0 \<longrightarrow> sz \<le> off)"
    and e: "e = (dir_of i (disk s))\<lparr>first_cluster := f,
              de_size := (if n > 0 then of_nat (max sz (off + n)) else de_size (dir_of i (disk s)))\<rparr>"
    and s': "s' = t\<lparr>disk := dir_put i e (disk t)\<rparr>"
  shows "wf_fs s'" and "fs_view (disk s') = (fs_view (disk s))(stored_name (dir_of i (disk s)) \<mapsto>
           (if n > 0 then overlay off (take n data) (content_of (disk s) (dir_of i (disk s)))
            else content_of (disk s) (dir_of i (disk s))))"
    and "used (disk s') i" "SLOT_GENERATIONS s' = SLOT_GENERATIONS s"
proof -
  let ?cs0 = "slot_chain (disk s) i" and ?e = "dir_of i (disk s)"
  note I = wr_invD [OF inv]
  have i: "i < 256" using u by (simp add: used_def)
  have sz32: "sz < 2 ^ 32" using unsigned_less [of "de_size ?e"] by (simp add: sz)
  have g: "grown s (base_chain (disk s) i) t cs" using I(1) u by (simp add: base_chain_def)
  have fits: "entry_fits e" using dir_of_fits [of i "disk s"] unfolding e entry_fits_def by simp
  have e1: "in_use e = 1" "first_cluster e = f" "stored_name e = stored_name ?e"
    using u unfolding e by (simp_all add: used_def stored_name_def)
  have len: "length ?cs0 \<le> length cs" using I(1) by (auto simp: grown_def)
  have esz: "unat (de_size e) = (if n > 0 then max sz (off + n) else sz)"
    using n(2) sz32 by (simp add: e sz unat_of_nat_small)
  have szle: "unat (de_size e) \<le> 4096 * length cs" using esz n(2) I(5) len by simp
  have ok: "chain_ok (dev t) (disk t) (first_cluster e) cs" using I(2) e1 by simp
  have nm: "stored_name (dir_of j (disk s)) \<noteq> stored_name e" if "used (disk s) j" "j \<noteq> i" for j
    using wf_disjoint(2) [OF wf that(1) u that(2)] e1(3) by simp
  note K = commit_slot [OF wf i g ok fits e1(1) szle nm]
  have X: "flat (disk t) cs ! p = newbyte sz off data (flat (disk s) ?cs0) p"
    if "p < unat (de_size e)" for p
  proof (rule wr_inv_flat [OF inv])
    show "p < sz \<or> p < off + length data" using that esz n(1) by (auto split: if_splits)
    show p: "p < 4096 * length cs" using that szle by simp
    show "p < 4096 * k \<or> off + length data \<le> p"
      using k p n(1) by (cases "n = length data") auto
  qed
  have old: "content_of (disk s) ?e = take sz (flat (disk s) ?cs0)"
    by (simp add: content_of_used [OF u] sz flat_def)
  have cont: "take (unat (de_size e)) (flat (disk t) cs) =
     (if n > 0 then overlay off (take n data) (content_of (disk s) ?e) else content_of (disk s) ?e)"
  proof (cases "n > 0")
    case True
    then show ?thesis unfolding old using esz X n k I(5) szle
      by (simp, intro overlay_flat) auto
  next
    case False
    then have off: "sz \<le> off" and esz': "unat (de_size e) = sz" using k(2) data esz by auto
    have "take sz (flat (disk t) cs) = take sz (flat (disk s) ?cs0)"
    proof (rule nth_equalityI)
      fix p assume "p < length (take sz (flat (disk t) cs))"
      then have "p < sz" by simp
      then show "take sz (flat (disk t) cs) ! p = take sz (flat (disk s) ?cs0) ! p"
        using X [of p] esz' off by (simp add: newbyte_def)
    qed (use esz' I(5) szle in simp)
    then show ?thesis using False esz old by simp
  qed
  show "wf_fs s'" unfolding s' by (rule K(1))
  show "fs_view (disk s') = (fs_view (disk s))(stored_name ?e \<mapsto>
           (if n > 0 then overlay off (take n data) (content_of (disk s) ?e) else content_of (disk s) ?e))"
    using K(2) cont e1(3) by (intro ext) (simp add: s' flat_def)
  show "used (disk s') i" using i fits e1 by (simp add: s' used_def)
  show "SLOT_GENERATIONS s' = SLOT_GENERATIONS s" using I(1) by (simp add: s' grown_def)
qed


text \<open>The entry the operation stores: \<open>reached\<close> is how far it got.\<close>

definition stored_entry :: "FatDirEntry \<Rightarrow> nat \<Rightarrow> u16 \<Rightarrow> nat \<Rightarrow> FatDirEntry" where
  "stored_entry e off first reached = e\<lparr>first_cluster := first, de_size :=
     (if reached - off > 0 then of_nat (max (unat (de_size e)) reached) else de_size e)\<rparr>"

lemma stored_entry_simps:
  "entry_fits e \<Longrightarrow> entry_fits (stored_entry e off f n)" "in_use (stored_entry e off f n) = in_use e"
  by (simp_all add: stored_entry_def entry_fits_def)

lemma write_at_unfold:
  assumes wf: "wf_fs s" and u: "used (disk s) i" and h: "valid_handle s fid" "i = fid_slot fid"
    and data: "data \<noteq> []" and sz: "sz = unat (de_size (dir_of i (disk s)))"
    and off: "off = (case offset of None \<Rightarrow> sz | Some x \<Rightarrow> x)" "off + length data \<le> 2 ^ 32 - 1"
    and k: "k = min off sz div 4096"
    and w: "walk_chain_unlocked (first_cluster (dir_of i (disk s))) k s = (Inr (x, y), s)"
    and run: "write_at_loop sz off (off + length data) data
        \<lparr>wv_first = first_cluster (dir_of i (disk s)), wv_prev = x, wv_cluster = y, wv_start = 4096 * k,
         wv_reached = min off sz, wv_buf = replicate 4096 0\<rparr> s = (r, v', t)"
    and e': "e' = stored_entry (dir_of i (disk s)) off (wv_first v') (wv_reached v')" and t: "dev t = dev s"
    and s': "s' = t\<lparr>disk := dir_put i e' (disk t)\<rparr>"
  shows "write_at_unlocked fid offset data s = (case r of Inr _ \<Rightarrow> (Inr (off, length data), s')
      | Inl er \<Rightarrow> if wv_reached v' - off > 0 then (Inr (off, wv_reached v' - off), s') else (Inl er, s'))"
proof -
  let ?e = "dir_of i (disk s)"
  have ck: "min off sz - min off sz mod 4096 = 4096 * k" unfolding k by (simp add: minus_mod_eq_mult_div)
  have "i < 256" "in_use e' = 1" using u by (simp_all add: used_def e' stored_entry_simps)
  then have wd: "write_dir_entry_unlocked i e' t = (Inr (), s')"
    using t wf_fsD(1) [OF wf] by (simp add: write_dir_ok retired_def s' e' stored_entry_simps)
  have oe: "open_entry_unlocked fid s = (Inr ?e, s)"
    using open_entry_ok [OF wf_fsD(1) [OF wf] h(1)] h(2) by simp
  have lim: "\<not> \<not> (off + length data < 2 ^ 64 \<and> off + length data \<le> 2 ^ 32 - 1)" using off(2) by simp
  show ?thesis
    unfolding write_at_unlocked_def bind_def oe prod.case sum.case Let_def sz [symmetric]
      off(1) [symmetric] h(2) [symmetric] ck
    using data lim w run wd [unfolded e' stored_entry_def, folded sz]
    by (cases "wv_reached v' - off > 0") (auto simp: bind_def split: sum.split)
qed

lemma write_at_run:
  assumes wf: "wf_fs s" and u: "used (disk s) i" and h: "valid_handle s fid" "i = fid_slot fid"
    and data: "data \<noteq> []" and sz: "sz = unat (de_size (dir_of i (disk s)))"
    and off: "off = (case offset of None \<Rightarrow> sz | Some x \<Rightarrow> x)" "off + length data \<le> 2 ^ 32 - 1"
  obtains r v' t cs where "wr_done s (slot_chain (disk s) i) sz off data r v' t cs"
    "write_at_unlocked fid offset data s = (let s' = t\<lparr>disk := dir_put i
         (stored_entry (dir_of i (disk s)) off (wv_first v') (wv_reached v')) (disk t)\<rparr>
       in case r of Inr _ \<Rightarrow> (Inr (off, length data), s')
       | Inl er \<Rightarrow> if wv_reached v' - off > 0 then (Inr (off, wv_reached v' - off), s') else (Inl er, s'))"
proof -
  let ?e = "dir_of i (disk s)" and ?cs = "slot_chain (disk s) i"
  note dv = wf_fsD(1) [OF wf] and ok = wf_slot(1) [OF wf u] and le = wf_slot(2) [OF wf u, folded sz]
  define k where "k = min off sz div 4096"
  have km: "4096 * k \<le> min off sz" unfolding k_def by (rule times_div_less_eq_dividend)
  have kl: "k \<le> length ?cs" using km le by linarith
  obtain x y where w: "walk_chain_unlocked (first_cluster ?e) k s = (Inr (x, y), s)"
    using walk_loop_chain [OF dv _ _ kl, of "first_cluster ?e" 0] ok
    by (auto simp: chain_ok_def walk_chain_unlocked_def)
  define v where "v = \<lparr>wv_first = first_cluster ?e, wv_prev = x, wv_cluster = y,
                 wv_start = 4096 * k, wv_reached = min off sz, wv_buf = replicate 4096 0\<rparr>"
  note W = write_start(2) [where data = data, OF wf u sz refl k_def v_def w]
    and V = write_start(3) [OF wf u sz refl k_def v_def w]
  have "4096 * k < off + length data" using km data length_greater_0_conv [of data] by linarith
  from write_at_loop_run [OF W V refl this] obtain r v' t cs where
    run: "write_at_loop sz off (off + length data) data v s = (r, v', t)" and D: "wr_done s ?cs sz off data r v' t cs"
    by blast
  have t: "dev t = dev s" using D by (auto simp: wr_done_def grown_def dest: wr_invD(1))
  show thesis
    by (rule that [OF D]) (simp add: Let_def write_at_unfold [OF wf u h data sz off k_def w run [unfolded v_def] refl t refl])
qed

lemma write_done_all:
  assumes wf: "wf_fs s" and u: "used (disk s) i" and data: "data \<noteq> []"
    and sz: "sz = unat (de_size (dir_of i (disk s)))" and off: "off + length data \<le> 2 ^ 32 - 1"
    and D: "wr_done s (slot_chain (disk s) i) sz off data (Inr ()) v' t cs"
    and s': "s' = t\<lparr>disk := dir_put i
         (stored_entry (dir_of i (disk s)) off (wv_first v') (wv_reached v')) (disk t)\<rparr>"
  shows "off + length data \<le> capacity s i" "wf_fs s'" "used (disk s') i"
    "SLOT_GENERATIONS s' = SLOT_GENERATIONS s"
    "fs_view (disk s') = (fs_view (disk s))(stored_name (dir_of i (disk s)) \<mapsto>
        overlay off data (content_of (disk s) (dir_of i (disk s))))"
proof -
  obtain k where k: "off + length data \<le> 4096 * k"
    and inv: "wr_inv s (slot_chain (disk s) i) sz off data (wv_first v') t cs k"
    and rc: "wv_reached v' = off + length data" using D by (auto simp: wr_done_def)
  note I = wr_invD [OF inv]
  have lim: "off + length data \<le> 4096 * length cs" using k I(6) by linarith
  have e: "stored_entry (dir_of i (disk s)) off (wv_first v') (wv_reached v')
      = (dir_of i (disk s))\<lparr>first_cluster := wv_first v', de_size := (if length data > 0
          then of_nat (max sz (off + length data)) else de_size (dir_of i (disk s)))\<rparr>"
    by (simp add: stored_entry_def rc sz)
  have P: "0 < length data \<Longrightarrow> off + length data < 2 ^ 32 \<and> off + length data \<le> 4096 * length cs"
    using off lim by simp
  note C = write_commit [OF wf u sz inv data order_refl P _ _ e s']
  have "set (slot_chain (disk s) i) \<inter> free_clusters s = {}" using wf_chain_used(2) [OF wf u] by auto
  then show "off + length data \<le> capacity s i"
    using lim grown_capacity(1) [OF I(1,2)] by (simp add: capacity_def)
  show "wf_fs s'" "used (disk s') i" "SLOT_GENERATIONS s' = SLOT_GENERATIONS s"
    "fs_view (disk s') = (fs_view (disk s))(stored_name (dir_of i (disk s)) \<mapsto>
        overlay off data (content_of (disk s) (dir_of i (disk s))))"
    using C k data by simp_all
qed

lemma write_done_some:
  assumes wf: "wf_fs s" and u: "used (disk s) i" and data: "data \<noteq> []"
    and sz: "sz = unat (de_size (dir_of i (disk s)))" and off: "off + length data \<le> 2 ^ 32 - 1"
    and D: "wr_done s (slot_chain (disk s) i) sz off data (Inl er) v' t cs"
    and s': "s' = t\<lparr>disk := dir_put i
         (stored_entry (dir_of i (disk s)) off (wv_first v') (wv_reached v')) (disk t)\<rparr>"
    and n: "n = wv_reached v' - off"
  shows "er = NoSpace" "wv_reached v' = capacity s i" "n < length data" "wf_fs s'" "used (disk s') i"
    "SLOT_GENERATIONS s' = SLOT_GENERATIONS s"
    "fs_view (disk s') = (fs_view (disk s))(stored_name (dir_of i (disk s)) \<mapsto>
        (if n > 0 then overlay off (take n data) (content_of (disk s) (dir_of i (disk s)))
         else content_of (disk s) (dir_of i (disk s))))"
proof -
  let ?R = "4096 * length cs"
  have F: "er = NoSpace" "free_clusters t = {}" "wv_reached v' = ?R" "?R < off + length data"
    and inv: "wr_inv s (slot_chain (disk s) i) sz off data (wv_first v') t cs (length cs)"
    using D by (auto simp: wr_done_def)
  note I = wr_invD [OF inv]
  have "set (slot_chain (disk s) i) \<inter> free_clusters s = {}" using wf_chain_used(2) [OF wf u] by auto
  then show "wv_reached v' = capacity s i"
    using grown_capacity(2) [OF I(1,2) _ F(2)] F(3) by (simp add: capacity_def)
  have szR: "sz \<le> ?R" using I(5) I(1) by (auto simp: grown_def)
  show nd: "n < length data" using F(3,4) n length_greater_0_conv [of data] data by linarith
  have P: "0 < n \<Longrightarrow> off + n < 2 ^ 32 \<and> off + n \<le> ?R" using F(3,4) off n by simp
  have Q: "length cs = length cs \<and> (0 < n \<longrightarrow> sz \<le> off + n) \<and> (n = 0 \<longrightarrow> sz \<le> off)"
    using szR F(3) n by auto
  have e: "stored_entry (dir_of i (disk s)) off (wv_first v') (wv_reached v')
      = (dir_of i (disk s))\<lparr>first_cluster := wv_first v', de_size := (if n > 0
          then of_nat (max sz (off + n)) else de_size (dir_of i (disk s)))\<rparr>"
    unfolding stored_entry_def n [symmetric] sz [symmetric] by (cases "n > 0") (auto simp: n)
  note C = write_commit [OF wf u sz inv data less_imp_le [OF nd] P _ Q e s']
  have "n \<noteq> length data" using nd by simp
  then show "wf_fs s'" "used (disk s') i" "SLOT_GENERATIONS s' = SLOT_GENERATIONS s"
    "fs_view (disk s') = (fs_view (disk s))(stored_name (dir_of i (disk s)) \<mapsto>
        (if n > 0 then overlay off (take n data) (content_of (disk s) (dir_of i (disk s)))
         else content_of (disk s) (dir_of i (disk s))))"
    using C by simp_all
qed (use D in \<open>auto simp: wr_done_def\<close>)

lemma write_at_cases:
  assumes wf: "wf_fs s" and h: "valid_handle s fid" and data: "data \<noteq> []"
    and i: "i = fid_slot fid" and old: "old = content_of (disk s) (dir_of i (disk s))"
    and off: "off = (case offset of None \<Rightarrow> length old | Some x \<Rightarrow> x)" "off + length data \<le> 2 ^ 32 - 1"
  obtains (all) s' where "write_at_unlocked fid offset data s = (Inr (off, length data), s')"
      "off + length data \<le> capacity s i" "wf_fs s'" "valid_handle s' fid"
      "fs_view (disk s') = (fs_view (disk s))(stored_name (dir_of i (disk s)) \<mapsto> overlay off data old)"
      "stored_name (dir_of i (disk s')) = stored_name (dir_of i (disk s))"
  | (some) s' n where "write_at_unlocked fid offset data s = (Inr (off, n), s')"
      "off + n = capacity s i" "0 < n" "n < length data" "wf_fs s'" "valid_handle s' fid"
      "fs_view (disk s') = (fs_view (disk s))(stored_name (dir_of i (disk s)) \<mapsto> overlay off (take n data) old)"
  | (none) s' where "write_at_unlocked fid offset data s = (Inl NoSpace, s')"
      "capacity s i \<le> off" "wf_fs s'" "valid_handle s' fid" "fs_view (disk s') = fs_view (disk s)"
proof -
  have u: "used (disk s) i" using h i by (simp add: valid_handle_def)
  define sz where "sz = unat (de_size (dir_of i (disk s)))"
  have "length old = sz" using wf_slot(2) [OF wf u]
    by (simp add: old content_of_used [OF u] sz_def min_absorb1)
  then have o: "off = (case offset of None \<Rightarrow> sz | Some x \<Rightarrow> x)" using off(1) by (cases offset) auto
  obtain r v' t cs where D: "wr_done s (slot_chain (disk s) i) sz off data r v' t cs"
    and w: "write_at_unlocked fid offset data s = (let s' = t\<lparr>disk := dir_put i
         (stored_entry (dir_of i (disk s)) off (wv_first v') (wv_reached v')) (disk t)\<rparr>
       in case r of Inr _ \<Rightarrow> (Inr (off, length data), s')
       | Inl er \<Rightarrow> if wv_reached v' - off > 0 then (Inr (off, wv_reached v' - off), s') else (Inl er, s'))"
    using write_at_run [OF wf u h i data sz_def o off(2)] by blast
  define s' where "s' = t\<lparr>disk := dir_put i
         (stored_entry (dir_of i (disk s)) off (wv_first v') (wv_reached v')) (disk t)\<rparr>"
  note w = w [folded s'_def, unfolded Let_def]
  have hs: "used (disk s') i \<Longrightarrow> SLOT_GENERATIONS s' = SLOT_GENERATIONS s \<Longrightarrow> valid_handle s' fid"
    using h i by (simp add: valid_handle_def)
  have nm: "stored_name (dir_of i (disk s')) = stored_name (dir_of i (disk s))"
    using u stored_entry_simps(1) [OF dir_of_fits [of i "disk s"]]
    by (simp add: s'_def used_def) (simp add: stored_entry_def stored_name_def)
  show thesis
  proof (cases r)
    case (Inr x)
    then have "wr_done s (slot_chain (disk s) i) sz off data (Inr ()) v' t cs" using D by simp
    note A = write_done_all [OF wf u data sz_def off(2) this s'_def]
    show thesis using all [of s'] A w Inr hs old nm by simp
  next
    case (Inl er)
    then have D: "wr_done s (slot_chain (disk s) i) sz off data (Inl er) v' t cs" using D by simp
    note A = write_done_some [OF wf u data sz_def off(2) this s'_def refl]
    have "fs_view (disk s) (stored_name (dir_of i (disk s))) = Some old"
      using used_lookup [OF wf_fsD(4) [OF wf] u] by (simp add: fs_view_def old)
    then have same: "(fs_view (disk s))(stored_name (dir_of i (disk s)) \<mapsto> old) = fs_view (disk s)" by auto
    show thesis
    proof (cases "wv_reached v' - off > 0")
      case True
      then show thesis using some [of "wv_reached v' - off" s'] A w Inl hs old by simp
    next
      case False
      then show thesis using none [of s'] A w Inl hs old same by simp
    qed
  qed
qed

section \<open>Opening\<close>

definition truncated :: "nat \<Rightarrow> fs_state \<Rightarrow> fs_state" where
  "truncated i s = s\<lparr>disk := fold (\<lambda>x. fat_put x FAT_ENTRY_FREE) (slot_chain (disk s) i)
     (dir_put i ((dir_of i (disk s))\<lparr>first_cluster := 0, de_size := 0\<rparr>) (disk s))\<rparr>"

lemma truncated_entry_fits: "entry_fits ((dir_of i d)\<lparr>first_cluster := 0, de_size := 0\<rparr>)"
  using dir_of_fits [of i d] by (simp add: entry_fits_def)

lemma truncate_run:
  assumes wf: "wf_fs s" and u: "used (disk s) i" and e: "e = dir_of i (disk s)"
  shows "bind (write_dir_entry_unlocked i (e\<lparr>first_cluster := 0, de_size := 0\<rparr>)) (\<lambda>_.
           if is_data_cluster (first_cluster e)
           then free_cluster_chain_unlocked (first_cluster e) else ret ()) s = (Inr (), truncated i s)"
proof -
  let ?e = "e\<lparr>first_cluster := 0, de_size := 0\<rparr>" and ?cs = "slot_chain (disk s) i"
  let ?s = "s\<lparr>disk := dir_put i ?e (disk s)\<rparr>"
  have ok: "chain_ok (dev ?s) (disk s) (first_cluster e) ?cs" using wf_slot(1) [OF wf u] e by simp
  have fits: "entry_fits ?e" unfolding e by (rule truncated_entry_fits)
  have w: "write_dir_entry_unlocked i ?e s = (Inr (), ?s)"
    using u fits wf_fsD(1) [OF wf] e by (simp add: used_def write_dir_ok retired_def)
  have "free_cluster_chain_unlocked (first_cluster e) ?s = (Inr (), truncated i s)"
    using free_chain_ok [OF _ ok] wf_fsD(1) [OF wf] chain_ok_cells [OF ok] fits
    by (simp add: truncated_def e)
  moreover have "?cs = []" if "\<not> is_data_cluster (first_cluster e)"
    using ok that is_chain_nil_iff by (auto simp: chain_ok_def)
  then have "\<not> is_data_cluster (first_cluster e) \<Longrightarrow> truncated i s = ?s" by (simp add: truncated_def e)
  ultimately show ?thesis using w by (simp add: bind_def)
qed

lemma truncated_view:
  assumes wf: "wf_fs s" and u: "used (disk s) i"
  shows "wf_fs (truncated i s)" "used (disk (truncated i s)) i"
    "fs_view (disk (truncated i s)) = (fs_view (disk s))(stored_name (dir_of i (disk s)) \<mapsto> [])"
    "SLOT_GENERATIONS (truncated i s) = SLOT_GENERATIONS s"
    "stored_name (dir_of i (disk (truncated i s))) = stored_name (dir_of i (disk s))"
proof -
  let ?e = "(dir_of i (disk s))\<lparr>first_cluster := 0, de_size := 0\<rparr>"
  let ?cs = "slot_chain (disk s) i" and ?d = "disk (truncated i s)"
  have i: "i < 256" and iu: "in_use ?e = 1" using u by (simp_all add: used_def)
  have fits: "entry_fits ?e" by (rule truncated_entry_fits)
  have cells: "\<forall>x\<in>set ?cs. fat_cell x" using wf_slot(1) [OF wf u] by (auto dest: chain_ok_cells)
  have nm: "stored_name ?e = stored_name (dir_of i (disk s))" by (simp add: stored_name_def)
  have dirs: "dir_of j ?d = (if j = i then ?e else dir_of j (disk s))" if "j < 256" for j
    using that i cells fits by (simp add: truncated_def)
  have fat: "fat_of x ?d = (if x \<in> set ?cs then 0 else fat_of x (disk s))" if "fat_cell x" for x
    using that cells fits by (simp add: truncated_def fat.rd_fold_wr)
  have cl: "cluster_of x ?d = cluster_of x (disk s)" for x
    using i cells fits by (simp add: truncated_def)
  have boot: "load 0 512 ?d = load 0 512 (disk s)" by (simp add: truncated_def)
  note R = release_slot [OF wf u fits _ dirs boot fat cl]
  show "wf_fs (truncated i s)"
    by (rule wf_fsI) (use R(1) nm wf_fsD [OF wf] in \<open>auto simp: truncated_def\<close>)
  show "fs_view ?d = (fs_view (disk s))(stored_name (dir_of i (disk s)) \<mapsto> [])"
    using R(2) nm iu by simp
  show "used ?d i" "stored_name (dir_of i ?d) = stored_name (dir_of i (disk s))"
    using dirs [OF i] i iu nm by (simp_all add: used_def)
qed (simp add: truncated_def)

lemma new_slot_view:
  assumes wf: "wf_fs s" and name: "length name \<le> 21" "0 \<notin> set name" "lookup name (disk s) = None"
    and i: "free_slot (disk s) = Some i" and s': "s' = s\<lparr>disk := dir_put i (new_entry name 0 0) (disk s)\<rparr>"
  shows "wf_fs s'" "used (disk s') i" "fs_view (disk s') = (fs_view (disk s))(name \<mapsto> [])"
    "stored_name (dir_of i (disk s')) = name"
proof -
  have i': "i < 256" "\<not> used (disk s) i" using free_slot_Some [OF i] by auto
  have g: "grown s (base_chain (disk s) i) s []" using i' by (simp add: base_chain_def grown_refl)
  have fits: "entry_fits (new_entry name 0 0)" and nm: "stored_name (new_entry name 0 0) = name"
    using name by (auto intro: new_entry_fits new_entry_name)
  have ok: "chain_ok (dev s) (disk s) (first_cluster (new_entry name 0 0)) []"
    by (simp add: chain_ok_Nil is_data_cluster_def)
  have other: "stored_name (dir_of j (disk s)) \<noteq> stored_name (new_entry name 0 0)" if "used (disk s) j" for j
    using used_lookup [OF wf_fsD(4) [OF wf] that] name(3) nm by auto
  note K = commit_slot [OF wf i'(1) g ok fits _ _ other]
  show "wf_fs s'" unfolding s' by (rule K(1)) simp_all
  show "fs_view (disk s') = (fs_view (disk s))(name \<mapsto> [])"
    using K(2) i' nm by (intro ext) (simp add: s')
  show "used (disk s') i" "stored_name (dir_of i (disk s')) = name"
    using i' fits nm by (simp_all add: s' used_def)
qed

lemma open_file_cases:
  assumes wf: "wf_fs s" and name: "name \<noteq> []" "length name \<le> 21" "0 \<notin> set name"
  obtains (missing) "open_file_unlocked name create trunc s = (Inl FileNotFound, s)"
      "fs_view (disk s) name = None" "\<not> create"
  | (full) "open_file_unlocked name create trunc s = (Inl NoSpace, s)"
      "fs_view (disk s) name = None" "create" "free_slot (disk s) = None"
  | (ok) s' fid where "open_file_unlocked name create trunc s = (Inr fid, s')" "wf_fs s'"
      "valid_handle s' fid" "stored_name (dir_of (fid_slot fid) (disk s')) = name"
      "fs_view (disk s') = (if trunc \<or> fs_view (disk s) name = None
         then (fs_view (disk s))(name \<mapsto> []) else fs_view (disk s))"
      "fs_view (disk s) name \<noteq> None \<or> create \<and> free_slot (disk s) \<noteq> None"
proof -
  note dv = wf_fsD(1,2) [OF wf]
  show thesis
  proof (cases "lookup name (disk s)")
    case None
    then have v: "fs_view (disk s) name = None" by (simp add: fs_view_def)
    show thesis
    proof (cases "free_slot (disk s)")
      case no: None
      show thesis using full missing v None no dv name
        by (cases create) (simp_all add: open_file_unlocked_def bind_def read_boot_ok find_file_ok
            find_free_slot_ok free_slot_def ok_or_def)
    next
      case (Some i)
      let ?s = "s\<lparr>disk := dir_put i (new_entry name 0 0) (disk s)\<rparr>"
      let ?fid = "\<lparr>fid_slot = i, fid_generation = SLOT_GENERATIONS s ! i\<rparr>"
      note N = new_slot_view [OF wf name(2,3) None Some refl]
      have "open_file_unlocked name create trunc s = (if create then (Inr ?fid, ?s) else (Inl FileNotFound, s))"
        using None Some dv name free_slot_Some [OF Some] new_entry_fits [OF name(2)]
        by (simp add: open_file_unlocked_def bind_def read_boot_ok find_file_ok find_free_slot_ok
            free_slot_def ok_or_def write_dir_ok retired_def file_id_unlocked_def)
      then show thesis using ok [of ?fid ?s] missing N v Some by (cases create) (simp_all add: valid_handle_def)
    qed
  next
    case (Some i)
    have u: "used (disk s) i" and nm: "stored_name (dir_of i (disk s)) = name" using lookup_used [OF Some] by auto
    let ?e = "dir_of i (disk s)" and ?fid = "\<lparr>fid_slot = i, fid_generation = SLOT_GENERATIONS s ! i\<rparr>"
    let ?t = "trunc \<and> (de_size ?e \<noteq> 0 \<or> first_cluster ?e \<noteq> 0)"
    note T = truncated_view [OF wf u]
    have v: "fs_view (disk s) name = Some (content_of (disk s) ?e)" using Some by (simp add: fs_view_def)
    have "content_of (disk s) ?e = []" if "de_size ?e = 0" using that by (simp add: content_of_def)
    then have same: "(fs_view (disk s))(name \<mapsto> []) = fs_view (disk s)" if "trunc" "\<not> ?t"
      using v that by auto
    have "open_file_unlocked name create trunc s = (Inr ?fid, if ?t then truncated i s else s)"
      unfolding open_file_unlocked_def using Some dv name truncate_run [OF wf u refl] T(4)
      by (cases ?t) (auto simp: bind_def read_boot_ok find_file_ok file_id_unlocked_def split: prod.splits sum.splits)
    then show thesis using ok [of ?fid "if ?t then truncated i s else s"] T v nm wf u same
      by (cases ?t) (auto simp: valid_handle_def)
  qed
qed

lemma open_entry_other:
  assumes "dev_ok (dev s)" "fid_slot fid < 256" "\<not> valid_handle s fid"
  shows "open_entry_unlocked fid s = (Inl FileNotFound, s)"
  using assms by (cases fid)
    (auto simp: open_entry_unlocked_def file_id_unlocked_def bind_def valid_handle_def used_def read_dir_ok)

section \<open>Listing\<close>

definition public_entry :: "(bytes \<Rightarrow> bytes) \<Rightarrow> FatDirEntry \<Rightarrow> PublicFileEntry" where
  "public_entry lossy e = \<lparr>pf_name = lossy (stored_name e), pf_size = unat (de_size e),
     pf_first_cluster = first_cluster e\<rparr>"

lemma list_loop_run:
  assumes "dev_ok (dev s)" "\<forall>i\<in>set is. i < 256"
  shows "list_loop lossy is s = (Inr (map (\<lambda>i. public_entry lossy (dir_of i (disk s)))
           (filter (used (disk s)) is)), s)"
  using assms by (induction "is") (auto simp: bind_def read_dir_ok used_def public_entry_def)

lemma list_files_run:
  assumes "wf_fs s"
  shows "list_files_unlocked lossy s = (Inr (map (\<lambda>i. public_entry lossy (dir_of i (disk s)))
           (filter (used (disk s)) [0..<256])), s)"
  using wf_fsD(1,2) [OF assms] list_loop_run [of s "[0..<256]" lossy]
  by (simp add: list_files_unlocked_def bind_def read_boot_ok)

end
