(* ===== verification/Fs_Properties.thy ===== *)
theory Fs_Properties
  imports Fs_Offset
begin

text \<open>
  The properties of the filesystem of \<^verbatim>\<open>src/src/fs.rs\<close>: every operation as an operation on
  the abstract view, errors included, stale handles, the invariant over sequences of calls,
  allocation and release of clusters, names and listing. Each property is instantiated
  on an example volume on the RAM disk.
\<close>

section \<open>Example volumes\<close>

definition blank_device :: fs_state where
  "blank_device = \<lparr>dev = RamDisk True, disk = (\<lambda>_. 0), SLOT_GENERATIONS = replicate 256 0\<rparr>"

definition fresh_volume :: fs_state where
  "fresh_volume = snd (format_unlocked blank_device)"

lemma format_view:
  assumes "dev_ok (dev s)" "length (SLOT_GENERATIONS s) = 256"
    and s': "s' = s\<lparr>disk := formatted_disk (dev s) (disk s),
                   SLOT_GENERATIONS := map (\<lambda>g. g + 1) (SLOT_GENERATIONS s)\<rparr>"
  shows "wf_fs s'" "fs_view (disk s') = Map.empty" "free_clusters s' = {c. valid_cluster (dev s) c}"
    "free_slot (disk s') = Some 0"
proof -
  note P = formatted_disk_props [where dv = "dev s" and d = "disk s"]
  have u: "\<not> used (disk s') i" for i using P(2) by (auto simp: s' used_def)
  show "wf_fs s'" using assms P(1) u by (simp add: wf_fs_def vol_ok_def s')
  have "lookup nm (disk s') = None" for nm using u lookup_used by (metis option.exhaust)
  then show "fs_view (disk s') = Map.empty" by (simp add: fs_view_def fun_eq_iff)
  show "free_clusters s' = {c. valid_cluster (dev s) c}"
    using P(3) by (auto simp: free_clusters_def s')
  show "free_slot (disk s') = Some 0"
    using P(2) [of 0] by (simp add: free_slot_def s' upt_conv_Cons)
qed

lemma card_valid_ram: "card {c. valid_cluster (RamDisk b) c} = 2037"
proof -
  have "{c. valid_cluster (RamDisk b) c} = of_nat ` {2..2038}" (is "?A = ?B")
  proof
    show "?A \<subseteq> ?B"
    proof
      fix c assume "c \<in> ?A"
      then have "unat c \<in> {2..2038}" by (auto simp: valid_cluster_def word_le_nat_alt)
      then have "of_nat (unat c) \<in> (of_nat ` {2..2038} :: u16 set)" by (rule imageI)
      then show "c \<in> ?B" by simp
    qed
    show "?B \<subseteq> ?A" by (auto simp: valid_cluster_def word_le_nat_alt unat_of_nat)
  qed
  moreover have "inj_on (of_nat :: nat \<Rightarrow> u16) {2..2038}"
  proof (rule inj_onI)
    fix x y assume xy: "x \<in> {2..2038::nat}" "y \<in> {2..2038}" "of_nat x = (of_nat y :: u16)"
    then have "unat (of_nat x :: u16) = unat (of_nat y :: u16)" by simp
    then show "x = y" using xy(1,2) by (simp add: unat_of_nat)
  qed
  ultimately show ?thesis by (simp add: card_image)
qed

lemma fresh_volume_props:
  "wf_fs fresh_volume" "fs_view (disk fresh_volume) = Map.empty"
  "card (free_clusters fresh_volume) = 2037" "free_slot (disk fresh_volume) = Some 0"
proof -
  have b: "dev_ok (dev blank_device)" "length (SLOT_GENERATIONS blank_device) = 256"
    by (simp_all add: blank_device_def)
  have f: "fresh_volume = blank_device\<lparr>disk := formatted_disk (dev blank_device) (disk blank_device),
     SLOT_GENERATIONS := map (\<lambda>g. g + 1) (SLOT_GENERATIONS blank_device)\<rparr>"
    unfolding fresh_volume_def format_run [OF b] by simp
  note V = format_view [OF b f]
  show "wf_fs fresh_volume" "fs_view (disk fresh_volume) = Map.empty"
    "free_slot (disk fresh_volume) = Some 0" by (fact V)+
  show "card (free_clusters fresh_volume) = 2037"
    unfolding V(3) by (simp add: blank_device_def card_valid_ram)
qed

text \<open>A volume with the file \<^verbatim>\<open>a\<close> holding three bytes, and a handle to it.\<close>

definition one_file :: fs_state where
  "one_file = snd (create_file_unlocked [97] [1, 2, 3] fresh_volume)"

lemma fresh_capacity:
  "free_slot (disk (cleared [97] fresh_volume)) \<noteq> None"
  "card (free_clusters (cleared [97] fresh_volume)) \<ge> 2037"
  using cleared_free_slot [OF fresh_volume_props(1)] cleared_free_clusters(2) [OF fresh_volume_props(1)]
    fresh_volume_props(3,4) by auto

lemma one_file_props:
  "wf_fs one_file" "fs_view (disk one_file) = [[97] \<mapsto> [1, 2, 3]]"
  "create_file_unlocked [97] [1, 2, 3] fresh_volume = (Inr (), one_file)"
proof -
  have "clusters_needed [1, 2, 3] = 1" by (simp add: clusters_needed_def)
  then show "wf_fs one_file" "fs_view (disk one_file) = [[97] \<mapsto> [1, 2, 3]]"
    "create_file_unlocked [97] [1, 2, 3] fresh_volume = (Inr (), one_file)"
    using create_file_cases [OF fresh_volume_props(1), of "[97]" "[1, 2, 3]"] fresh_capacity
    by (fastforce simp: one_file_def fresh_volume_props(2))+
qed

section \<open>Creating, reading and deleting whole files\<close>

text \<open>C1. Creating a file on a well-formed volume, when a directory slot and enough clusters are
  free (those of a file it replaces count as free), succeeds, keeps the volume well formed
  and is a map update of the abstract view: the name now has exactly the data, every other
  file keeps its contents.\<close>

theorem create_file_refines:
  assumes "wf_fs s" "name \<noteq> []" "length name \<le> 21" "0 \<notin> set name"
    and "lookup name (disk s) \<noteq> None \<or> free_slot (disk s) \<noteq> None"
    and "clusters_needed data \<le> card (free_clusters s) + length (old_chain name (disk s))"
  shows "\<exists>s'. create_file_unlocked name data s = (Inr (), s') \<and> wf_fs s'
           \<and> fs_view (disk s') = (fs_view (disk s))(name \<mapsto> data)"
  using assms(5,6) cleared_free_slot [OF assms(1), of name] cleared_free_clusters(2) [OF assms(1), of name]
  by (cases rule: create_file_cases [OF assms(1-4), of data]) auto

theorem create_file_refines_witness:
  "\<exists>s'. create_file_unlocked [97] [1, 2, 3] fresh_volume = (Inr (), s') \<and> wf_fs s'
     \<and> fs_view (disk s') = (fs_view (disk fresh_volume))([97] \<mapsto> [1, 2, 3])"
  by (rule create_file_refines) (simp_all add: fresh_volume_props clusters_needed_def)

text \<open>C11. Creating a file larger than the free space (those of the replaced file included) reports
  NoSpace, but only after the previous file of that name was deleted and every free
  cluster of the volume was taken by a chain no directory entry refers to.\<close>

theorem create_file_full:
  assumes "wf_fs s" "name \<noteq> []" "length name \<le> 21" "0 \<notin> set name"
    and "lookup name (disk s) \<noteq> None \<or> free_slot (disk s) \<noteq> None"
    and "card (free_clusters s) + length (old_chain name (disk s)) < clusters_needed data"
  shows "\<exists>s'. create_file_unlocked name data s = (Inl NoSpace, s') \<and> wf_fs s'
           \<and> fs_view (disk s') = (fs_view (disk s))(name := None) \<and> free_clusters s' = {}"
  using assms(5,6) cleared_free_slot [OF assms(1), of name] cleared_free_clusters(2) [OF assms(1), of name]
  by (cases rule: create_file_cases [OF assms(1-4), of data]) auto

theorem create_file_full_witness:
  "\<exists>s'. create_file_unlocked [98] (replicate 10000000 7) fresh_volume = (Inl NoSpace, s') \<and> wf_fs s'
     \<and> fs_view (disk s') = (fs_view (disk fresh_volume))([98] := None) \<and> free_clusters s' = {}"
proof -
  have "lookup [98] (disk fresh_volume) = None"
    using fun_cong [OF fresh_volume_props(2), of "[98]"] by (simp add: fs_view_def)
  then show ?thesis
    by (intro create_file_full) (simp_all add: fresh_volume_props clusters_needed_def old_chain_def)
qed

text \<open>C7. Reading a whole file of a well-formed volume returns exactly the bytes of the abstract
  view, and FileNotFound when the view has no such name; the volume is not changed.\<close>

theorem read_file_refines:
  assumes "wf_fs s" "name \<noteq> []" "length name \<le> 21"
  shows "read_file_unlocked name s =
    (case fs_view (disk s) name of None \<Rightarrow> (Inl FileNotFound, s) | Some bs \<Rightarrow> (Inr bs, s))"
  by (rule read_file_run [OF assms])

theorem read_file_refines_witness: "read_file_unlocked [97] one_file = (Inr [1, 2, 3], one_file)"
  by (subst read_file_refines) (simp_all add: one_file_props)

text \<open>C6. Deleting an existing file removes its name from the abstract view, keeps the volume well
  formed and returns every cluster of its chain to the free ones; deleting a missing file
  reports FileNotFound and changes nothing.\<close>

theorem delete_file_refines:
  assumes "wf_fs s" "name \<noteq> []" "length name \<le> 21"
  shows "if fs_view (disk s) name = None then delete_file_unlocked name s = (Inl FileNotFound, s)
    else \<exists>s'. delete_file_unlocked name s = (Inr (), s') \<and> wf_fs s'
      \<and> fs_view (disk s') = (fs_view (disk s))(name := None)
      \<and> free_clusters s' = free_clusters s \<union> set (old_chain name (disk s))"
  using delete_file_run [OF assms] removed_view(1-3) [OF assms(1)] lookup_used [of name "disk s"]
  by (cases "lookup name (disk s)") (auto simp: fs_view_def [of _ name] old_chain_def)

theorem delete_file_refines_witness:
  "if fs_view (disk one_file) [97] = None then delete_file_unlocked [97] one_file = (Inl FileNotFound, one_file)
    else \<exists>s'. delete_file_unlocked [97] one_file = (Inr (), s') \<and> wf_fs s'
      \<and> fs_view (disk s') = (fs_view (disk one_file))([97] := None)
      \<and> free_clusters s' = free_clusters one_file \<union> set (old_chain [97] (disk one_file))"
  by (rule delete_file_refines) (simp_all add: one_file_props)

text \<open>C10. Formatting any medium of a ready device gives a well-formed volume without files, on which
  every cluster the device can hold is free, and advances every slot generation, so no
  handle of the old volume stays valid.\<close>

theorem format_refines:
  assumes "dev_ok (dev s)" "length (SLOT_GENERATIONS s) = 256"
  shows "\<exists>s'. format_unlocked s = (Inr (), s') \<and> wf_fs s' \<and> fs_view (disk s') = Map.empty
    \<and> free_clusters s' = {c. valid_cluster (dev s) c}
    \<and> BootSector_read (load 0 512 (disk s')) = boot_record (dev s)
    \<and> SLOT_GENERATIONS s' = map (\<lambda>g. g + 1) (SLOT_GENERATIONS s)"
  using format_run [OF assms] format_view [OF assms refl]
    formatted_disk_props(4) [of "dev s" "disk s"] by simp

theorem format_refines_witness:
  "\<exists>s'. format_unlocked blank_device = (Inr (), s') \<and> wf_fs s' \<and> fs_view (disk s') = Map.empty
    \<and> free_clusters s' = {c. valid_cluster (dev blank_device) c}
    \<and> BootSector_read (load 0 512 (disk s')) = boot_record (dev blank_device)
    \<and> SLOT_GENERATIONS s' = map (\<lambda>g. g + 1) (SLOT_GENERATIONS blank_device)"
  by (rule format_refines) (simp_all add: blank_device_def)

section \<open>Handles and offsets\<close>

lemma one_file_slot:
  obtains i where "used (disk one_file) i" "stored_name (dir_of i (disk one_file)) = [97]"
    "content_of (disk one_file) (dir_of i (disk one_file)) = [1, 2, 3]" "i < 256"
  using fun_cong [OF one_file_props(2), of "[97]"] fs_view_iff [OF wf_fsD(4) [OF one_file_props(1)]]
  by (auto simp: used_def)

definition one_handle :: FileId where
  "one_handle = (case lookup [97] (disk one_file) of None \<Rightarrow> \<lparr>fid_slot = 0, fid_generation = 0\<rparr>
     | Some i \<Rightarrow> \<lparr>fid_slot = i, fid_generation = SLOT_GENERATIONS one_file ! i\<rparr>)"

lemma one_handle_props:
  "valid_handle one_file one_handle" "stored_name (dir_of (fid_slot one_handle) (disk one_file)) = [97]"
  "content_of (disk one_file) (dir_of (fid_slot one_handle) (disk one_file)) = [1, 2, 3]"
proof -
  obtain i where i: "used (disk one_file) i" "stored_name (dir_of i (disk one_file)) = [97]"
    "content_of (disk one_file) (dir_of i (disk one_file)) = [1, 2, 3]" by (rule one_file_slot)
  then have "lookup [97] (disk one_file) = Some i"
    using used_lookup [OF wf_fsD(4) [OF one_file_props(1)] i(1)] by simp
  then show "valid_handle one_file one_handle"
    "stored_name (dir_of (fid_slot one_handle) (disk one_file)) = [97]"
    "content_of (disk one_file) (dir_of (fid_slot one_handle) (disk one_file)) = [1, 2, 3]"
    using i by (simp_all add: one_handle_def valid_handle_def)
qed

text \<open>C5. Reading through a valid handle returns the window of the file's contents from the offset,
  as many bytes as the buffer takes and the file has, and leaves the volume alone.\<close>

theorem read_at_window:
  assumes "wf_fs s" "valid_handle s fid"
  shows "read_at_unlocked fid offset buf_len s =
    (Inr (take buf_len (drop offset (content_of (disk s) (dir_of (fid_slot fid) (disk s))))), s)"
  by (rule read_at_run [OF assms])

theorem read_at_window_witness: "read_at_unlocked one_handle 1 5 one_file = (Inr [2, 3], one_file)"
  by (subst read_at_window) (simp_all add: one_file_props one_handle_props)

text \<open>C2. Writing through a valid handle, when the end stays below 4 GiB and within what the file can
  hold with all free clusters, stores every byte: the contents become the old ones overlaid
  with the data at the offset (at the end when none is given), a gap after the old end
  reads as zeros, no other file changes and the handle stays valid.\<close>

theorem write_at_refines:
  assumes "wf_fs s" "valid_handle s fid" "data \<noteq> []"
    and "i = fid_slot fid" "old = content_of (disk s) (dir_of i (disk s))"
    and "off = (case offset of None \<Rightarrow> length old | Some x \<Rightarrow> x)"
    and "off + length data \<le> 2 ^ 32 - 1" "off + length data \<le> capacity s i"
  shows "\<exists>s'. write_at_unlocked fid offset data s = (Inr (off, length data), s') \<and> wf_fs s'
    \<and> valid_handle s' fid
    \<and> fs_view (disk s') = (fs_view (disk s))(stored_name (dir_of i (disk s)) \<mapsto> overlay off data old)"
  using assms(3,8) length_greater_0_conv [of data]
  by (cases rule: write_at_cases [OF assms(1-7)]) (auto simp del: length_greater_0_conv)

lemma one_capacity: "off \<le> 4096 \<Longrightarrow> off \<le> capacity one_file (fid_slot one_handle)"
proof -
  let ?i = "fid_slot one_handle"
  have u: "used (disk one_file) ?i" using one_handle_props(1) by (simp add: valid_handle_def)
  have "length (slot_chain (disk one_file) ?i) > 0"
    using one_handle_props(3) content_of_used [OF u] by fastforce
  then have "4096 * 1 \<le> capacity one_file ?i" unfolding capacity_def by (intro mult_le_mono2) linarith
  then show "off \<le> 4096 \<Longrightarrow> off \<le> capacity one_file ?i" by simp
qed

theorem write_at_refines_witness:
  "\<exists>s'. write_at_unlocked one_handle (Some 5) [9, 8] one_file = (Inr (5, 2), s') \<and> wf_fs s'
    \<and> valid_handle s' one_handle \<and> fs_view (disk s') = [[97] \<mapsto> [1, 2, 3, 0, 0, 9, 8]]"
proof -
  have ov: "overlay 5 [9, 8] [1, 2, 3] = [1, 2, 3, 0, 0, 9, 8]" by (simp add: overlay_def numeral_2_eq_2)
  show ?thesis
    using write_at_refines [OF one_file_props(1) one_handle_props(1), of "[9, 8]", OF _ refl refl refl, of "Some 5"]
      one_capacity [of 7] by (simp add: ov one_handle_props one_file_props flip: numeral_2_eq_2)
qed

text \<open>C3. A write that needs more clusters than are free stores the bytes that fit and returns their
  number; when not even the first byte fits it reports NoSpace and every file, this one
  included, reads as before. The volume stays well formed and the handle valid.\<close>

theorem write_at_short:
  assumes "wf_fs s" "valid_handle s fid" "data \<noteq> []"
    and "i = fid_slot fid" "old = content_of (disk s) (dir_of i (disk s))"
    and "off = (case offset of None \<Rightarrow> length old | Some x \<Rightarrow> x)"
    and "off + length data \<le> 2 ^ 32 - 1" "capacity s i < off + length data"
  shows "\<exists>s'. wf_fs s' \<and> valid_handle s' fid \<and>
    (if capacity s i \<le> off
     then write_at_unlocked fid offset data s = (Inl NoSpace, s') \<and> fs_view (disk s') = fs_view (disk s)
     else write_at_unlocked fid offset data s = (Inr (off, capacity s i - off), s')
       \<and> fs_view (disk s') = (fs_view (disk s))(stored_name (dir_of i (disk s)) \<mapsto>
           overlay off (take (capacity s i - off) data) old))"
proof (cases rule: write_at_cases [OF assms(1-7)])
  case (1 s')
  then show ?thesis using assms(8) by simp
next
  case (2 s' n)
  then have "capacity s i - off = n" by simp
  then show ?thesis using 2 by auto
next
  case (3 s')
  then show ?thesis by auto
qed

lemma capacity_bound:
  assumes wf: "wf_fs s" and u: "used (disk s) i"
  shows "capacity s i \<le> 4096 * 65536"
proof -
  let ?cs = "slot_chain (disk s) i"
  have d: "set ?cs \<inter> free_clusters s = {}" "distinct ?cs"
    using wf_chain_used(2) [OF wf u] wf_slot(1) [OF wf u] by (auto simp: chain_ok_def)
  have "length ?cs + card (free_clusters s) = card (set ?cs \<union> free_clusters s)"
    using d by (simp add: card_Un_disjoint distinct_card)
  also have "\<dots> \<le> card (UNIV :: u16 set)" by (rule card_mono) auto
  finally show ?thesis by (simp add: capacity_def card_word)
qed

theorem write_at_short_witness:
  "\<exists>s'. wf_fs s' \<and> valid_handle s' one_handle
     \<and> write_at_unlocked one_handle (Some 300000000) [9] one_file = (Inl NoSpace, s')
     \<and> fs_view (disk s') = fs_view (disk one_file)"
proof -
  have "used (disk one_file) (fid_slot one_handle)" using one_handle_props(1) by (simp add: valid_handle_def)
  then have "capacity one_file (fid_slot one_handle) \<le> 4096 * 65536"
    by (rule capacity_bound [OF one_file_props(1)])
  then show ?thesis
    using write_at_short [OF one_file_props(1) one_handle_props(1), of "[9]", OF _ refl refl refl, of "Some 300000000"]
    by simp
qed

text \<open>C8. Opening a name on a well-formed volume: a missing file is FileNotFound unless it is to be
  created, then NoSpace when the directory is full; otherwise the result is a valid handle
  to the slot of that name, and the view changes only by the empty contents a new or
  truncated file gets.\<close>

theorem open_file_refines:
  assumes "wf_fs s" "name \<noteq> []" "length name \<le> 21" "0 \<notin> set name"
  shows "if fs_view (disk s) name = None \<and> \<not> create
    then open_file_unlocked name create trunc s = (Inl FileNotFound, s)
    else if fs_view (disk s) name = None \<and> free_slot (disk s) = None
    then open_file_unlocked name create trunc s = (Inl NoSpace, s)
    else \<exists>s' fid. open_file_unlocked name create trunc s = (Inr fid, s') \<and> wf_fs s' \<and> valid_handle s' fid
      \<and> stored_name (dir_of (fid_slot fid) (disk s')) = name
      \<and> fs_view (disk s') = (if trunc \<or> fs_view (disk s) name = None
           then (fs_view (disk s))(name \<mapsto> []) else fs_view (disk s))"
proof (cases rule: open_file_cases [OF assms, of create trunc])
  case (3 s' fid)
  then show ?thesis by (auto simp del: fun_upd_apply)
qed simp_all

theorem open_file_refines_witness:
  "\<exists>s' fid. open_file_unlocked [98] True False fresh_volume = (Inr fid, s') \<and> wf_fs s' \<and> valid_handle s' fid
      \<and> stored_name (dir_of (fid_slot fid) (disk s')) = [98] \<and> fs_view (disk s') = [[98] \<mapsto> []]"
  using open_file_refines [OF fresh_volume_props(1), of "[98]" True False]
  by (simp add: fresh_volume_props)

text \<open>C9. Handles go stale with their file: once the file is deleted, or replaced by creating a file
  of the same name, every access through a handle that was valid for it reports
  FileNotFound, whatever the slot holds by then.\<close>

theorem stale_handle_rejected:
  assumes "wf_fs s" "name \<noteq> []" "length name \<le> 21" "0 \<notin> set name" "valid_handle s fid"
    and "stored_name (dir_of (fid_slot fid) (disk s)) = name"
    and "delete_file_unlocked name s = (Inr (), s') \<or> create_file_unlocked name data s = (Inr (), s')"
  shows "read_at_unlocked fid off n s' = (Inl FileNotFound, s')
    \<and> write_at_unlocked fid off' bs s' = (Inl FileNotFound, s')
    \<and> file_size_unlocked fid s' = (Inl FileNotFound, s')"
proof -
  have u: "used (disk s) (fid_slot fid)" and g: "fid_generation fid = SLOT_GENERATIONS s ! fid_slot fid"
    using assms(5) by (auto simp: valid_handle_def)
  have l: "lookup name (disk s) = Some (fid_slot fid)"
    using used_lookup [OF wf_fsD(4) [OF assms(1)] u] assms(6) by simp
  have stale: "fid_generation fid \<noteq> SLOT_GENERATIONS (removed (fid_slot fid) s) ! fid_slot fid"
    using g u wf_fsD(3) [OF assms(1)] by (simp add: removed_def used_def)
  from assms(7) have "SLOT_GENERATIONS s' = SLOT_GENERATIONS (removed (fid_slot fid) s)"
  proof
    assume "delete_file_unlocked name s = (Inr (), s')"
    then show ?thesis using delete_file_run [OF assms(1-3)] l by simp
  next
    assume "create_file_unlocked name data s = (Inr (), s')"
    then show ?thesis using l
      by (cases rule: create_file_cases [OF assms(1-4), of data]) (auto simp: cleared_def)
  qed
  then have "open_entry_unlocked fid s' = (Inl FileNotFound, s')"
    using stale by (simp add: open_entry_stale)
  then show ?thesis
    by (simp add: read_at_unlocked_def write_at_unlocked_def file_size_unlocked_def bind_def)
qed

theorem stale_handle_rejected_witness:
  "\<exists>s'. delete_file_unlocked [97] one_file = (Inr (), s')
     \<and> read_at_unlocked one_handle 0 3 s' = (Inl FileNotFound, s')
     \<and> write_at_unlocked one_handle None [4] s' = (Inl FileNotFound, s')
     \<and> file_size_unlocked one_handle s' = (Inl FileNotFound, s')"
proof -
  have "lookup [97] (disk one_file) \<noteq> None"
    using fun_cong [OF one_file_props(2), of "[97]"] by (auto simp: fs_view_def)
  then obtain s' where "delete_file_unlocked [97] one_file = (Inr (), s')"
    using delete_file_run [OF one_file_props(1), of "[97]"] by auto
  then show ?thesis
    using stale_handle_rejected [OF one_file_props(1) _ _ _ one_handle_props(1,2), of s'] by auto
qed

section \<open>Sequences of operations\<close>

text \<open>The calls of the filesystem, with names free of NUL bytes and handles of the directory's range.\<close>

datatype fs_call =
    Format
  | Create bytes bytes
  | Delete bytes
  | Open bytes bool bool
  | Read bytes
  | ReadAt FileId nat nat
  | WriteAt FileId "nat option" bytes

fun call_ok :: "fs_call \<Rightarrow> bool" where
  "call_ok (Create name _) \<longleftrightarrow> 0 \<notin> set name"
| "call_ok (Open name _ _) \<longleftrightarrow> 0 \<notin> set name"
| "call_ok (ReadAt fid _ _) \<longleftrightarrow> fid_slot fid < 256"
| "call_ok (WriteAt fid _ _) \<longleftrightarrow> fid_slot fid < 256"
| "call_ok _ \<longleftrightarrow> True"

fun call_state :: "fs_call \<Rightarrow> fs_state \<Rightarrow> fs_state" where
  "call_state Format s = snd (format_unlocked s)"
| "call_state (Create name data) s = snd (create_file_unlocked name data s)"
| "call_state (Delete name) s = snd (delete_file_unlocked name s)"
| "call_state (Open name create trunc) s = snd (open_file_unlocked name create trunc s)"
| "call_state (Read name) s = snd (read_file_unlocked name s)"
| "call_state (ReadAt fid off n) s = snd (read_at_unlocked fid off n s)"
| "call_state (WriteAt fid off data) s = snd (write_at_unlocked fid off data s)"

inductive fs_reach :: "fs_state \<Rightarrow> bool" where
  formatted: "dev_ok (dev s) \<Longrightarrow> length (SLOT_GENERATIONS s) = 256 \<Longrightarrow> fs_reach (call_state Format s)"
| call: "fs_reach s \<Longrightarrow> call_ok c \<Longrightarrow> fs_reach (call_state c s)"

lemma bad_name_no_effect:
  assumes "wf_fs s" "name = [] \<or> length name > 21"
  shows "snd (create_file_unlocked name data s) = s" "snd (delete_file_unlocked name s) = s"
    "snd (open_file_unlocked name c t s) = s" "snd (read_file_unlocked name s) = s"
  using assms wf_fsD(1,2) [OF assms(1)]
  by (auto simp: create_file_unlocked_def delete_file_unlocked_def open_file_unlocked_def
      read_file_unlocked_def find_file_unlocked_def bind_def read_boot_ok)

lemma write_at_wf:
  assumes wf: "wf_fs s" and slot: "fid_slot fid < 256"
  shows "wf_fs (snd (write_at_unlocked fid offset data s))"
proof (cases "valid_handle s fid")
  case False
  then show ?thesis using open_entry_other [OF wf_fsD(1) [OF wf] slot] wf
    by (simp add: write_at_unlocked_def bind_def)
next
  case h: True
  let ?e = "dir_of (fid_slot fid) (disk s)"
  let ?off = "case offset of None \<Rightarrow> length (content_of (disk s) ?e) | Some x \<Rightarrow> x"
  have u: "used (disk s) (fid_slot fid)" using h by (simp add: valid_handle_def)
  have len: "length (content_of (disk s) ?e) = unat (de_size ?e)"
    using wf_slot(2) [OF wf u] by (simp add: content_of_used [OF u] min_absorb1)
  show ?thesis
  proof (cases "data \<noteq> [] \<and> ?off + length data \<le> 2 ^ 32 - 1")
    case True
    then show ?thesis
      by (cases rule: write_at_cases [OF wf h _ refl refl refl, of data offset]) auto
  next
    case False
    then have "snd (write_at_unlocked fid offset data s) = s"
      using open_entry_ok [OF wf_fsD(1) [OF wf] h] len
      by (auto simp: write_at_unlocked_def bind_def Let_def split: option.splits)
    then show ?thesis using wf by simp
  qed
qed

lemma read_at_state:
  assumes "wf_fs s" "fid_slot fid < 256"
  shows "snd (read_at_unlocked fid off n s) = s"
  using read_at_run [OF assms(1), of fid] open_entry_other [OF wf_fsD(1) [OF assms(1)] assms(2)]
  by (cases "valid_handle s fid") (auto simp: read_at_unlocked_def bind_def)

lemma call_wf:
  assumes wf: "wf_fs s" and ok: "call_ok c"
  shows "wf_fs (call_state c s)"
proof (cases c)
  case Format
  then show ?thesis using format_run [OF wf_fsD(1,3) [OF wf]] format_view(1) [OF wf_fsD(1,3) [OF wf] refl] by simp
next
  case (Create name data)
  then have n: "0 \<notin> set name" using ok by simp
  show ?thesis unfolding Create call_state.simps
  proof (cases "name \<noteq> [] \<and> length name \<le> 21")
    case True
    then have v: "name \<noteq> []" "length name \<le> 21" by auto
    show "wf_fs (snd (create_file_unlocked name data s))"
      by (cases rule: create_file_cases [OF wf v n, of data]) (use cleared_view(1) [OF wf] in auto)
  qed (use bad_name_no_effect(1) [OF wf] wf in auto)
next
  case (Delete name)
  show ?thesis unfolding Delete call_state.simps
  proof (cases "name \<noteq> [] \<and> length name \<le> 21")
    case True
    then show "wf_fs (snd (delete_file_unlocked name s))"
      using delete_file_run [OF wf, of name] removed_view(1) [OF wf] lookup_used wf
      by (auto split: option.split)
  qed (use bad_name_no_effect(2) [OF wf] wf in auto)
next
  case (Open name create trunc)
  then have n: "0 \<notin> set name" using ok by simp
  show ?thesis unfolding Open call_state.simps
  proof (cases "name \<noteq> [] \<and> length name \<le> 21")
    case True
    then have v: "name \<noteq> []" "length name \<le> 21" by auto
    show "wf_fs (snd (open_file_unlocked name create trunc s))"
      by (cases rule: open_file_cases [OF wf v n, of create trunc]) (use wf in auto)
  qed (use bad_name_no_effect(3) [OF wf] wf in auto)
next
  case (Read name)
  show ?thesis unfolding Read call_state.simps
  proof (cases "name \<noteq> [] \<and> length name \<le> 21")
    case True
    then show "wf_fs (snd (read_file_unlocked name s))"
      using read_file_run [OF wf, of name] wf by (auto split: option.split)
  qed (use bad_name_no_effect(4) [OF wf] wf in auto)
qed (use write_at_wf [OF wf] read_at_state [OF wf] ok wf in auto)



section \<open>Allocation and release\<close>

lemma cluster_range_less:
  assumes "i < j" "j < length (cluster_range d)"
  shows "cluster_range d ! i < cluster_range d ! j"
proof -
  have m: "unat (max_cluster d) < 65536" using max_cluster_le [of d] by (simp add: word_le_nat_alt)
  have *: "unat (cluster_range d ! k) = 2 + k" if "k < length (cluster_range d)" for k
  proof -
    have "2 + k < 2 ^ LENGTH(16)" using that m by (simp add: cluster_range_def del: upt_Suc)
    then have "unat (of_nat (2 + k) :: u16) = 2 + k" by (rule unat_of_nat_small)
    moreover have "cluster_range d ! k = of_nat (2 + k)"
      using that by (simp add: cluster_range_def del: upt_Suc of_nat_add)
    ultimately show ?thesis by simp
  qed
  then show ?thesis using * [of i] * [of j] assms by (simp add: word_less_nat_alt)
qed

text \<open>C12. Allocation hands out the lowest free cluster of the volume and marks it as the end of a
  chain, changing nothing else; it reports NoSpace exactly when no cluster is free.\<close>

theorem alloc_cluster_lowest:
  assumes "dev_ok (dev s)"
  shows "alloc_cluster_unlocked s =
    (if free_clusters s = {} then (Inl NoSpace, s)
     else (Inr (Min (free_clusters s)),
           s\<lparr>disk := fat_put (Min (free_clusters s)) FAT_ENTRY_EOC (disk s)\<rparr>))"
proof -
  let ?P = "\<lambda>c. fat_of c (disk s) = FAT_ENTRY_FREE" and ?r = "cluster_range (dev s)"
  have run: "alloc_cluster_unlocked s = (case find ?P ?r of None \<Rightarrow> (Inl NoSpace, s)
         | Some c \<Rightarrow> (Inr c, s\<lparr>disk := fat_put c FAT_ENTRY_EOC (disk s)\<rparr>))"
    using assms by (auto simp: alloc_cluster_unlocked_def bind_def set_cluster_range intro!: alloc_loop_find)
  have free: "c \<in> free_clusters s \<longleftrightarrow> (\<exists>j<length ?r. c = ?r ! j \<and> ?P c)" for c
  proof -
    have "valid_cluster (dev s) c \<longleftrightarrow> c \<in> set ?r" by (simp add: set_cluster_range)
    then show ?thesis by (auto simp: free_clusters_def in_set_conv_nth)
  qed
  show ?thesis
  proof (cases "find ?P ?r")
    case None
    then have "free_clusters s = {}" by (auto simp: find_None_iff free_clusters_def set_cluster_range)
    then show ?thesis using None run by simp
  next
    case (Some c)
    then obtain i where i: "i < length ?r" "c = ?r ! i" "?P c" "\<forall>j<i. \<not> ?P (?r ! j)"
      by (auto simp: find_Some_iff)
    then have c: "c \<in> free_clusters s" by (intro iffD2 [OF free]) blast
    have le: "c \<le> c'" if c': "c' \<in> free_clusters s" for c'
    proof -
      obtain j where j: "j < length ?r" "c' = ?r ! j" "?P c'" using iffD1 [OF free c'] by blast
      then have "\<not> j < i" using i(4) by blast
      then show ?thesis using cluster_range_less [of i j "dev s"] i(2) j by (cases "i = j") auto
    qed
    have "Min (free_clusters s) = c" by (rule Min_eqI [OF finite_free_clusters le c])
    then show ?thesis using run Some c by auto
  qed
qed

theorem alloc_cluster_lowest_witness:
  "alloc_cluster_unlocked fresh_volume =
     (Inr (Min (free_clusters fresh_volume)), fresh_volume\<lparr>disk :=
        fat_put (Min (free_clusters fresh_volume)) FAT_ENTRY_EOC (disk fresh_volume)\<rparr>)"
proof -
  have "free_clusters fresh_volume \<noteq> {}" using fresh_volume_props(3) by auto
  then show ?thesis
    using alloc_cluster_lowest [OF wf_fsD(1) [OF fresh_volume_props(1)]] by simp
qed


text \<open>A table whose cluster 5 is linked to itself.\<close>

definition cyclic_table :: fs_state where
  "cyclic_table = blank_device\<lparr>disk := fat_put 5 5 (\<lambda>_. 0)\<rparr>"

lemma blank_fat: "fat_of c (\<lambda>_. 0) = 0"
proof -
  have "load a n (\<lambda>_. 0) = replicate n 0" for a n by (simp add: load_def map_replicate_const)
  then have "fat_of c (\<lambda>_. 0) = from_le (replicate 2 0)" by (simp only: fat_of_def)
  also have "\<dots> = 0" by (simp add: from_le.simps numeral_2_eq_2)
  finally show ?thesis .
qed


section \<open>Names and listing\<close>

lemma name_len_nonzero: "0 \<notin> set (take (name_len xs) xs)"
  by (induction xs) auto





end
