(* ===== verification/Pipe.thy ===== *)
theory Pipe
  imports Kaguya_Prelude
begin

text \<open>
  Anonymous pipes, \<^verbatim>\<open>src/src/pipe.rs\<close>: the bounded ring and its reader and writer counts, the
  critical sections of \<^verbatim>\<open>read\<close>, \<^verbatim>\<open>write\<close>, \<^verbatim>\<open>clone\<close> and \<^verbatim>\<open>drop\<close>, and any number of threads that
  interleave between them, with the generation protocol that keeps wakeups from being lost.
\<close>

section \<open>The ring and its critical sections\<close>

abbreviation (input) CAPACITY :: nat where "CAPACITY \<equiv> 4096"

record pipe_state =
  buf :: bytes
  readers :: nat
  writers :: nat

definition pipe_new :: pipe_state where
  "pipe_new = \<lparr>buf = [], readers = 1, writers = 1\<rparr>"

text \<open>What the locked part of one pass of \<^verbatim>\<open>Pipe::read\<close> decides.\<close>

datatype read_pass = ReadGot bytes | ReadEof | ReadWait

definition pipe_read_pass :: "nat \<Rightarrow> pipe_state \<Rightarrow> read_pass \<times> pipe_state" where
  "pipe_read_pass len s =
     (if buf s \<noteq> [] then
        let n = min len (length (buf s))
        in (ReadGot (take n (buf s)), s\<lparr>buf := drop n (buf s)\<rparr>)
      else if writers s = 0 then (ReadEof, s)
      else (ReadWait, s))"

text \<open>The locked part of one pass of \<^verbatim>\<open>Pipe::write\<close>; \<open>written\<close> bytes are queued already.\<close>

datatype write_pass = WriteBroken | WriteQueued nat

definition pipe_write_pass :: "bytes \<Rightarrow> nat \<Rightarrow> pipe_state \<Rightarrow> write_pass \<times> pipe_state" where
  "pipe_write_pass data written s =
     (if readers s = 0 then (WriteBroken, s)
      else let n = min (CAPACITY - length (buf s)) (length data - written)
        in (WriteQueued n, s\<lparr>buf := buf s @ slice_of written (written + n) data\<rparr>))"

definition clone_reader :: "pipe_state \<Rightarrow> pipe_state" where
  "clone_reader s = s\<lparr>readers := readers s + 1\<rparr>"

definition clone_writer :: "pipe_state \<Rightarrow> pipe_state" where
  "clone_writer s = s\<lparr>writers := writers s + 1\<rparr>"

text \<open>Dropping an end: the flag says that it was the last one, whose drop wakes the other side.\<close>

definition drop_reader :: "pipe_state \<Rightarrow> bool \<times> pipe_state" where
  "drop_reader s = (let s' = s\<lparr>readers := readers s - 1\<rparr> in (readers s' = 0, s'))"

definition drop_writer :: "pipe_state \<Rightarrow> bool \<times> pipe_state" where
  "drop_writer s = (let s' = s\<lparr>writers := writers s - 1\<rparr> in (writers s' = 0, s'))"

section \<open>Threads on a pipe\<close>

text \<open>
  Where a thread stands inside \<^verbatim>\<open>Pipe::read\<close>, \<^verbatim>\<open>Pipe::write\<close> or a drop. The lock-protected
  parts, the snapshot of the generation, \<^verbatim>\<open>wait_current_until\<close> and \<^verbatim>\<open>wake_waiters\<close> are atomic;
  threads interleave between them. \<open>Check\<close>: the generation is snapped, the ring not yet
  looked at; \<open>Block\<close>: found nothing to do, about to wait; \<open>Sleep\<close>: waiting on the pipe's
  key; \<open>Wake\<close>: changed the ring, about to wake the waiters.
\<close>

datatype pipe_thread =
    Idle
  | RStart nat
  | RCheck nat nat
  | RBlock nat nat
  | RSleep nat
  | RWake bytes
  | RDone bytes
  | WStart bytes nat
  | WCheck bytes nat nat
  | WBlock bytes nat nat
  | WSleep bytes nat
  | WWake bytes nat
  | WDone "nat option"
  | DWake

text \<open>
  \<open>wakes\<close> counts the calls of \<^verbatim>\<open>wake_waiters\<close> on the key; the generation the code compares is
  that number as a wrapping 64-bit counter. \<open>sent\<close> and \<open>received\<close> are the bytes that ever
  entered and left the ring.
\<close>

record pipe_sys =
  ring :: pipe_state
  wakes :: nat
  threads :: "nat \<Rightarrow> pipe_thread"
  sent :: bytes
  received :: bytes

definition generation :: "nat \<Rightarrow> u64" where
  "generation n = of_nat n"

fun woken :: "pipe_thread \<Rightarrow> pipe_thread" where
  "woken (RSleep len) = RStart len"
| "woken (WSleep data written) = WStart data written"
| "woken t = t"

text \<open>\<^verbatim>\<open>wake_waiters(key)\<close>: the generation advances and every waiting thread runs again.\<close>

definition pipe_wake :: "pipe_sys \<Rightarrow> pipe_sys" where
  "pipe_wake s = s\<lparr>wakes := wakes s + 1, threads := (\<lambda>i. woken (threads s i))\<rparr>"

definition set_thread :: "nat \<Rightarrow> pipe_thread \<Rightarrow> pipe_sys \<Rightarrow> pipe_sys" where
  "set_thread i t s = s\<lparr>threads := (threads s)(i := t)\<rparr>"

text \<open>The next atomic action of thread \<open>i\<close>.\<close>

definition pipe_next :: "nat \<Rightarrow> pipe_sys \<Rightarrow> pipe_sys" where
  "pipe_next i s =
    (case threads s i of
       RStart len \<Rightarrow> set_thread i (if len = 0 then RDone [] else RCheck len (wakes s)) s
     | RCheck len g \<Rightarrow>
         (case pipe_read_pass len (ring s) of
            (ReadGot bs, r) \<Rightarrow> set_thread i (RWake bs) (s\<lparr>ring := r, received := received s @ bs\<rparr>)
          | (ReadEof, r) \<Rightarrow> set_thread i (RDone []) (s\<lparr>ring := r\<rparr>)
          | (ReadWait, r) \<Rightarrow> set_thread i (RBlock len g) (s\<lparr>ring := r\<rparr>))
     | RBlock len g \<Rightarrow>
         set_thread i (if generation (wakes s) \<noteq> generation g then RStart len else RSleep len) s
     | RSleep len \<Rightarrow> s
     | RWake bs \<Rightarrow> set_thread i (RDone bs) (pipe_wake s)
     | RDone bs \<Rightarrow> s
     | WStart data written \<Rightarrow>
         set_thread i (if written < length data then WCheck data written (wakes s)
                       else WDone (Some written)) s
     | WCheck data written g \<Rightarrow>
         (case pipe_write_pass data written (ring s) of
            (WriteBroken, r) \<Rightarrow>
              set_thread i (WDone (if written > 0 then Some written else None)) (s\<lparr>ring := r\<rparr>)
          | (WriteQueued n, r) \<Rightarrow>
              if n > 0 then set_thread i (WWake data (written + n))
                (s\<lparr>ring := r, sent := sent s @ slice_of written (written + n) data\<rparr>)
              else set_thread i (WBlock data written g) (s\<lparr>ring := r\<rparr>))
     | WBlock data written g \<Rightarrow>
         set_thread i (if generation (wakes s) \<noteq> generation g then WStart data written
                       else WSleep data written) s
     | WSleep data written \<Rightarrow> s
     | WWake data written \<Rightarrow> set_thread i (WStart data written) (pipe_wake s)
     | WDone r \<Rightarrow> s
     | DWake \<Rightarrow> set_thread i Idle (pipe_wake s)
     | Idle \<Rightarrow> s)"

definition idle_like :: "pipe_thread \<Rightarrow> bool" where
  "idle_like t \<longleftrightarrow> t = Idle \<or> (\<exists>bs. t = RDone bs) \<or> (\<exists>r. t = WDone r)"

inductive pipe_step :: "pipe_sys \<Rightarrow> pipe_sys \<Rightarrow> bool" where
  run: "pipe_step s (pipe_next i s)"
| call_read: "idle_like (threads s i) \<Longrightarrow> pipe_step s (set_thread i (RStart len) s)"
| call_write: "idle_like (threads s i) \<Longrightarrow> pipe_step s (set_thread i (WStart data 0) s)"
| clone_r: "readers (ring s) > 0 \<Longrightarrow> pipe_step s (s\<lparr>ring := clone_reader (ring s)\<rparr>)"
| clone_w: "writers (ring s) > 0 \<Longrightarrow> pipe_step s (s\<lparr>ring := clone_writer (ring s)\<rparr>)"
| drop_r: "idle_like (threads s i) \<Longrightarrow> readers (ring s) > 0 \<Longrightarrow> drop_reader (ring s) = (final, r) \<Longrightarrow>
    pipe_step s (set_thread i (if final then DWake else Idle) (s\<lparr>ring := r\<rparr>))"
| drop_w: "idle_like (threads s i) \<Longrightarrow> writers (ring s) > 0 \<Longrightarrow> drop_writer (ring s) = (final, r) \<Longrightarrow>
    pipe_step s (set_thread i (if final then DWake else Idle) (s\<lparr>ring := r\<rparr>))"

definition pipe_start :: pipe_sys where
  "pipe_start = \<lparr>ring = pipe_new, wakes = 0, threads = (\<lambda>_. Idle), sent = [], received = []\<rparr>"

inductive pipe_reach :: "pipe_sys \<Rightarrow> bool" where
  start: "pipe_reach pipe_start"
| step: "pipe_reach s \<Longrightarrow> pipe_step s s' \<Longrightarrow> pipe_reach s'"

section \<open>Order and bounds\<close>

definition ring_inv :: "pipe_sys \<Rightarrow> bool" where
  "ring_inv s \<longleftrightarrow> sent s = received s @ buf (ring s) \<and> length (buf (ring s)) \<le> CAPACITY"

lemma set_thread_simps [simp]:
  "ring (set_thread i t s) = ring s" "wakes (set_thread i t s) = wakes s"
  "sent (set_thread i t s) = sent s" "received (set_thread i t s) = received s"
  "threads (set_thread i t s) = (threads s)(i := t)"
  by (simp_all add: set_thread_def)

lemma pipe_wake_simps [simp]:
  "ring (pipe_wake s) = ring s" "wakes (pipe_wake s) = Suc (wakes s)"
  "sent (pipe_wake s) = sent s" "received (pipe_wake s) = received s"
  "threads (pipe_wake s) j = woken (threads s j)"
  by (simp_all add: pipe_wake_def)

lemma pipe_next_ring_inv:
  assumes "ring_inv s"
  shows "ring_inv (pipe_next i s)"
  using assms
  by (auto simp: pipe_next_def ring_inv_def pipe_read_pass_def pipe_write_pass_def Let_def slice_of_def
      split: pipe_thread.split)

lemma pipe_step_ring_inv:
  assumes "pipe_step s s'" "ring_inv s"
  shows "ring_inv s'"
  using assms
proof (induction rule: pipe_step.induct)
  case (run s i)
  then show ?case by (rule pipe_next_ring_inv)
qed (auto simp: ring_inv_def clone_reader_def clone_writer_def drop_reader_def drop_writer_def Let_def)


lemma pipe_reach_ring_inv: "pipe_reach s \<Longrightarrow> ring_inv s"
  by (induction rule: pipe_reach.induct)
     (auto simp: pipe_step_ring_inv, simp add: ring_inv_def pipe_start_def pipe_new_def)

section \<open>No lost wakeup\<close>

fun wakes_next :: "pipe_thread \<Rightarrow> bool" where
  "wakes_next (RWake bs) = True"
| "wakes_next (WWake data written) = True"
| "wakes_next DWake = True"
| "wakes_next t = False"

definition wake_pending :: "pipe_sys \<Rightarrow> bool" where
  "wake_pending s \<longleftrightarrow> (\<exists>i. wakes_next (threads s i))"

definition nothing_to_read :: "pipe_state \<Rightarrow> bool" where
  "nothing_to_read r \<longleftrightarrow> buf r = [] \<and> writers r > 0"

definition no_room :: "pipe_state \<Rightarrow> bool" where
  "no_room r \<longleftrightarrow> length (buf r) = CAPACITY \<and> readers r > 0"

text \<open>
  What a thread may rely on: \<open>p\<close> says that some thread is about to wake the waiters, \<open>w\<close> is the
  number of wakeups so far.
\<close>

fun thread_ok :: "pipe_state \<Rightarrow> nat \<Rightarrow> bool \<Rightarrow> pipe_thread \<Rightarrow> bool" where
  "thread_ok r w p (RCheck len g) \<longleftrightarrow> g \<le> w"
| "thread_ok r w p (RBlock len g) \<longleftrightarrow> g \<le> w \<and> (g = w \<longrightarrow> nothing_to_read r \<or> p)"
| "thread_ok r w p (RSleep len) \<longleftrightarrow> nothing_to_read r \<or> p"
| "thread_ok r w p (WCheck data written g) \<longleftrightarrow> g \<le> w \<and> written < length data"
| "thread_ok r w p (WBlock data written g) \<longleftrightarrow> g \<le> w \<and> (g = w \<longrightarrow> no_room r \<or> p)"
| "thread_ok r w p (WSleep data written) \<longleftrightarrow> no_room r \<or> p"
| "thread_ok r w p t \<longleftrightarrow> True"

definition wake_inv :: "pipe_sys \<Rightarrow> bool" where
  "wake_inv s \<longleftrightarrow> (\<forall>i. thread_ok (ring s) (wakes s) (wake_pending s) (threads s i))"

lemma thread_ok_mono:
  assumes "thread_ok r w p t" "p \<longrightarrow> p'"
    "nothing_to_read r \<longrightarrow> nothing_to_read r' \<or> p'" "no_room r \<longrightarrow> no_room r' \<or> p'"
  shows "thread_ok r' w p' t"
  using assms by (cases t) auto

lemma thread_ok_woken: "thread_ok r w p t \<Longrightarrow> thread_ok r (Suc w) p' (woken t)"
  by (cases t) auto

lemma wake_pendingI: "wakes_next (threads s i) \<Longrightarrow> wake_pending s"
  by (auto simp: wake_pending_def)

text \<open>A thread that was not about to wake takes a step; the others keep what they rely on.\<close>

lemma wake_inv_set:
  assumes inv: "wake_inv s" and quiet: "\<not> wakes_next (threads s i)"
    and other: "\<And>j. j \<noteq> i \<Longrightarrow> threads s' j = threads s j" and w: "wakes s' = wakes s"
    and t: "thread_ok (ring s') (wakes s) (wake_pending s') (threads s' i)"
    and read: "nothing_to_read (ring s) \<longrightarrow> nothing_to_read (ring s') \<or> wakes_next (threads s' i)"
    and room: "no_room (ring s) \<longrightarrow> no_room (ring s') \<or> wakes_next (threads s' i)"
  shows "wake_inv s'"
proof -
  have p': "wakes_next (threads s' i) \<longrightarrow> wake_pending s'"
    by (simp add: wake_pendingI)
  have p: "wake_pending s \<longrightarrow> wake_pending s'"
  proof
    assume "wake_pending s"
    then obtain j where j: "wakes_next (threads s j)" by (auto simp: wake_pending_def)
    with quiet have "j \<noteq> i" by auto
    with j other show "wake_pending s'" by (auto intro: wake_pendingI [where i = j])
  qed
  have "thread_ok (ring s') (wakes s) (wake_pending s') (threads s j)" for j
  proof (rule thread_ok_mono)
    show "thread_ok (ring s) (wakes s) (wake_pending s) (threads s j)" using inv by (simp add: wake_inv_def)
  qed (use p p' read room in blast)+
  then have "thread_ok (ring s') (wakes s') (wake_pending s') (threads s' j)" for j
    using t other w by (cases "j = i") simp_all
  then show ?thesis by (simp add: wake_inv_def)
qed

lemma wake_inv_wake:
  assumes "wake_inv s" "\<And>r w p. thread_ok r w p t"
  shows "wake_inv (set_thread i t (pipe_wake s))"
  using assms thread_ok_woken unfolding wake_inv_def by simp blast

lemma generation_eq:
  assumes "g \<le> w" "w < 2 ^ 64" "generation w = generation g"
  shows "w = g"
  using assms by (simp add: generation_def of_nat_eq_iff word_of_nat_eq_iff take_bit_nat_eq_self)

lemma pipe_next_wake_inv:
  assumes inv: "wake_inv s" and few: "wakes s < 2 ^ 64" and cap: "ring_inv s"
  shows "wake_inv (pipe_next i s)"
proof (cases "wakes_next (threads s i)")
  case True
  then show ?thesis
    by (cases "threads s i") (auto simp: pipe_next_def intro!: wake_inv_wake [OF inv])
next
  case False
  have ok: "thread_ok (ring s) (wakes s) (wake_pending s) (threads s i)"
    using inv by (simp add: wake_inv_def)
  have gen: "generation (wakes s) = generation g \<Longrightarrow> g \<le> wakes s \<Longrightarrow> g = wakes s" for g
    using generation_eq few by metis
  note expand = pipe_next_def pipe_read_pass_def pipe_write_pass_def Let_def
  have pend: "wake_pending (set_thread i t s) = wake_pending s" if "\<not> wakes_next t" for t
    using False that by (auto simp: wake_pending_def)
  show ?thesis
  proof (rule wake_inv_set [OF inv False])
    show "threads (pipe_next i s) j = threads s j" if "j \<noteq> i" for j
      using that False by (cases "threads s i") (auto simp: expand)
    show "wakes (pipe_next i s) = wakes s"
      using False by (cases "threads s i") (auto simp: expand)
    show "nothing_to_read (ring s) \<longrightarrow>
        nothing_to_read (ring (pipe_next i s)) \<or> wakes_next (threads (pipe_next i s) i)"
      using False by (cases "threads s i") (auto simp: expand nothing_to_read_def slice_of_def)
    show "no_room (ring s) \<longrightarrow> no_room (ring (pipe_next i s)) \<or> wakes_next (threads (pipe_next i s) i)"
      using False by (cases "threads s i") (auto simp: expand no_room_def)
    show "thread_ok (ring (pipe_next i s)) (wakes s) (wake_pending (pipe_next i s)) (threads (pipe_next i s) i)"
    proof (cases "threads s i")
      case (RBlock len g)
      then show ?thesis using ok gen [of g] by (auto simp: pipe_next_def pend)
    next
      case (WBlock data written g)
      then show ?thesis using ok gen [of g] by (auto simp: pipe_next_def pend)
    next
      case (RCheck len g)
      then show ?thesis using ok by (auto simp: expand nothing_to_read_def)
    next
      case (WCheck data written g)
      moreover have "length (buf (ring s)) \<le> CAPACITY" using cap by (simp add: ring_inv_def)
      ultimately show ?thesis using ok by (auto simp: expand no_room_def)
    qed (use False ok in \<open>simp_all add: pipe_next_def pend\<close>)
  qed
qed

lemma wake_inv_ring:
  assumes "wake_inv s" "nothing_to_read (ring s) \<longrightarrow> nothing_to_read r" "no_room (ring s) \<longrightarrow> no_room r"
  shows "wake_inv (s\<lparr>ring := r\<rparr>)"
proof -
  have "wake_pending (s\<lparr>ring := r\<rparr>) = wake_pending s" by (simp add: wake_pending_def)
  moreover have "thread_ok r (wakes s) (wake_pending s) (threads s j)" for j
    by (rule thread_ok_mono [where r = "ring s" and p = "wake_pending s"]) (use assms in \<open>simp_all add: wake_inv_def\<close>)
  ultimately show ?thesis by (simp add: wake_inv_def)
qed

lemma wake_inv_call:
  assumes "wake_inv s" "idle_like (threads s i)" "\<And>r w p. thread_ok r w p t"
    "nothing_to_read (ring s) \<longrightarrow> nothing_to_read r \<or> wakes_next t"
    "no_room (ring s) \<longrightarrow> no_room r \<or> wakes_next t"
  shows "wake_inv (set_thread i t (s\<lparr>ring := r\<rparr>))"
  by (rule wake_inv_set [where s = s and i = i]) (use assms in \<open>auto simp: idle_like_def\<close>)

lemma pipe_step_wake_inv:
  assumes "pipe_step s s'" "wake_inv s" "wakes s < 2 ^ 64" "ring_inv s"
  shows "wake_inv s'"
  using assms
proof (induction rule: pipe_step.induct)
  case (run s i)
  then show ?case by (simp add: pipe_next_wake_inv)
next
  case (call_read s i len)
  then show ?case
    using wake_inv_call [where s = s and i = i and r = "ring s" and t = "RStart len"] by simp
next
  case (call_write s i data)
  then show ?case
    using wake_inv_call [where s = s and i = i and r = "ring s" and t = "WStart data 0"] by simp
next
  case (clone_r s)
  then show ?case by (simp add: wake_inv_ring clone_reader_def nothing_to_read_def no_room_def)
next
  case (clone_w s)
  then show ?case by (simp add: wake_inv_ring clone_writer_def nothing_to_read_def no_room_def)
next
  case (drop_r s i final r)
  then show ?case
    by (intro wake_inv_call) (auto simp: drop_reader_def Let_def nothing_to_read_def no_room_def)
next
  case (drop_w s i final r)
  then show ?case
    by (intro wake_inv_call) (auto simp: drop_writer_def Let_def nothing_to_read_def no_room_def)
qed

lemma pipe_next_wakes: "wakes s \<le> wakes (pipe_next i s)"
  by (cases "threads s i")
     (auto simp: pipe_next_def split: read_pass.split write_pass.split prod.split)

lemma pipe_step_wakes: "pipe_step s s' \<Longrightarrow> wakes s \<le> wakes s'"
  by (erule pipe_step.cases) (simp_all add: pipe_next_wakes)

lemma pipe_reach_wake_inv: "pipe_reach s \<Longrightarrow> wakes s < 2 ^ 64 \<Longrightarrow> wake_inv s"
proof (induction rule: pipe_reach.induct)
  case start
  then show ?case by (simp add: wake_inv_def pipe_start_def)
next
  case (step s s')
  then have "wakes s < 2 ^ 64" using pipe_step_wakes by fastforce
  then show ?case using step pipe_step_wake_inv pipe_reach_ring_inv by blast
qed

section \<open>Properties\<close>

definition run_threads :: "nat list \<Rightarrow> pipe_sys \<Rightarrow> pipe_sys" where
  "run_threads is s = fold pipe_next is s"

lemma run_threads_simps [simp]:
  "run_threads [] s = s" "run_threads (i # is) s = run_threads is (pipe_next i s)"
  by (simp_all add: run_threads_def)

lemma run_threads_reach: "pipe_reach s \<Longrightarrow> pipe_reach (run_threads is s)"
  by (induction "is" arbitrary: s) (auto intro: pipe_reach.step pipe_step.run)

definition sleeping_reader :: pipe_sys where
  "sleeping_reader = run_threads [0, 0, 0] (set_thread 0 (RStart 5) pipe_start)"

lemma sleeping_reader_eq:
  "sleeping_reader = \<lparr>ring = pipe_new, wakes = 0, threads = (\<lambda>_. Idle)(0 := RSleep 5), sent = [], received = []\<rparr>"
  by (simp add: sleeping_reader_def pipe_start_def pipe_next_def set_thread_def pipe_read_pass_def pipe_new_def)

lemma sleeping_reader_reach: "pipe_reach sleeping_reader"
  unfolding sleeping_reader_def
  by (intro run_threads_reach pipe_reach.step [OF pipe_reach.start] pipe_step.call_read)
     (simp add: pipe_start_def idle_like_def)

text \<open>C20. Bytes leave a pipe in the order they entered it: at every moment the bytes ever queued are
  the bytes ever read followed by the ring, which never holds more than 4096 bytes.\<close>

theorem pipe_fifo:
  assumes "pipe_reach s"
  shows "sent s = received s @ buf (ring s) \<and> length (buf (ring s)) \<le> 4096"
  using pipe_reach_ring_inv [OF assms] by (simp add: ring_inv_def)

theorem pipe_fifo_witness:
  "pipe_reach sleeping_reader \<and> sent sleeping_reader = received sleeping_reader @ buf (ring sleeping_reader)"
  using sleeping_reader_reach pipe_fifo [OF sleeping_reader_reach] by simp

text \<open>C18. No wakeup is lost, however the threads interleave: while no thread is about to wake the
  waiters, a thread sleeps in a read only if the ring is empty and a writer remains, and
  in a write only if the ring is full and a reader remains. (Fewer than \<open>2 ^ 64\<close> wakeups on
  the pipe: the generation is a wrapping 64-bit counter.)\<close>

theorem pipe_no_lost_wakeup:
  assumes "pipe_reach s" "wakes s < 2 ^ 64" "\<forall>i. \<not> wakes_next (threads s i)"
  shows "(\<forall>i len. threads s i = RSleep len \<longrightarrow> buf (ring s) = [] \<and> writers (ring s) > 0)
    \<and> (\<forall>i data n. threads s i = WSleep data n \<longrightarrow> length (buf (ring s)) = 4096 \<and> readers (ring s) > 0)"
proof -
  have "thread_ok (ring s) (wakes s) False (threads s i)" for i
    using pipe_reach_wake_inv [OF assms(1,2)] assms(3) by (simp add: wake_inv_def wake_pending_def)
  then show ?thesis by (metis thread_ok.simps(3,6) nothing_to_read_def no_room_def)
qed

theorem pipe_no_lost_wakeup_witness:
  "threads sleeping_reader 0 = RSleep 5 \<and> buf (ring sleeping_reader) = [] \<and> writers (ring sleeping_reader) > 0"
proof -
  have "wakes sleeping_reader < 2 ^ 64" "\<forall>i. \<not> wakes_next (threads sleeping_reader i)"
    "threads sleeping_reader 0 = RSleep 5"
    by (simp_all add: sleeping_reader_eq)
  then show ?thesis using pipe_no_lost_wakeup [OF sleeping_reader_reach] by blast
qed



end
