(* ===== verification/File_Table.thy ===== *)
theory File_Table
  imports Fs_Properties Pipe "HOL-Library.Multiset"
begin

text \<open>
  File descriptor tables, \<^verbatim>\<open>src/src/file.rs\<close>: every operation of \<^verbatim>\<open>FileTable\<close> over the
  filesystem and the pipes, the invariant that ties the tables to the pipes' reader and writer
  counts, and the properties of descriptors. Sockets appear only as identities.
\<close>

unbundle bit_operations_syntax

section \<open>Descriptors\<close>

abbreviation (input) O_READ :: u64 where "O_READ \<equiv> 1"
abbreviation (input) O_WRITE :: u64 where "O_WRITE \<equiv> 2"
abbreviation (input) O_CREATE :: u64 where "O_CREATE \<equiv> 4"
abbreviation (input) O_TRUNC :: u64 where "O_TRUNC \<equiv> 8"
abbreviation (input) O_APPEND :: u64 where "O_APPEND \<equiv> 16"
abbreviation (input) O_ALL :: u64 where "O_ALL \<equiv> 31"
abbreviation (input) MAX_FDS :: nat where "MAX_FDS \<equiv> 32"
abbreviation (input) U32_MAX :: nat where "U32_MAX \<equiv> 4294967295"

record DiskFile =
  df_id :: FileId
  df_offset :: nat
  df_flags :: u64

text \<open>Pipes and sockets are shared objects; an end or a socket names its object.\<close>

datatype OpenFile =
    Console
  | Disk DiskFile
  | PipeRead nat
  | PipeWrite nat
  | Udp nat
  | Tcp nat

type_synonym FileTable = "OpenFile option list"

text \<open>
  The state the tables share: the volume, the pipes, how many sockets were created, what
  was printed, every process's table, and the ends and sockets that calls in progress
  hold outside the table lock.
\<close>

record file_world =
  vol :: fs_state
  pipes :: "pipe_state list"
  socket_count :: nat
  printed :: "bytes list"
  tables :: "FileTable list"
  held :: "OpenFile list"

type_synonym 'a fop = "(file_world, FsError, 'a) op"

definition on_fs :: "'a fsop \<Rightarrow> 'a fop" where
  "on_fs m w = (case m (vol w) of (r, s) \<Rightarrow> (r, w\<lparr>vol := s\<rparr>))"

definition fd_get :: "nat \<Rightarrow> FileTable \<Rightarrow> OpenFile option" where
  "fd_get fd fds = (if fd < length fds then fds ! fd else None)"

definition fd_put :: "nat \<Rightarrow> nat \<Rightarrow> OpenFile option \<Rightarrow> unit fop" where
  "fd_put t fd v = modify (\<lambda>w. w\<lparr>tables := (tables w)[t := (tables w ! t)[fd := v]]\<rparr>)"

text \<open>\<^verbatim>\<open>Clone\<close> and \<^verbatim>\<open>Drop\<close> of an \<^verbatim>\<open>OpenFile\<close> act on the pipe whose end it is.\<close>

fun clone_file :: "OpenFile \<Rightarrow> pipe_state list \<Rightarrow> pipe_state list" where
  "clone_file (PipeRead p) ps = ps[p := clone_reader (ps ! p)]"
| "clone_file (PipeWrite p) ps = ps[p := clone_writer (ps ! p)]"
| "clone_file _ ps = ps"

fun drop_file :: "OpenFile \<Rightarrow> pipe_state list \<Rightarrow> pipe_state list" where
  "drop_file (PipeRead p) ps = ps[p := snd (drop_reader (ps ! p))]"
| "drop_file (PipeWrite p) ps = ps[p := snd (drop_writer (ps ! p))]"
| "drop_file _ ps = ps"

section \<open>The operations\<close>

definition fd_free_slot :: "nat \<Rightarrow> nat fop" where
  "fd_free_slot t w =
     (let fds = tables w ! t in
      case find (\<lambda>fd. fds ! fd = None) [0..<length fds] of
        Some fd \<Rightarrow> (Inr fd, w)
      | None \<Rightarrow> if length fds < MAX_FDS
                then (Inr (length fds), w\<lparr>tables := (tables w)[t := fds @ [None]]\<rparr>)
                else (Inl TooManyOpenFiles, w))"

definition with_console :: "nat fop" where
  "with_console w = (Inr (length (tables w)), w\<lparr>tables := tables w @ [replicate 3 (Some Console)]\<rparr>)"

text \<open>The loop of \<^verbatim>\<open>inherit\<close>; leaving it with an error drops the copies made so far.\<close>

fun inherit_loop :: "FileTable \<Rightarrow> nat list \<Rightarrow> FileTable \<Rightarrow> FileTable fop" where
  "inherit_loop fds [] child = ret child"
| "inherit_loop fds (fd # rest) child =
     (case fd_get fd fds of
        None \<Rightarrow> bind (modify (\<lambda>w. w\<lparr>pipes := fold drop_file (map the child) (pipes w)\<rparr>))
                  (\<lambda>_. throw BadDescriptor)
      | Some file \<Rightarrow> bind (modify (\<lambda>w. w\<lparr>pipes := clone_file file (pipes w)\<rparr>))
                  (\<lambda>_. inherit_loop fds rest (child @ [Some file])))"

definition inherit :: "nat \<Rightarrow> nat list \<Rightarrow> nat fop" where
  "inherit t stdio =
     bind (get (\<lambda>w. tables w ! t)) (\<lambda>fds.
     bind (inherit_loop fds stdio []) (\<lambda>child.
     bind (get (\<lambda>w. length (tables w))) (\<lambda>c.
     bind (modify (\<lambda>w. w\<lparr>tables := tables w @ [child]\<rparr>)) (\<lambda>_. ret c))))"

definition file_open :: "nat \<Rightarrow> bytes \<Rightarrow> u64 \<Rightarrow> nat fop" where
  "file_open t name flags =
     (if flags AND NOT O_ALL \<noteq> 0 \<or> flags AND (O_READ OR O_WRITE) = 0 then throw InvalidArgument
      else if flags AND O_WRITE = 0 \<and> flags AND (O_CREATE OR O_TRUNC OR O_APPEND) \<noteq> 0
      then throw InvalidArgument
      else bind (fd_free_slot t) (\<lambda>fd.
           bind (on_fs (open_file_unlocked name (flags AND O_CREATE \<noteq> 0) (flags AND O_TRUNC \<noteq> 0))) (\<lambda>fid.
           bind (fd_put t fd (Some (Disk \<lparr>df_id = fid, df_offset = 0, df_flags = flags\<rparr>))) (\<lambda>_.
             ret fd))))"

definition file_pipe :: "nat \<Rightarrow> (nat \<times> nat) fop" where
  "file_pipe t w =
     (let p = length (pipes w); w1 = w\<lparr>pipes := pipes w @ [pipe_new]\<rparr>;
          drop_both = (\<lambda>w. w\<lparr>pipes := drop_file (PipeWrite p) (drop_file (PipeRead p) (pipes w))\<rparr>)
      in case fd_free_slot t w1 of
           (Inl e, w2) \<Rightarrow> (Inl e, drop_both w2)
         | (Inr read_fd, w2) \<Rightarrow>
             (case fd_free_slot t (snd (fd_put t read_fd (Some (PipeRead p)) w2)) of
                (Inr write_fd, w3) \<Rightarrow>
                  (Inr (read_fd, write_fd), snd (fd_put t write_fd (Some (PipeWrite p)) w3))
              | (Inl e, w3) \<Rightarrow> (Inl e, drop_both (snd (fd_put t read_fd None w3)))))"

definition file_socket :: "nat \<Rightarrow> nat \<Rightarrow> nat fop" where
  "file_socket t kind =
     (if kind \<noteq> 1 \<and> kind \<noteq> 2 then throw InvalidArgument
      else bind (get socket_count) (\<lambda>n.
           bind (modify (\<lambda>w. w\<lparr>socket_count := n + 1\<rparr>)) (\<lambda>_.
           bind (fd_free_slot t) (\<lambda>fd.
           bind (fd_put t fd (Some (if kind = 1 then Udp n else Tcp n))) (\<lambda>_. ret fd)))))"

text \<open>Which socket a connect or a datagram call acts on, outside the table lock.\<close>

definition file_connect_target :: "nat \<Rightarrow> nat \<Rightarrow> OpenFile fop" where
  "file_connect_target t fd =
     bind (get (\<lambda>w. fd_get fd (tables w ! t))) (\<lambda>file. case file of
       Some (Udp s) \<Rightarrow> ret (Udp s)
     | Some (Tcp s) \<Rightarrow> ret (Tcp s)
     | Some _ \<Rightarrow> throw InvalidArgument
     | None \<Rightarrow> throw BadDescriptor)"

definition file_udp :: "nat \<Rightarrow> nat \<Rightarrow> nat fop" where
  "file_udp t fd =
     bind (get (\<lambda>w. fd_get fd (tables w ! t))) (\<lambda>file. case file of
       Some (Udp s) \<Rightarrow> ret s
     | Some _ \<Rightarrow> throw InvalidArgument
     | None \<Rightarrow> throw BadDescriptor)"

definition file_kind :: "nat \<Rightarrow> nat \<Rightarrow> nat fop" where
  "file_kind t fd =
     bind (get (\<lambda>w. fd_get fd (tables w ! t))) (\<lambda>file. case file of
       Some Console \<Rightarrow> ret 0
     | Some (Disk _) \<Rightarrow> ret 1
     | Some (PipeRead _) \<Rightarrow> ret 2
     | Some (PipeWrite _) \<Rightarrow> ret 2
     | Some (Udp _) \<Rightarrow> ret 3
     | Some (Tcp _) \<Rightarrow> ret 3
     | None \<Rightarrow> throw BadDescriptor)"

text \<open>
  A read or write either finishes under the table lock or goes on, outside it, with a
  copy of the pipe end or socket (\<open>held\<close> until the call is over).
\<close>

datatype 'a transfer = Finished 'a | Continues OpenFile

definition hold :: "OpenFile \<Rightarrow> 'a transfer fop" where
  "hold file = bind (modify (\<lambda>w. w\<lparr>pipes := clone_file file (pipes w), held := file # held w\<rparr>))
     (\<lambda>_. ret (Continues file))"

definition file_read :: "nat \<Rightarrow> nat \<Rightarrow> nat \<Rightarrow> bytes transfer fop" where
  "file_read t fd len =
     bind (get (\<lambda>w. fd_get fd (tables w ! t))) (\<lambda>file. case file of
       Some Console \<Rightarrow> ret (Continues Console)
     | Some (Disk f) \<Rightarrow>
         if df_flags f AND O_READ \<noteq> 0 then
           bind (on_fs (read_at_unlocked (df_id f) (df_offset f) len)) (\<lambda>bs.
           bind (fd_put t fd (Some (Disk (f\<lparr>df_offset := df_offset f + length bs\<rparr>)))) (\<lambda>_.
             ret (Finished bs)))
         else throw BadDescriptor
     | Some (PipeRead p) \<Rightarrow> hold (PipeRead p)
     | Some (Udp s) \<Rightarrow> hold (Udp s)
     | Some (Tcp s) \<Rightarrow> hold (Tcp s)
     | Some (PipeWrite _) \<Rightarrow> throw BadDescriptor
     | None \<Rightarrow> throw BadDescriptor)"

definition file_write :: "nat \<Rightarrow> nat \<Rightarrow> bytes \<Rightarrow> nat transfer fop" where
  "file_write t fd data =
     bind (get (\<lambda>w. fd_get fd (tables w ! t))) (\<lambda>file. case file of
       Some Console \<Rightarrow>
         bind (modify (\<lambda>w. w\<lparr>printed := printed w @ [data]\<rparr>)) (\<lambda>_. ret (Finished (length data)))
     | Some (Disk f) \<Rightarrow>
         if df_flags f AND O_WRITE \<noteq> 0 then
           let offset = (if df_flags f AND O_APPEND \<noteq> 0 then None else Some (df_offset f)) in
           bind (on_fs (write_at_unlocked (df_id f) offset data)) (\<lambda>(start, n).
           bind (fd_put t fd (Some (Disk (f\<lparr>df_offset := start + n\<rparr>)))) (\<lambda>_. ret (Finished n)))
         else throw BadDescriptor
     | Some (PipeWrite p) \<Rightarrow> hold (PipeWrite p)
     | Some (Udp s) \<Rightarrow> hold (Udp s)
     | Some (Tcp s) \<Rightarrow> hold (Tcp s)
     | Some (PipeRead _) \<Rightarrow> throw BadDescriptor
     | None \<Rightarrow> throw BadDescriptor)"

definition release :: "OpenFile \<Rightarrow> unit fop" where
  "release file = modify (\<lambda>w. w\<lparr>held := remove1 file (held w), pipes := drop_file file (pipes w)\<rparr>)"

definition file_close :: "nat \<Rightarrow> nat \<Rightarrow> unit fop" where
  "file_close t fd =
     bind (get (\<lambda>w. fd_get fd (tables w ! t))) (\<lambda>found.
     bind (ok_or BadDescriptor found) (\<lambda>file.
     bind (fd_put t fd None) (\<lambda>_.
       modify (\<lambda>w. w\<lparr>pipes := drop_file file (pipes w)\<rparr>))))"

definition seek_base :: "DiskFile \<Rightarrow> nat \<Rightarrow> nat fop" where
  "seek_base f whence =
     (if whence = 0 then ret 0 else if whence = 1 then ret (df_offset f)
      else if whence = 2 then on_fs (file_size_unlocked (df_id f)) else throw InvalidArgument)"

definition file_seek :: "nat \<Rightarrow> nat \<Rightarrow> int \<Rightarrow> nat \<Rightarrow> nat fop" where
  "file_seek t fd offset whence =
     bind (get (\<lambda>w. fd_get fd (tables w ! t))) (\<lambda>file. case file of
       Some (Disk f) \<Rightarrow>
         bind (seek_base f whence) (\<lambda>base.
           let target = int base + offset in
           if 0 \<le> target \<and> target < 2 ^ 64 \<and> target \<le> int U32_MAX then
             bind (fd_put t fd (Some (Disk (f\<lparr>df_offset := nat target\<rparr>)))) (\<lambda>_. ret (nat target))
           else throw InvalidArgument)
     | _ \<Rightarrow> throw BadDescriptor)"

text \<open>The last owner of a table goes away: every descriptor in it is dropped.\<close>

definition drop_table :: "nat \<Rightarrow> unit fop" where
  "drop_table t = modify (\<lambda>w. w\<lparr>tables := (tables w)[t := []],
     pipes := fold drop_file (List.map_filter id (tables w ! t)) (pipes w)\<rparr>)"

section \<open>Counting the ends of pipes\<close>

definition reader_count :: "pipe_state list \<Rightarrow> nat \<Rightarrow> nat" where
  "reader_count ps p = (if p < length ps then readers (ps ! p) else 0)"

definition writer_count :: "pipe_state list \<Rightarrow> nat \<Rightarrow> nat" where
  "writer_count ps p = (if p < length ps then writers (ps ! p) else 0)"

definition counted :: "pipe_state list \<Rightarrow> OpenFile multiset \<Rightarrow> bool" where
  "counted ps M \<longleftrightarrow> (\<forall>p. reader_count ps p = count M (PipeRead p) \<and> writer_count ps p = count M (PipeWrite p))"

definition end_valid :: "pipe_state list \<Rightarrow> OpenFile \<Rightarrow> bool" where
  "end_valid ps f = (\<forall>p. f = PipeRead p \<or> f = PipeWrite p \<longrightarrow> p < length ps)"

lemma counts_clone:
  assumes "end_valid ps f"
  shows "reader_count (clone_file f ps) p = reader_count ps p + of_bool (f = PipeRead p)"
    "writer_count (clone_file f ps) p = writer_count ps p + of_bool (f = PipeWrite p)"
  using assms by (cases f; auto simp: end_valid_def reader_count_def writer_count_def clone_reader_def
      clone_writer_def nth_list_update)+

lemma counts_drop:
  assumes "end_valid ps f"
  shows "reader_count (drop_file f ps) p = reader_count ps p - of_bool (f = PipeRead p)"
    "writer_count (drop_file f ps) p = writer_count ps p - of_bool (f = PipeWrite p)"
  using assms by (cases f; auto simp: end_valid_def reader_count_def writer_count_def drop_reader_def
      drop_writer_def Let_def nth_list_update)+

lemma counts_new:
  "reader_count (ps @ [pipe_new]) p = (if p = length ps then 1 else reader_count ps p)"
  "writer_count (ps @ [pipe_new]) p = (if p = length ps then 1 else writer_count ps p)"
  by (auto simp: reader_count_def writer_count_def pipe_new_def nth_append)

lemma counted_valid:
  assumes "counted ps M" "f \<in># M"
  shows "end_valid ps f"
  unfolding end_valid_def
proof (intro allI impI)
  fix p assume "f = PipeRead p \<or> f = PipeWrite p"
  then have "0 < reader_count ps p \<or> 0 < writer_count ps p" using assms by (auto simp: counted_def)
  then show "p < length ps" by (auto simp: reader_count_def writer_count_def split: if_splits)
qed

lemma counted_clone: "counted ps M \<Longrightarrow> f \<in># M \<Longrightarrow> counted (clone_file f ps) (add_mset f M)"
  using counted_valid [of ps M f] by (simp add: counted_def counts_clone)

lemma counted_drop: "counted ps (add_mset f M) \<Longrightarrow> counted (drop_file f ps) M"
  using counted_valid [of ps "add_mset f M" f] by (simp add: counted_def counts_drop)

lemma counted_drops: "counted ps (mset fs + M) \<Longrightarrow> counted (fold drop_file fs ps) M"
  by (induction fs arbitrary: ps) (auto dest: counted_drop)

lemma counted_fresh: "counted ps M \<Longrightarrow> count M (PipeRead (length ps)) = 0 \<and> count M (PipeWrite (length ps)) = 0"
  by (auto simp: counted_def reader_count_def writer_count_def dest: spec [where x = "length ps"])

lemma counted_new: "counted ps M \<Longrightarrow>
    counted (ps @ [pipe_new]) (add_mset (PipeRead (length ps)) (add_mset (PipeWrite (length ps)) M))"
  using counted_fresh [of ps M] by (auto simp: counted_def counts_new)

text \<open>The open files of a table, and of everything that holds one.\<close>

definition table_files :: "FileTable \<Rightarrow> OpenFile multiset" where
  "table_files fds = mset (List.map_filter id fds)"

definition opened :: "OpenFile option \<Rightarrow> OpenFile multiset" where
  "opened v = (case v of None \<Rightarrow> {#} | Some f \<Rightarrow> {#f#})"

definition ends_of :: "file_world \<Rightarrow> OpenFile multiset" where
  "ends_of w = \<Sum>\<^sub># (mset (map table_files (tables w))) + mset (held w)"

lemma opened_simps [simp]: "opened None = {#}" "opened (Some f) = {#f#}"
  by (simp_all add: opened_def)

lemma table_files_simps [simp]:
  "table_files [] = {#}" "table_files (v # fds) = opened v + table_files fds"
  "table_files (xs @ ys) = table_files xs + table_files ys"
  by (auto simp: table_files_def map_filter_simps map_filter_def split: option.split)

lemma table_files_upd:
  "fd < length fds \<Longrightarrow> table_files (fds[fd := v]) + opened (fds ! fd) = table_files fds + opened v"
  by (induction fds arbitrary: fd) (auto simp: nth_Cons' list_update.simps split: nat.split simp flip: add.assoc)

lemma sum_tables_upd:
  "t < length T \<Longrightarrow> \<Sum>\<^sub># (mset (map table_files (T[t := fds]))) + table_files (T ! t)
     = \<Sum>\<^sub># (mset (map table_files T)) + table_files fds"
  by (induction T arbitrary: t) (auto simp: nth_Cons' list_update.simps split: nat.split simp flip: add.assoc)


lemma ends_of_table:
  assumes "t < length (tables w)"
  shows "ends_of (w\<lparr>tables := (tables w)[t := fds]\<rparr>) + table_files (tables w ! t) = ends_of w + table_files fds"
  using sum_tables_upd [OF assms, of fds] by (simp add: ends_of_def ac_simps)

lemma ends_of_simps [simp]:
  "ends_of (w\<lparr>vol := s\<rparr>) = ends_of w" "ends_of (w\<lparr>pipes := ps\<rparr>) = ends_of w"
  "ends_of (w\<lparr>socket_count := n\<rparr>) = ends_of w" "ends_of (w\<lparr>printed := l\<rparr>) = ends_of w"
  by (simp_all add: ends_of_def)

lemma fd_get_opened: "fd_get fd fds = Some f \<Longrightarrow> f \<in># table_files fds"
proof (induction fds arbitrary: fd)
  case (Cons v fds)
  show ?case
  proof (cases fd)
    case 0
    then show ?thesis using Cons.prems by (simp add: fd_get_def)
  next
    case (Suc k)
    then have "fd_get k fds = Some f" using Cons.prems by (simp add: fd_get_def split: if_splits)
    then show ?thesis using Cons.IH by simp
  qed
qed (simp add: fd_get_def)

lemma fd_get_ends:
  assumes "t < length (tables w)" "fd_get fd (tables w ! t) = Some f"
  shows "f \<in># ends_of w"
proof -
  have "table_files (tables w ! t) \<in># mset (map table_files (tables w))"
    using assms(1) by (auto intro: nth_mem)
  then show ?thesis using fd_get_opened [OF assms(2)] by (auto simp: ends_of_def in_Union_mset_iff)
qed

section \<open>The invariant of the tables\<close>

definition table_ok :: "FileTable \<Rightarrow> bool" where
  "table_ok fds \<longleftrightarrow> length fds \<le> MAX_FDS
     \<and> (\<forall>f. Some (Disk f) \<in> set fds \<longrightarrow> fid_slot (df_id f) < 256 \<and> df_offset f \<le> U32_MAX)"

definition file_inv :: "file_world \<Rightarrow> bool" where
  "file_inv w \<longleftrightarrow> wf_fs (vol w) \<and> counted (pipes w) (ends_of w) \<and> (\<forall>fds\<in>set (tables w). table_ok fds)"

lemma file_invD:
  assumes "file_inv w"
  shows "wf_fs (vol w)" "counted (pipes w) (ends_of w)" "t < length (tables w) \<Longrightarrow> table_ok (tables w ! t)"
  using assms by (auto simp: file_inv_def)

lemma table_ok_disk:
  assumes "table_ok fds" "fd_get fd fds = Some (Disk f)"
  shows "fid_slot (df_id f) < 256" "df_offset f \<le> U32_MAX"
  using assms by (auto simp: table_ok_def fd_get_def split: if_splits) (metis nth_mem)+

lemma table_ok_upd:
  assumes "table_ok fds"
    and "\<And>f. v = Some (Disk f) \<Longrightarrow> fid_slot (df_id f) < 256 \<and> df_offset f \<le> U32_MAX"
  shows "table_ok (fds[fd := v])"
  using assms set_update_subset_insert [of fds fd v] by (fastforce simp: table_ok_def)

lemma fd_get_upd:
  assumes "fd < length fds"
  shows "fd_get fd' (fds[fd := v]) = (if fd' = fd then v else fd_get fd' fds)"
  using assms by (simp add: fd_get_def)

text \<open>Replacing a table keeps the invariant when the pipes are adjusted to its open files.\<close>

lemma file_inv_table:
  assumes inv: "file_inv w" and t: "t < length (tables w)" and ok: "table_ok fds" and wf: "wf_fs s"
    and w': "w' = w\<lparr>vol := s, tables := (tables w)[t := fds], pipes := ps\<rparr>"
    and ps: "\<And>M. counted (pipes w) (M + table_files (tables w ! t)) \<Longrightarrow> counted ps (M + table_files fds)"
  shows "file_inv w'"
proof -
  obtain M where M: "ends_of w = M + table_files (tables w ! t)"
    using ends_of_table [OF t, of "[]"] by (metis add.right_neutral table_files_simps(1))
  then have "ends_of (w\<lparr>tables := (tables w)[t := fds]\<rparr>) = M + table_files fds"
    using ends_of_table [OF t, of fds] by simp
  then have e: "ends_of w' = M + table_files fds"
    by (simp add: w' ends_of_def)
  show ?thesis
    using inv ok ps [of M] M e t wf set_update_subset_insert [of "tables w" t fds]
    by (auto simp: file_inv_def w')
qed


lemma file_inv_put:
  assumes inv: "file_inv w" and t: "t < length (tables w)" "fd < length (tables w ! t)"
    and ok: "\<And>f. v = Some (Disk f) \<Longrightarrow> fid_slot (df_id f) < 256 \<and> df_offset f \<le> U32_MAX"
    and wf: "wf_fs s"
    and ps: "\<And>M. counted (pipes w) (M + opened (tables w ! t ! fd)) \<Longrightarrow> counted ps (M + opened v)"
  shows "file_inv (w\<lparr>vol := s, tables := (tables w)[t := (tables w ! t)[fd := v]], pipes := ps\<rparr>)"
proof (rule file_inv_table [OF inv t(1) table_ok_upd wf refl])
  fix M assume c: "counted (pipes w) (M + table_files (tables w ! t))"
  obtain N where N: "table_files (tables w ! t) = N + opened (tables w ! t ! fd)"
    using table_files_upd [OF t(2), of None] by (metis add.right_neutral opened_simps(1))
  then have "table_files ((tables w ! t)[fd := v]) = N + opened v"
    using table_files_upd [OF t(2), of v] by simp
  then show "counted ps (M + table_files ((tables w ! t)[fd := v]))"
    using ps [of "M + N"] c N by (simp add: ac_simps)
qed (use ok file_invD(3) [OF inv t(1)] in auto)

lemma fd_free_slot_cases:
  assumes inv: "file_inv w" and t: "t < length (tables w)"
  obtains (ok) fd w' fds where "fd_free_slot t w = (Inr fd, w')" "w' = w\<lparr>tables := (tables w)[t := fds]\<rparr>"
      "file_inv w'" "fds = tables w ! t \<or> fds = tables w ! t @ [None]" "fd < length fds"
      "fds ! fd = None" "\<forall>j<fd. fds ! j \<noteq> None"
  | (full) "fd_free_slot t w = (Inl TooManyOpenFiles, w)" "length (tables w ! t) = MAX_FDS"
      "None \<notin> set (tables w ! t)"
proof (cases "find (\<lambda>fd. tables w ! t ! fd = None) [0..<length (tables w ! t)]")
  case (Some fd)
  then have "fd < length (tables w ! t)" "tables w ! t ! fd = None" "\<forall>j<fd. tables w ! t ! j \<noteq> None"
    by (auto simp: find_Some_iff)
  then show thesis using ok [of fd w "tables w ! t"] Some inv by (simp add: fd_free_slot_def Let_def)
next
  case None
  then have full': "\<forall>j<length (tables w ! t). tables w ! t ! j \<noteq> None" by (auto simp: find_None_iff)
  note len = file_invD(3) [OF inv t, unfolded table_ok_def]
  show thesis
  proof (cases "length (tables w ! t) < MAX_FDS")
    case True
    let ?w = "w\<lparr>tables := (tables w)[t := tables w ! t @ [None]]\<rparr>"
    have "file_inv ?w"
      using file_inv_table [OF inv t _ file_invD(1) [OF inv], of "tables w ! t @ [None]" ?w "pipes w"] len True
      by (auto simp: table_ok_def)
    then show thesis
      using ok [of "length (tables w ! t)" ?w "tables w ! t @ [None]"] None full' True
      by (simp add: fd_free_slot_def Let_def nth_append)
  next
    case False
    then show thesis using full None full' len
      by (auto simp: fd_free_slot_def Let_def in_set_conv_nth)
  qed
qed


section \<open>Every operation keeps the invariant\<close>

lemma file_inv_new_table:
  assumes "file_inv w" "table_ok fds" "counted ps (ends_of w + table_files fds)"
  shows "file_inv (w\<lparr>pipes := ps, tables := tables w @ [fds]\<rparr>)"
  using assms by (auto simp: file_inv_def ends_of_def ac_simps)

lemma with_console_inv: "file_inv w \<Longrightarrow> file_inv (snd (with_console w))"
proof -
  assume inv: "file_inv w"
  have "counted (pipes w) (ends_of w + table_files (replicate 3 (Some Console)))"
    using file_invD(2) [OF inv] by (simp add: counted_def numeral_3_eq_3)
  then show ?thesis
    using file_inv_new_table [OF inv, of "replicate 3 (Some Console)" "pipes w"]
    by (simp add: with_console_def table_ok_def)
qed

lemma inherit_loop_run:
  assumes "counted (pipes w) (ends_of w + table_files child)" "\<forall>f\<in>#table_files fds. f \<in># ends_of w"
    and "None \<notin> set child" "inherit_loop fds stdio child w = (r, w')"
  shows "\<exists>ps. w' = w\<lparr>pipes := ps\<rparr> \<and> (case r of Inl e \<Rightarrow> e = BadDescriptor \<and> counted ps (ends_of w)
      \<and> (\<exists>fd\<in>set stdio. fd_get fd fds = None)
    | Inr c \<Rightarrow> counted ps (ends_of w + table_files c) \<and> c = child @ map (\<lambda>fd. fd_get fd fds) stdio
      \<and> (\<forall>fd\<in>set stdio. fd_get fd fds \<noteq> None))"
  using assms
proof (induction stdio arbitrary: child w)
  case Nil
  then show ?case by (auto intro!: exI [where x = "pipes w"])
next
  case (Cons fd rest)
  show ?case
  proof (cases "fd_get fd fds")
    case None
    have "table_files child = mset (map the child)" using Cons.prems(3)
      by (induction child) (auto simp: not_None_eq [symmetric] dest: not_sym)
    then show ?thesis using None Cons.prems counted_drops [of "pipes w" "map the child" "ends_of w"]
      by (auto simp: bind_def ac_simps)
  next
    case (Some f)
    let ?w = "w\<lparr>pipes := clone_file f (pipes w)\<rparr>"
    have "f \<in># ends_of w + table_files child" using Cons.prems(2) fd_get_opened [OF Some] by auto
    then have "counted (pipes ?w) (ends_of ?w + table_files (child @ [Some f]))"
      using counted_clone [OF Cons.prems(1)] by simp
    then show ?thesis
      using Cons.IH [of ?w "child @ [Some f]"] Cons.prems Some by (fastforce simp: bind_def split: sum.splits)
  qed
qed

lemma inherit_inv:
  assumes inv: "file_inv w" and t: "t < length (tables w)" and n: "length stdio \<le> MAX_FDS"
  shows "file_inv (snd (inherit t stdio w))"
proof -
  have sub: "\<forall>f\<in>#table_files (tables w ! t). f \<in># ends_of w"
    using ends_of_table [OF t, of "[]"] by (metis add.right_neutral table_files_simps(1) union_iff)
  obtain r w' where run: "inherit_loop (tables w ! t) stdio [] w = (r, w')" by fastforce
  have "\<exists>ps. w' = w\<lparr>pipes := ps\<rparr> \<and> (case r of Inl e \<Rightarrow> counted ps (ends_of w)
    | Inr c \<Rightarrow> counted ps (ends_of w + table_files c) \<and> c = map (\<lambda>fd. fd_get fd (tables w ! t)) stdio)"
    using inherit_loop_run [OF _ sub _ run] file_invD(2) [OF inv] by (cases r) auto
  then obtain ps where w': "w' = w\<lparr>pipes := ps\<rparr>" and res: "case r of Inl e \<Rightarrow> counted ps (ends_of w)
    | Inr c \<Rightarrow> counted ps (ends_of w + table_files c) \<and> c = map (\<lambda>fd. fd_get fd (tables w ! t)) stdio"
    by blast
  show ?thesis
  proof (cases r)
    case (Inl e)
    then show ?thesis using inv res run w' by (auto simp: inherit_def bind_def file_inv_def)
  next
    case (Inr c)
    have "table_ok c" using res Inr n table_ok_disk [OF file_invD(3) [OF inv t]] by (auto simp: table_ok_def)
    moreover have "counted ps (ends_of w + table_files c)" using res Inr by auto
    ultimately have "file_inv (w\<lparr>pipes := ps, tables := tables w @ [c]\<rparr>)"
      by (rule file_inv_new_table [OF inv])
    then show ?thesis using run Inr w' by (simp add: inherit_def bind_def)
  qed
qed


lemma open_file_slot:
  assumes "wf_fs s" "0 \<notin> set name" "open_file_unlocked name create trunc s = (r, s')"
  shows "wf_fs s'" "r = Inr fid \<Longrightarrow> fid_slot fid < 256"
proof -
  show "wf_fs s'" using call_wf [OF assms(1), of "Open name create trunc"] assms by simp
  show "fid_slot fid < 256" if "r = Inr fid"
  proof (cases "name \<noteq> [] \<and> length name \<le> 21")
    case True
    then show ?thesis using assms(3) that
      by (cases rule: open_file_cases [OF assms(1) _ _ assms(2), of create trunc])
         (auto simp: valid_handle_def used_def)
  next
    case False
    then show ?thesis using assms(3) that wf_fsD(1,2) [OF assms(1)]
      by (auto simp: open_file_unlocked_def find_file_unlocked_def bind_def read_boot_ok)
  qed
qed

lemma file_inv_vol: "file_inv w \<Longrightarrow> wf_fs s \<Longrightarrow> file_inv (w\<lparr>vol := s\<rparr>)"
  by (simp add: file_inv_def)

lemma file_inv_printed: "file_inv (w\<lparr>printed := l\<rparr>) \<longleftrightarrow> file_inv w"
  by (simp add: file_inv_def)

lemma file_open_inv:
  assumes inv: "file_inv w" and t: "t < length (tables w)" and name: "0 \<notin> set name"
  shows "file_inv (snd (file_open t name flags w))"
  using inv t
proof (cases rule: fd_free_slot_cases)
  case (ok fd w' fds)
  have t': "t < length (tables w')" "tables w' ! t = fds" using ok t by auto
  obtain r s where o: "open_file_unlocked name (flags AND O_CREATE \<noteq> 0) (flags AND O_TRUNC \<noteq> 0) (vol w') = (r, s)"
    by fastforce
  note slot = open_file_slot [OF file_invD(1) [OF ok(3)] name o]
  have "file_inv (w'\<lparr>vol := s, tables := (tables w')[t := (tables w' ! t)[fd := Some (Disk \<lparr>df_id = fid,
      df_offset = 0, df_flags = flags\<rparr>)]], pipes := pipes w'\<rparr>)" if "r = Inr fid" for fid
    by (rule file_inv_put [OF ok(3) t'(1)])
       (use ok t' slot that in \<open>auto simp: counted_def\<close>)
  then show ?thesis
    using inv ok(1,3) o file_inv_vol [OF ok(3) slot(1)]
    by (cases r) (auto simp: file_open_def bind_def on_fs_def fd_put_def)
qed (use inv in \<open>auto simp: file_open_def bind_def\<close>)

lemma file_socket_inv:
  assumes inv: "file_inv w" and t: "t < length (tables w)"
  shows "file_inv (snd (file_socket t kind w))"
proof -
  let ?w = "w\<lparr>socket_count := socket_count w + 1\<rparr>"
  have inv': "file_inv ?w" using inv by (simp add: file_inv_def)
  have t1: "t < length (tables ?w)" using t by simp
  show ?thesis
    using inv' t1
  proof (cases rule: fd_free_slot_cases)
    case (ok fd w' fds)
    have t': "t < length (tables w')" "tables w' ! t = fds" using ok t by auto
    have "file_inv (w'\<lparr>vol := vol w', tables := (tables w')[t := (tables w' ! t)[fd := Some v]], pipes := pipes w'\<rparr>)"
      if "v = Udp n \<or> v = Tcp n" for v n
      by (rule file_inv_put [OF ok(3) t'(1)])
         (use ok t' that file_invD(1) [OF ok(3)] in \<open>auto simp: counted_def\<close>)
    then show ?thesis using inv ok(1) by (auto simp: file_socket_def bind_def fd_put_def)
  qed (use inv inv' in \<open>auto simp: file_socket_def bind_def\<close>)
qed


lemma fd_free_slot_held: "fd_free_slot t (w\<lparr>held := h\<rparr>) = apsnd (held_update (\<lambda>_. h)) (fd_free_slot t w)"
  by (simp add: fd_free_slot_def Let_def split: option.split)

text \<open>A held file moves into a free descriptor.\<close>

lemma file_inv_settle:
  assumes inv: "file_inv w" and t: "t < length (tables w)" "fd < length (tables w ! t)" "tables w ! t ! fd = None"
    and h: "held w = f # h" and nd: "\<And>d. f \<noteq> Disk d"
  shows "file_inv (w\<lparr>held := h, tables := (tables w)[t := (tables w ! t)[fd := Some f]]\<rparr>)"
proof -
  let ?T = "(tables w ! t)[fd := Some f]"
  have tf: "table_files ?T = add_mset f (table_files (tables w ! t))"
    using table_files_upd [OF t(2), of "Some f"] t(3) by simp
  let ?w = "w\<lparr>held := h, tables := (tables w)[t := ?T]\<rparr>"
  have "ends_of (w\<lparr>tables := (tables w)[t := ?T]\<rparr>) = add_mset f (ends_of w)"
    using ends_of_table [OF t(1), of ?T] tf by simp
  then have "ends_of ?w = ends_of w" using h by (simp add: ends_of_def)
  moreover have "table_ok ?T" by (rule table_ok_upd [OF file_invD(3) [OF inv t(1)]]) (use nd in auto)
  ultimately show ?thesis
    using inv set_update_subset_insert [of "tables w" t ?T] by (auto simp: file_inv_def)
qed

lemma file_inv_unhold:
  assumes "file_inv w" "held w = f # h"
  shows "file_inv (w\<lparr>held := h, pipes := drop_file f (pipes w)\<rparr>)"
  using assms counted_drop [of "pipes w" f "ends_of (w\<lparr>held := h\<rparr>)"]
  by (simp add: file_inv_def ends_of_def)

lemma file_pipe_inv:
  assumes inv: "file_inv w" and t: "t < length (tables w)"
  shows "file_inv (snd (file_pipe t w))"
proof -
  let ?p = "length (pipes w)" and ?w1 = "w\<lparr>pipes := pipes w @ [pipe_new]\<rparr>"
  let ?h = "\<lambda>w'. PipeRead ?p # PipeWrite ?p # held w'"
  let ?w1h = "?w1\<lparr>held := ?h w\<rparr>"
  have inv1: "file_inv ?w1h"
    using inv counted_new [of "pipes w" "ends_of w"] by (simp add: file_inv_def ends_of_def)
  have t1: "t < length (tables ?w1h)" using t by simp
  show ?thesis
    using inv1 t1
  proof (cases rule: fd_free_slot_cases)
    case (ok rfd w2h fds)
    define w2 where "w2 = w2h\<lparr>held := held w\<rparr>"
    have w2: "fd_free_slot t ?w1 = (Inr rfd, w2)"
      using fd_free_slot_held [where t = t and w = ?w1h and h = "held w"] ok(1) by (simp add: w2_def)
    have t2: "t < length (tables w2h)" "tables w2h ! t = fds" "held w2h = ?h w" using ok t by auto
    let ?w3h = "w2h\<lparr>held := PipeWrite ?p # held w, tables := (tables w2h)[t := (tables w2h ! t)[rfd := Some (PipeRead ?p)]]\<rparr>"
    let ?w3 = "snd (fd_put t rfd (Some (PipeRead ?p)) w2)"
    have inv3: "file_inv ?w3h"
      by (rule file_inv_settle [OF ok(3) t2(1)]) (use ok t2 in auto)
    have w3: "?w3 = ?w3h\<lparr>held := held w\<rparr>" by (simp add: fd_put_def w2_def)
    have t3: "t < length (tables ?w3h)" using t2 by simp
    show ?thesis
      using inv3 t3
    proof (cases rule: fd_free_slot_cases)
      case ok2: (ok wfd w4h fds2)
      have "fd_free_slot t ?w3 = (Inr wfd, w4h\<lparr>held := held w\<rparr>)"
        using fd_free_slot_held [where t = t and w = ?w3h and h = "held w"] ok2(1) w3 by simp
      moreover have "file_inv (w4h\<lparr>held := held w, tables := (tables w4h)[t := (tables w4h ! t)[wfd := Some (PipeWrite ?p)]]\<rparr>)"
        by (rule file_inv_settle [OF ok2(3)]) (use ok2 t2 in auto)
      ultimately show ?thesis using w2 by (simp add: file_pipe_def Let_def fd_put_def)
    next
      case full2: full
      have "fd_free_slot t ?w3 = (Inl TooManyOpenFiles, ?w3)"
        using fd_free_slot_held [where t = t and w = ?w3h and h = "held w"] full2(1) w3 by simp
      moreover have "(tables w2h)[t := (tables w2h ! t)[rfd := None]] = tables w2h"
        using ok t2 by (metis list_update_id)
      then have "file_inv (w2h\<lparr>held := held w, tables := (tables w2h)[t := (tables w2h ! t)[rfd := None]],
          pipes := drop_file (PipeWrite ?p) (drop_file (PipeRead ?p) (pipes w2h))\<rparr>)"
        using file_inv_unhold [OF file_inv_unhold [OF ok(3) t2(3)], of "PipeWrite ?p"]
        by (simp add: file_inv_def ends_of_def)
      ultimately show ?thesis using w2 t2(1) by (simp add: file_pipe_def Let_def fd_put_def w2_def)
    qed
  next
    case full
    have "fd_free_slot t ?w1 = (Inl TooManyOpenFiles, ?w1)"
      using fd_free_slot_held [where t = t and w = ?w1h and h = "held w"] full(1) by simp
    then show ?thesis
      using file_inv_unhold [OF file_inv_unhold [OF inv1], of "PipeRead ?p" _ "PipeWrite ?p"]
      by (simp add: file_pipe_def Let_def)
  qed
qed

lemma hold_inv:
  assumes "file_inv w" "f \<in># ends_of w"
  shows "file_inv (snd (hold f w))"
  using assms counted_clone [of "pipes w" "ends_of w" f]
  by (simp add: hold_def bind_def file_inv_def ends_of_def)

lemma release_inv:
  assumes "file_inv w" "f \<in> set (held w)"
  shows "file_inv (snd (release f w))"
proof -
  let ?w = "w\<lparr>held := f # remove1 f (held w)\<rparr>"
  have "ends_of ?w = ends_of w" using assms(2) by (simp add: ends_of_def)
  then have "file_inv ?w" using assms(1) by (simp add: file_inv_def)
  from file_inv_unhold [OF this, of f "remove1 f (held w)"] show ?thesis by (simp add: release_def)
qed

lemma fd_get_lt: "fd_get fd fds = Some f \<Longrightarrow> fd < length fds \<and> fds ! fd = Some f"
  by (simp add: fd_get_def split: if_splits)

lemma file_close_inv:
  assumes inv: "file_inv w" and t: "t < length (tables w)"
  shows "file_inv (snd (file_close t fd w))"
proof (cases "fd_get fd (tables w ! t)")
  case (Some f)
  have "file_inv (w\<lparr>vol := vol w, tables := (tables w)[t := (tables w ! t)[fd := None]], pipes := drop_file f (pipes w)\<rparr>)"
    by (rule file_inv_put [OF inv t])
       (use fd_get_lt [OF Some] file_invD(1) [OF inv] in \<open>auto simp: counted_drop\<close>)
  then show ?thesis using Some by (simp add: file_close_def bind_def fd_put_def)
qed (use inv in \<open>simp add: file_close_def bind_def\<close>)

lemma drop_table_inv:
  assumes inv: "file_inv w" and t: "t < length (tables w)"
  shows "file_inv (snd (drop_table t w))"
  unfolding drop_table_def modify_run snd_conv
  by (rule file_inv_table [OF inv t _ file_invD(1) [OF inv], where fds = "[]"])
     (auto simp: table_ok_def table_files_def counted_drops ac_simps)


lemma open_entry_bad:
  assumes "wf_fs s" "fid_slot fid < 256" "\<not> valid_handle s fid"
  shows "read_at_unlocked fid off n s = (Inl FileNotFound, s)" "write_at_unlocked fid off' data s = (Inl FileNotFound, s)"
    "file_size_unlocked fid s = (Inl FileNotFound, s)"
  using open_entry_other [OF wf_fsD(1) [OF assms(1)] assms(2,3)]
  by (simp_all add: read_at_unlocked_def write_at_unlocked_def file_size_unlocked_def bind_def)

lemma content_length:
  assumes "wf_fs s" "valid_handle s fid"
  shows "length (content_of (disk s) (dir_of (fid_slot fid) (disk s))) = unat (de_size (dir_of (fid_slot fid) (disk s)))"
proof -
  have u: "used (disk s) (fid_slot fid)" using assms(2) by (simp add: valid_handle_def)
  show ?thesis using wf_slot(2) [OF assms(1) u] by (simp add: content_of_used [OF u] min_absorb1)
qed

lemma file_size_run:
  assumes "wf_fs s" "valid_handle s fid"
  shows "file_size_unlocked fid s = (Inr (length (content_of (disk s) (dir_of (fid_slot fid) (disk s)))), s)"
  using open_entry_ok [OF wf_fsD(1) [OF assms(1)] assms(2)] content_length [OF assms]
  by (simp add: file_size_unlocked_def bind_def)

lemma content_bound:
  assumes "wf_fs s" "valid_handle s fid"
  shows "length (content_of (disk s) (dir_of (fid_slot fid) (disk s))) \<le> U32_MAX"
proof -
  have "unat (de_size (dir_of (fid_slot fid) (disk s))) < 2 ^ LENGTH(32)" by (rule unsigned_less)
  then show ?thesis using content_length [OF assms] by simp
qed

lemma write_at_bound:
  assumes wf: "wf_fs s" and slot: "fid_slot fid < 256" and o: "\<And>x. offset = Some x \<Longrightarrow> x \<le> U32_MAX"
    and run: "write_at_unlocked fid offset data s = (Inr (start, n), s')"
  shows "start + n \<le> U32_MAX"
proof (cases "valid_handle s fid")
  case False
  then show ?thesis using open_entry_bad(2) [OF wf slot] run by simp
next
  case h: True
  define old where "old = content_of (disk s) (dir_of (fid_slot fid) (disk s))"
  have len: "length old \<le> U32_MAX" using content_bound [OF wf h] by (simp add: old_def)
  define off where "off = (case offset of None \<Rightarrow> length old | Some x \<Rightarrow> x)"
  have off: "off \<le> U32_MAX" using o len by (auto simp: off_def split: option.split)
  show ?thesis
  proof (cases "data = []")
    case True
    then show ?thesis using run open_entry_ok [OF wf_fsD(1) [OF wf] h] content_length [OF wf h] off
      by (auto simp: write_at_unlocked_def bind_def Let_def off_def old_def split: option.splits)
  next
    case ne: False
    show ?thesis
    proof (cases "off + length data \<le> 2 ^ 32 - 1")
      case True
      show ?thesis
        by (cases rule: write_at_cases [OF wf h ne refl refl off_def [unfolded old_def] True]) (use run True in auto)
    next
      case False
      then show ?thesis using run ne open_entry_ok [OF wf_fsD(1) [OF wf] h] content_length [OF wf h]
        by (auto simp: write_at_unlocked_def bind_def Let_def off_def old_def split: option.splits)
    qed
  qed
qed

text \<open>A disk transfer: the volume changes and the descriptor's offset moves within bounds.\<close>

lemma file_inv_disk:
  assumes inv: "file_inv w" and t: "t < length (tables w)" and fd: "fd_get fd (tables w ! t) = Some (Disk f)"
    and wf: "wf_fs s" and off: "off \<le> U32_MAX"
  shows "file_inv (w\<lparr>vol := s, tables := (tables w)[t := (tables w ! t)[fd := Some (Disk (f\<lparr>df_offset := off\<rparr>))]]\<rparr>)"
proof -
  have "file_inv (w\<lparr>vol := s, tables := (tables w)[t := (tables w ! t)[fd := Some (Disk (f\<lparr>df_offset := off\<rparr>))]],
      pipes := pipes w\<rparr>)"
    by (rule file_inv_put [OF inv t])
       (use fd_get_lt [OF fd] off wf table_ok_disk [OF file_invD(3) [OF inv t] fd] in \<open>auto simp: counted_def\<close>)
  then show ?thesis by simp
qed

lemma file_read_inv:
  assumes inv: "file_inv w" and t: "t < length (tables w)"
  shows "file_inv (snd (file_read t fd len w))"
proof (cases "fd_get fd (tables w ! t)")
  case (Some g)
  note wf = file_invD(1) [OF inv] and hold = hold_inv [OF inv fd_get_ends [OF t Some]]
  show ?thesis
  proof (cases g)
    case (Disk f)
    note d = table_ok_disk [OF file_invD(3) [OF inv t] Some [unfolded Disk]]
    show ?thesis
    proof (cases "valid_handle (vol w) (df_id f)")
      case True
      let ?c = "content_of (disk (vol w)) (dir_of (fid_slot (df_id f)) (disk (vol w)))"
      have "df_offset f + min len (length ?c - df_offset f) \<le> U32_MAX"
        using content_bound [OF wf True] d(2) by simp
      then show ?thesis
        using file_inv_disk [OF inv t Some [unfolded Disk] wf] read_at_run [OF wf True] Some Disk inv
        by (simp add: file_read_def bind_def on_fs_def fd_put_def)
    next
      case False
      then show ?thesis using open_entry_bad(1) [OF wf d(1)] Some Disk inv
        by (simp add: file_read_def bind_def on_fs_def)
    qed
  qed (use Some inv hold in \<open>simp_all add: file_read_def bind_def\<close>)
qed (use inv in \<open>simp add: file_read_def bind_def\<close>)

lemma file_write_inv:
  assumes inv: "file_inv w" and t: "t < length (tables w)"
  shows "file_inv (snd (file_write t fd data w))"
proof (cases "fd_get fd (tables w ! t)")
  case (Some g)
  note wf = file_invD(1) [OF inv] and hold = hold_inv [OF inv fd_get_ends [OF t Some]]
  show ?thesis
  proof (cases g)
    case (Disk f)
    note d = table_ok_disk [OF file_invD(3) [OF inv t] Some [unfolded Disk]]
    define o' where "o' = (if df_flags f AND O_APPEND \<noteq> 0 then None else Some (df_offset f))"
    obtain r s where run: "write_at_unlocked (df_id f) o' data (vol w) = (r, s)" by fastforce
    have wf': "wf_fs s" using write_at_wf [OF wf d(1), of o' data] run by simp
    show ?thesis
    proof (cases r)
      case (Inl e)
      then show ?thesis using file_inv_vol [OF inv wf'] Some Disk inv run
        by (simp add: file_write_def bind_def on_fs_def Let_def flip: o'_def)
    next
      case (Inr p)
      obtain start n where p: "p = (start, n)" by fastforce
      have "start + n \<le> U32_MAX"
        by (rule write_at_bound [OF wf d(1) _ run [unfolded Inr p]]) (use d in \<open>auto simp: o'_def split: if_splits\<close>)
      then show ?thesis
        using file_inv_disk [OF inv t Some [unfolded Disk] wf'] Some Disk inv run Inr p
        by (simp add: file_write_def bind_def on_fs_def fd_put_def Let_def flip: o'_def)
    qed
  qed (use Some inv hold in \<open>simp_all add: file_write_def bind_def file_inv_printed\<close>)
qed (use inv in \<open>simp add: file_write_def bind_def\<close>)

lemma file_seek_inv:
  assumes inv: "file_inv w" and t: "t < length (tables w)"
  shows "file_inv (snd (file_seek t fd offset whence w))"
proof (cases "\<exists>f. fd_get fd (tables w ! t) = Some (Disk f)")
  case True
  then obtain f where f: "fd_get fd (tables w ! t) = Some (Disk f)" by auto
  note wf = file_invD(1) [OF inv] and d = table_ok_disk [OF file_invD(3) [OF inv t] f]
  have "snd (seek_base f whence w) = w"
    using file_size_run [OF wf, of "df_id f"] open_entry_bad(3) [OF wf d(1)]
    by (cases "valid_handle (vol w) (df_id f)") (auto simp: seek_base_def on_fs_def)
  then obtain r where r: "seek_base f whence w = (r, w)" by (metis prod.collapse)
  show ?thesis
    using file_inv_disk [OF inv t f wf] f r inv
    by (cases r) (auto simp: file_seek_def bind_def Let_def fd_put_def)
qed (use inv in \<open>auto simp: file_seek_def bind_def split: option.split OpenFile.split\<close>)


section \<open>Sequences of calls\<close>

datatype file_call =
    WithConsole
  | Inherit nat "nat list"
  | FOpen nat bytes u64
  | FPipe nat
  | FSocket nat nat
  | FRead nat nat nat
  | FWrite nat nat bytes
  | FClose nat nat
  | FSeek nat nat int nat
  | FRelease OpenFile
  | DropTable nat
  | OnFs fs_call

fun file_call_ok :: "file_call \<Rightarrow> file_world \<Rightarrow> bool" where
  "file_call_ok WithConsole w \<longleftrightarrow> True"
| "file_call_ok (Inherit t stdio) w \<longleftrightarrow> t < length (tables w) \<and> length stdio = 3"
| "file_call_ok (FOpen t name flags) w \<longleftrightarrow> t < length (tables w) \<and> 0 \<notin> set name"
| "file_call_ok (FPipe t) w \<longleftrightarrow> t < length (tables w)"
| "file_call_ok (FSocket t kind) w \<longleftrightarrow> t < length (tables w)"
| "file_call_ok (FRead t fd len) w \<longleftrightarrow> t < length (tables w)"
| "file_call_ok (FWrite t fd data) w \<longleftrightarrow> t < length (tables w)"
| "file_call_ok (FClose t fd) w \<longleftrightarrow> t < length (tables w)"
| "file_call_ok (FSeek t fd offset whence) w \<longleftrightarrow> t < length (tables w)"
| "file_call_ok (FRelease f) w \<longleftrightarrow> f \<in> set (held w)"
| "file_call_ok (DropTable t) w \<longleftrightarrow> t < length (tables w)"
| "file_call_ok (OnFs c) w \<longleftrightarrow> call_ok c"

fun file_call_state :: "file_call \<Rightarrow> file_world \<Rightarrow> file_world" where
  "file_call_state WithConsole w = snd (with_console w)"
| "file_call_state (Inherit t stdio) w = snd (inherit t stdio w)"
| "file_call_state (FOpen t name flags) w = snd (file_open t name flags w)"
| "file_call_state (FPipe t) w = snd (file_pipe t w)"
| "file_call_state (FSocket t kind) w = snd (file_socket t kind w)"
| "file_call_state (FRead t fd len) w = snd (file_read t fd len w)"
| "file_call_state (FWrite t fd data) w = snd (file_write t fd data w)"
| "file_call_state (FClose t fd) w = snd (file_close t fd w)"
| "file_call_state (FSeek t fd offset whence) w = snd (file_seek t fd offset whence w)"
| "file_call_state (FRelease f) w = snd (release f w)"
| "file_call_state (DropTable t) w = snd (drop_table t w)"
| "file_call_state (OnFs c) w = w\<lparr>vol := call_state c (vol w)\<rparr>"

definition file_boot :: "fs_state \<Rightarrow> file_world" where
  "file_boot s = \<lparr>vol = s, pipes = [], socket_count = 0, printed = [], tables = [], held = []\<rparr>"

inductive file_reach :: "file_world \<Rightarrow> bool" where
  boot: "wf_fs s \<Longrightarrow> file_reach (file_boot s)"
| call: "file_reach w \<Longrightarrow> file_call_ok c w \<Longrightarrow> file_reach (file_call_state c w)"

lemma file_call_inv: "file_inv w \<Longrightarrow> file_call_ok c w \<Longrightarrow> file_inv (file_call_state c w)"
  by (cases c) (simp_all add: with_console_inv inherit_inv file_open_inv file_pipe_inv file_socket_inv
      file_read_inv file_write_inv file_close_inv file_seek_inv release_inv drop_table_inv
      file_inv_vol call_wf file_invD(1))

lemma file_reach_file_inv: "file_reach w \<Longrightarrow> file_inv w"
proof (induction rule: file_reach.induct)
  case (boot s)
  then show ?case
    by (simp add: file_boot_def file_inv_def ends_of_def counted_def reader_count_def writer_count_def)
qed (rule file_call_inv)

section \<open>Properties\<close>

lemma content_view:
  assumes "wf_fs s" "valid_handle s fid" "stored_name (dir_of (fid_slot fid) (disk s)) = nm"
  shows "fs_view (disk s) nm = Some (content_of (disk s) (dir_of (fid_slot fid) (disk s)))"
  using used_lookup [OF wf_fsD(4) [OF assms(1)], of "fid_slot fid"] assms(2,3)
  by (simp add: fs_view_def valid_handle_def)

lemma overlay_window: "take (length data) (drop off (overlay off data old)) = data"
  by (simp add: overlay_def)

text \<open>The bytes behind a descriptor.\<close>

definition disk_content :: "file_world \<Rightarrow> DiskFile \<Rightarrow> bytes" where
  "disk_content w f = content_of (disk (vol w)) (dir_of (fid_slot (df_id f)) (disk (vol w)))"

lemma file_read_disk:
  assumes "wf_fs (vol w)" "fd_get fd (tables w ! t) = Some (Disk f)" "df_flags f AND O_READ \<noteq> 0"
    and "valid_handle (vol w) (df_id f)" "bs = take len (drop (df_offset f) (disk_content w f))"
  shows "file_read t fd len w = (Inr (Finished bs),
    w\<lparr>tables := (tables w)[t := (tables w ! t)[fd := Some (Disk (f\<lparr>df_offset := df_offset f + length bs\<rparr>))]]\<rparr>)"
  using read_at_run [OF assms(1,4)] assms(2,3,5)
  by (simp add: file_read_def bind_def on_fs_def fd_put_def disk_content_def)

section \<open>Example worlds\<close>

text \<open>A process with the file \<^verbatim>\<open>a\<close> of the example volume open for reading and writing at offset 1.\<close>

definition demo_file :: DiskFile where
  "demo_file = \<lparr>df_id = one_handle, df_offset = 1, df_flags = 3\<rparr>"

definition demo_world :: file_world where
  "demo_world = (file_boot one_file)\<lparr>tables := [[Some Console, Some (Disk demo_file)]]\<rparr>"

lemma demo_world_inv: "file_inv demo_world"
  using one_file_props(1) one_handle_props(1)
  by (simp add: file_inv_def demo_world_def file_boot_def ends_of_def counted_def reader_count_def
      writer_count_def table_ok_def demo_file_def valid_handle_def used_def)

lemma demo_world_simps:
  "vol demo_world = one_file" "tables demo_world = [[Some Console, Some (Disk demo_file)]]"
  "disk_content demo_world demo_file = [1, 2, 3]" "valid_handle (vol demo_world) (df_id demo_file)"
  "fd_get 1 (tables demo_world ! 0) = Some (Disk demo_file)"
  using one_handle_props by (simp_all add: demo_world_def file_boot_def disk_content_def demo_file_def fd_get_def)

section \<open>Properties\<close>

text \<open>C21. In every state the tables reach by any sequence of calls, failing ones included, the reader
  and writer counts of each pipe are exactly the descriptors and blocked calls that
  hold such an end, no table has more than 32 descriptors, and every offset fits in 32 bits.\<close>

theorem file_reach_inv:
  assumes "file_reach w"
  shows "(\<forall>p<length (pipes w). readers (pipes w ! p) = count (ends_of w) (PipeRead p)
      \<and> writers (pipes w ! p) = count (ends_of w) (PipeWrite p))
    \<and> (\<forall>fds\<in>set (tables w). length fds \<le> 32 \<and>
        (\<forall>f. Some (Disk f) \<in> set fds \<longrightarrow> df_offset f \<le> 2 ^ 32 - 1))"
  using file_reach_file_inv [OF assms]
  by (auto simp: file_inv_def counted_def table_ok_def reader_count_def writer_count_def split: if_splits)

theorem file_reach_inv_witness:
  "let w = file_call_state (FClose 0 4) (file_call_state (Inherit 0 [0, 1, 4])
      (file_call_state (FPipe 0) (file_call_state WithConsole (file_boot one_file))))
   in file_reach w \<and> readers (pipes w ! 0) = 1 \<and> writers (pipes w ! 0) = count (ends_of w) (PipeWrite 0)"
proof -
  let ?w = "file_call_state (FClose 0 4) (file_call_state (Inherit 0 [0, 1, 4])
      (file_call_state (FPipe 0) (file_call_state WithConsole (file_boot one_file))))"
  have r: "file_reach ?w"
    by (intro file_reach.intros one_file_props(1))
       (simp_all add: file_boot_def with_console_def file_pipe_def fd_free_slot_def fd_put_def inherit_def
          bind_def fd_get_def Let_def numeral_3_eq_3)
  have "length (pipes ?w) = 1" "readers (pipes ?w ! 0) = 1"
    by (simp_all add: file_boot_def with_console_def file_pipe_def fd_free_slot_def fd_put_def inherit_def
          bind_def fd_get_def Let_def numeral_3_eq_3 file_close_def drop_writer_def clone_writer_def pipe_new_def)
  then show ?thesis using r file_reach_inv [OF r] by (simp add: Let_def)
qed

text \<open>C23. Reading through a descriptor in two calls gives the same bytes, in order, as one call for
  the sum of the lengths, and leaves the same state.\<close>

theorem file_read_split:
  assumes "file_inv w" "t < length (tables w)" "fd_get fd (tables w ! t) = Some (Disk f)"
    and "df_flags f AND O_READ \<noteq> 0" "valid_handle (vol w) (df_id f)"
  shows "\<exists>as bs w1 w2. file_read t fd n w = (Inr (Finished as), w1)
    \<and> file_read t fd m w1 = (Inr (Finished bs), w2)
    \<and> file_read t fd (n + m) w = (Inr (Finished (as @ bs)), w2)"
proof -
  let ?c = "disk_content w f"
  define as where "as = take n (drop (df_offset f) ?c)"
  define bs where "bs = take m (drop (df_offset f + length as) ?c)"
  let ?f1 = "f\<lparr>df_offset := df_offset f + length as\<rparr>"
  let ?w1 = "w\<lparr>tables := (tables w)[t := (tables w ! t)[fd := Some (Disk ?f1)]]\<rparr>"
  have ab: "take (n + m) (drop (df_offset f) ?c) = as @ bs"
    using take_add [of n m "drop (df_offset f) ?c"]
    by (cases "n \<le> length ?c - df_offset f") (simp_all add: as_def bs_def add.commute [of _ "df_offset f"])
  have fd: "fd < length (tables w ! t)" using fd_get_lt [OF assms(3)] by simp
  have 1: "file_read t fd n w = (Inr (Finished as), ?w1)"
    using file_read_disk [OF file_invD(1) [OF assms(1)] assms(3-5) as_def] .
  have g1: "fd_get fd (tables ?w1 ! t) = Some (Disk ?f1)" using assms(2) fd by (simp add: fd_get_def)
  have 2: "file_read t fd m ?w1 = (Inr (Finished bs),
      ?w1\<lparr>tables := (tables ?w1)[t := (tables ?w1 ! t)[fd := Some (Disk (?f1\<lparr>df_offset := df_offset ?f1 + length bs\<rparr>))]]\<rparr>)"
    by (rule file_read_disk [OF _ g1]) (use assms file_invD(1) [OF assms(1)] in \<open>simp_all add: bs_def disk_content_def\<close>)
  have 3: "file_read t fd (n + m) w = (Inr (Finished (as @ bs)), w\<lparr>tables := (tables w)[t := (tables w ! t)[fd :=
      Some (Disk (f\<lparr>df_offset := df_offset f + length (as @ bs)\<rparr>))]]\<rparr>)"
    using file_read_disk [OF file_invD(1) [OF assms(1)] assms(3-5) ab [symmetric]] .
  show ?thesis using 1 2 3 assms(2) by (auto simp: add.assoc)
qed

theorem file_read_split_witness:
  "\<exists>as bs w1 w2. file_read 0 1 1 demo_world = (Inr (Finished as), w1)
    \<and> file_read 0 1 5 w1 = (Inr (Finished bs), w2)
    \<and> file_read 0 1 6 demo_world = (Inr (Finished (as @ bs)), w2)"
  using file_read_split [OF demo_world_inv, of 0 1 demo_file 1 5] demo_world_simps
  by (simp add: demo_file_def)

text \<open>C22. Data written at a descriptor's offset, with room on the volume, is read back after seeking
  back by its length; the write and the read each leave the offset after the data.\<close>

theorem file_write_read_back:
  assumes "file_inv w" "t < length (tables w)" "fd_get fd (tables w ! t) = Some (Disk f)"
    and "df_flags f AND O_READ \<noteq> 0" "df_flags f AND O_WRITE \<noteq> 0" "df_flags f AND O_APPEND = 0"
    and "valid_handle (vol w) (df_id f)" "data \<noteq> []" "df_offset f + length data \<le> 2 ^ 32 - 1"
    and "df_offset f + length data \<le> capacity (vol w) (fid_slot (df_id f))"
  shows "\<exists>w1 w2 w3. file_write t fd data w = (Inr (Finished (length data)), w1)
    \<and> file_seek t fd (- int (length data)) 1 w1 = (Inr (df_offset f), w2)
    \<and> file_read t fd (length data) w2 = (Inr (Finished data), w3)
    \<and> fd_get fd (tables w3 ! t) = Some (Disk (f\<lparr>df_offset := df_offset f + length data\<rparr>))
    \<and> fs_view (disk (vol w3)) = (fs_view (disk (vol w)))
        (stored_name (dir_of (fid_slot (df_id f)) (disk (vol w))) \<mapsto> overlay (df_offset f) data (disk_content w f))"
proof -
  note wf = file_invD(1) [OF assms(1)]
  let ?off = "df_offset f" and ?fid = "df_id f"
  let ?f' = "f\<lparr>df_offset := ?off + length data\<rparr>"
  have fd: "fd < length (tables w ! t)" using fd_get_lt [OF assms(3)] by simp
  have off: "?off = (case Some ?off of None \<Rightarrow> length (disk_content w f) | Some x \<Rightarrow> x)" by simp
  obtain s' where W: "write_at_unlocked ?fid (Some ?off) data (vol w) = (Inr (?off, length data), s')"
    "wf_fs s'" "valid_handle s' ?fid" and V: "fs_view (disk s') = (fs_view (disk (vol w)))
       (stored_name (dir_of (fid_slot ?fid) (disk (vol w))) \<mapsto> overlay ?off data (disk_content w f))"
    "stored_name (dir_of (fid_slot ?fid) (disk s')) = stored_name (dir_of (fid_slot ?fid) (disk (vol w)))"
    using assms(10) length_greater_0_conv [of data] assms(8)
    by (cases rule: write_at_cases [OF wf assms(7,8) refl disk_content_def off assms(9)]) (auto simp del: length_greater_0_conv)
  let ?w1 = "w\<lparr>vol := s', tables := (tables w)[t := (tables w ! t)[fd := Some (Disk ?f')]]\<rparr>"
  let ?w2 = "?w1\<lparr>tables := (tables w)[t := (tables w ! t)[fd := Some (Disk f)]]\<rparr>"
  have 1: "file_write t fd data w = (Inr (Finished (length data)), ?w1)"
    using W(1) assms(3,5,6) by (simp add: file_write_def bind_def on_fs_def fd_put_def)
  have 2: "file_seek t fd (- int (length data)) 1 ?w1 = (Inr ?off, ?w2)"
    using assms(2,9) fd by (simp add: file_seek_def bind_def fd_get_def seek_base_def Let_def fd_put_def)
  have "disk_content ?w2 f = overlay ?off data (disk_content w f)"
    using content_view [OF W(2,3) V(2)] V(1) by (simp add: disk_content_def)
  then have d: "data = take (length data) (drop ?off (disk_content ?w2 f))" by (simp add: overlay_window)
  have g: "fd_get fd (tables ?w2 ! t) = Some (Disk f)" using assms(2) fd by (simp add: fd_get_def)
  have 3: "file_read t fd (length data) ?w2 = (Inr (Finished data),
     ?w2\<lparr>tables := (tables ?w2)[t := (tables ?w2 ! t)[fd := Some (Disk ?f')]]\<rparr>)"
    by (rule file_read_disk [OF _ g assms(4) _ d]) (use W in simp_all)
  show ?thesis using 1 2 3 V assms(2) fd by (auto simp: fd_get_def)
qed


theorem file_write_read_back_witness:
  "\<exists>w1 w2 w3. file_write 0 1 [9, 8] demo_world = (Inr (Finished 2), w1)
    \<and> file_seek 0 1 (- 2) 1 w1 = (Inr 1, w2)
    \<and> file_read 0 1 2 w2 = (Inr (Finished [9, 8]), w3)
    \<and> fs_view (disk (vol w3)) = [[97] \<mapsto> [1, 9, 8]]"
proof -
  have ov: "overlay 1 [9, 8] [1, 2, 3] = ([1, 9, 8] :: bytes)" by (simp add: overlay_def)
  have cap: "3 \<le> capacity one_file (fid_slot one_handle)" using one_capacity [of 3] by simp
  have "\<exists>w1 w2 w3. file_write 0 1 [9, 8] demo_world = (Inr (Finished (length [9, 8 :: u8])), w1)
    \<and> file_seek 0 1 (- int (length [9, 8 :: u8])) 1 w1 = (Inr (df_offset demo_file), w2)
    \<and> file_read 0 1 (length [9, 8 :: u8]) w2 = (Inr (Finished [9, 8]), w3)
    \<and> fd_get 1 (tables w3 ! 0) = Some (Disk (demo_file\<lparr>df_offset := df_offset demo_file + length [9, 8 :: u8]\<rparr>))
    \<and> fs_view (disk (vol w3)) = (fs_view (disk (vol demo_world)))
        (stored_name (dir_of (fid_slot (df_id demo_file)) (disk (vol demo_world))) \<mapsto>
         overlay (df_offset demo_file) [9, 8] (disk_content demo_world demo_file))"
    by (rule file_write_read_back [OF demo_world_inv])
       (use cap demo_world_simps one_handle_props(1) in \<open>simp_all add: demo_file_def\<close>)
  moreover have "(fs_view (disk (vol demo_world)))
        (stored_name (dir_of (fid_slot (df_id demo_file)) (disk (vol demo_world))) \<mapsto>
         overlay (df_offset demo_file) [9, 8] (disk_content demo_world demo_file)) = [[97] \<mapsto> [1, 9, 8]]"
    using ov demo_world_simps(1,3) one_handle_props(2) one_file_props(2) by (simp add: demo_file_def)
  ultimately show ?thesis by (auto simp: demo_file_def numeral_2_eq_2)
qed

text \<open>C25. Opening a file returns the lowest free descriptor of the table, below 32, and makes it a
  file at offset 0 with the given flags; every other descriptor stays as it was.\<close>

theorem file_open_lowest:
  assumes "file_inv w" "t < length (tables w)" "file_open t name flags w = (Inr fd, w')"
  shows "fd < 32 \<and> fd_get fd (tables w ! t) = None \<and> (\<forall>j<fd. fd_get j (tables w ! t) \<noteq> None)
    \<and> (\<exists>fid. fd_get fd (tables w' ! t) = Some (Disk \<lparr>df_id = fid, df_offset = 0, df_flags = flags\<rparr>))
    \<and> (\<forall>j. j \<noteq> fd \<longrightarrow> fd_get j (tables w' ! t) = fd_get j (tables w ! t))
    \<and> (\<forall>u. u \<noteq> t \<longrightarrow> tables w' ! u = tables w ! u)"
  using assms(1,2)
proof (cases rule: fd_free_slot_cases)
  case (ok fd' w1 fds)
  have "length fds \<le> 32" using file_invD(3) [OF ok(3), of t] ok(2) assms(2) by (simp add: table_ok_def)
  then have b: "fd' < 32" using ok(5) by simp
  have low: "fd_get fd' (tables w ! t) = None" "\<forall>j<fd'. fd_get j (tables w ! t) \<noteq> None"
    using ok(4-7) by (auto simp: fd_get_def nth_append split: if_splits)
  have same: "fd_get j fds = fd_get j (tables w ! t)" for j
    using ok(4) by (auto simp: fd_get_def nth_append)
  obtain fid s where "fd = fd'" "w' = w1\<lparr>vol := s, tables := (tables w1)[t := (tables w1 ! t)[fd :=
      Some (Disk \<lparr>df_id = fid, df_offset = 0, df_flags = flags\<rparr>)]]\<rparr>"
    using assms(3) ok(1)
    by (auto simp: file_open_def bind_def on_fs_def fd_put_def split: if_splits prod.splits sum.splits)
  then show ?thesis using b low same ok(2,5) assms(2) by (simp add: fd_get_upd)
qed (use assms(3) in \<open>auto simp: file_open_def bind_def split: if_splits\<close>)

theorem file_open_lowest_witness:
  "\<exists>w'. file_open 0 [97] 1 demo_world = (Inr 2, w') \<and> fd_get 2 (tables demo_world ! 0) = None
     \<and> (\<exists>fid. fd_get 2 (tables w' ! 0) = Some (Disk \<lparr>df_id = fid, df_offset = 0, df_flags = 1\<rparr>))"
proof -
  have v: "fs_view (disk one_file) [97] \<noteq> None" using one_file_props(2) by simp
  obtain fid s where "open_file_unlocked [97] False False one_file = (Inr fid, s)"
    using v by (cases rule: open_file_cases [OF one_file_props(1), of "[97]" False False]) auto
  then have "\<exists>w'. file_open 0 [97] 1 demo_world = (Inr 2, w')"
    by (simp add: file_open_def bind_def fd_free_slot_def demo_world_simps on_fs_def fd_put_def Let_def upt_rec)
  then show ?thesis using file_open_lowest [OF demo_world_inv, of 0 "[97]" 1 2] by (auto simp: demo_world_simps)
qed

definition seek_origin :: "file_world \<Rightarrow> DiskFile \<Rightarrow> nat \<Rightarrow> nat" where
  "seek_origin w f whence = (if whence = 0 then 0 else if whence = 1 then df_offset f else length (disk_content w f))"

text \<open>C24. A seek either moves the descriptor to base plus offset, which lies in 0 to
  \<open>u32::MAX\<close>, or fails and changes nothing: with InvalidArgument when the target is out of
  that range or the origin unknown, with FileNotFound when the file is gone.\<close>

theorem file_seek_bounds:
  assumes "file_inv w" "t < length (tables w)" "fd_get fd (tables w ! t) = Some (Disk f)"
    and "target = int (seek_origin w f whence) + offset"
  shows "file_seek t fd offset whence w =
    (if whence > 2 then (Inl InvalidArgument, w)
     else if whence = 2 \<and> \<not> valid_handle (vol w) (df_id f) then (Inl FileNotFound, w)
     else if target < 0 \<or> target > 2 ^ 32 - 1 then (Inl InvalidArgument, w)
     else (Inr (nat target), w\<lparr>tables := (tables w)[t := (tables w ! t)[fd := Some (Disk (f\<lparr>df_offset := nat target\<rparr>))]]\<rparr>))"
proof -
  note wf = file_invD(1) [OF assms(1)] and d = table_ok_disk [OF file_invD(3) [OF assms(1,2)] assms(3)]
  have "seek_base f whence w = (if whence > 2 then (Inl InvalidArgument, w)
     else if whence = 2 \<and> \<not> valid_handle (vol w) (df_id f) then (Inl FileNotFound, w)
     else (Inr (seek_origin w f whence), w))"
    using file_size_run [OF wf, of "df_id f"] open_entry_bad(3) [OF wf d(1)]
    by (auto simp: seek_base_def seek_origin_def on_fs_def disk_content_def)
  then show ?thesis
    using assms(3,4) by (simp add: file_seek_def bind_def Let_def fd_put_def)
qed

theorem file_seek_bounds_witness:
  "file_seek 0 1 (- 1) 2 demo_world = (Inr 2, demo_world\<lparr>tables := [[Some Console, Some (Disk (demo_file\<lparr>df_offset := 2\<rparr>))]]\<rparr>)
   \<and> file_seek 0 1 (- 4) 2 demo_world = (Inl InvalidArgument, demo_world)"
  using file_seek_bounds [OF demo_world_inv, of 0 1 demo_file 2 2 "- 1"]
    file_seek_bounds [OF demo_world_inv, of 0 1 demo_file "- 1" 2 "- 4"] demo_world_simps
  by (simp add: seek_origin_def)

end
