(* ===== verification/Scheduler.thy ===== *)
theory Scheduler
  imports Kaguya_Prelude
begin

text \<open>
  The scheduler, \<^verbatim>\<open>src/src/process/mod.rs\<close>: the task table, run queues and per-CPU state, and every
  operation on them. What runs under \<^verbatim>\<open>SCHEDULER_LOCK\<close> is one step; \<^verbatim>\<open>switch_task\<close> is two, the decision
  under the lock and the switch of stacks after it is released.
\<close>

section \<open>Tasks, CPUs and the scheduler's state\<close>

abbreviation (input) MAX_AP_COUNT :: nat where "MAX_AP_COUNT \<equiv> 63"
abbreviation (input) USIZE_MAX :: nat where "USIZE_MAX \<equiv> 18446744073709551615"
abbreviation (input) RETIRED_STACK_SLOTS :: nat where "RETIRED_STACK_SLOTS \<equiv> 64"
abbreviation (input) DEFAULT_TIME_SLICE_TICKS :: nat where "DEFAULT_TIME_SLICE_TICKS \<equiv> 5"

datatype TaskStatus = Ready | Claimed | SwitchingOut | Running | Sleeping | Waiting | Zombie

text \<open>
  Identifiers, keys and ticks are numbers; addresses are 64-bit words. The address space
  of a task is its page-table root and its file table an identity.
\<close>

record Task =
  task_id :: nat
  stack_top :: u64
  stack_bottom :: u64
  status :: TaskStatus
  cpu_affinity :: nat
  pinned_cpu :: nat
  kernel_stack_bottom :: u64
  kernel_stack_top :: u64
  gs_base :: u64
  user_rsp :: u64
  exit_code :: nat
  wake_tick :: nat
  waiting_for :: nat
  address_space :: "u64 option"
  task_files :: "nat option"

text \<open>
  \<^verbatim>\<open>PercpuData\<close> and the registers a switch touches. \<open>on_stack\<close> is the task whose kernel
  stack the CPU executes on (\<open>USIZE_MAX\<close>: its idle loop): what \<open>rsp\<close> points into.
\<close>

record Percpu =
  kernel_stack :: u64
  user_stack :: u64
  current_task_index :: nat
  idle_stack :: u64
  scheduler_ticks_left :: nat
  need_resched :: bool
  kernel_gs :: u64
  cr3 :: u64
  rsp :: u64
  on_stack :: nat

record SwitchPlan =
  plan_old :: nat
  plan_next :: nat
  switched_out_task :: nat
  retired_stack_bottom :: u64
  new_stack :: u64
  new_kernel_stack_top :: u64
  new_user_rsp :: u64
  new_user_gs :: u64
  new_pml4 :: u64

text \<open>
  The scheduler and the statics beside it; per-CPU arrays are functions of the CPU number.
  \<open>pending\<close> is the switch a CPU has decided on under the lock and not yet carried out,
  \<open>wake_ipis\<close> the CPUs that were sent a wake interrupt and \<open>freed\<close> the stacks given back to
  the heap.
\<close>

record sched =
  tasks :: "Task list"
  event_generations :: "(nat \<times> u64) list"
  run_queues :: "nat \<Rightarrow> nat list"
  CPU_CURRENT_TASK :: "nat \<Rightarrow> nat"
  CPU_SWITCHED_OUT :: "nat \<Rightarrow> nat"
  RETIRED_STACKS :: "u64 list"
  percpu :: "nat \<Rightarrow> Percpu"
  pending :: "nat \<Rightarrow> SwitchPlan option"
  NEXT_TASK_ID :: nat
  SCHEDULER_TICKS :: nat
  online_ap_count :: nat
  kernel_pml4_phys :: u64
  wake_ipis :: "nat list"
  freed :: "u64 list"

definition upd_task :: "nat \<Rightarrow> (Task \<Rightarrow> Task) \<Rightarrow> sched \<Rightarrow> sched" where
  "upd_task i f s = s\<lparr>tasks := (tasks s)[i := f (tasks s ! i)]\<rparr>"

definition upd_cpu :: "nat \<Rightarrow> (Percpu \<Rightarrow> Percpu) \<Rightarrow> sched \<Rightarrow> sched" where
  "upd_cpu c f s = s\<lparr>percpu := (percpu s)(c := f (percpu s c))\<rparr>"

definition publish_current_task :: "nat \<Rightarrow> nat \<Rightarrow> sched \<Rightarrow> sched" where
  "publish_current_task c i s = s\<lparr>CPU_CURRENT_TASK := (CPU_CURRENT_TASK s)(c := i)\<rparr>"

definition push_back :: "nat \<Rightarrow> nat \<Rightarrow> sched \<Rightarrow> sched" where
  "push_back c i s = s\<lparr>run_queues := (run_queues s)(c := run_queues s c @ [i])\<rparr>"

definition send_wake_ipi :: "nat \<Rightarrow> sched \<Rightarrow> sched" where
  "send_wake_ipi c s = (if c = 0 \<or> c > MAX_AP_COUNT then s else s\<lparr>wake_ipis := wake_ipis s @ [c]\<rparr>)"

section \<open>Starting up and adding tasks\<close>

definition main_task :: Task where
  "main_task = \<lparr>task_id = 0, stack_top = 0, stack_bottom = 0, status = Running, cpu_affinity = 0,
     pinned_cpu = 0, kernel_stack_bottom = 0, kernel_stack_top = 0, gs_base = 0, user_rsp = 0,
     exit_code = 0, wake_tick = 0, waiting_for = USIZE_MAX, address_space = None, task_files = None\<rparr>"

definition sched_init :: "nat \<Rightarrow> u64 \<Rightarrow> (nat \<Rightarrow> Percpu) \<Rightarrow> sched" where
  "sched_init aps pml4 cpus = \<lparr>tasks = [main_task], event_generations = [], run_queues = (\<lambda>_. []),
     CPU_CURRENT_TASK = (\<lambda>_. USIZE_MAX), CPU_SWITCHED_OUT = (\<lambda>_. 0),
     RETIRED_STACKS = replicate RETIRED_STACK_SLOTS 0, percpu = cpus, pending = (\<lambda>_. None),
     NEXT_TASK_ID = 1, SCHEDULER_TICKS = 0, online_ap_count = aps, kernel_pml4_phys = pml4,
     wake_ipis = [], freed = []\<rparr>"

definition online_cpus :: "sched \<Rightarrow> nat" where
  "online_cpus s = min (online_ap_count s + 1) (MAX_AP_COUNT + 1)"

definition select_target_cpu :: "sched \<Rightarrow> nat" where
  "select_target_cpu s =
     (case find (\<lambda>c. CPU_CURRENT_TASK s c = USIZE_MAX \<and> run_queues s c = []) [1..<online_cpus s] of
        Some c \<Rightarrow> c | None \<Rightarrow> 0)"

definition place_task :: "nat \<Rightarrow> nat \<Rightarrow> sched \<Rightarrow> sched" where
  "place_task i c s =
     (let s1 = push_back c i (upd_task i (\<lambda>t. t\<lparr>cpu_affinity := c\<rparr>) s)
      in if c \<noteq> 0 then send_wake_ipi c s1 else s1)"

text \<open>
  \<open>stack\<close> is what the heap returned for the kernel stack (0: no memory). The frame written
  to it ends 112 bytes below the top: five words for \<^verbatim>\<open>iretq\<close>, the return address and
  eight registers.
\<close>

definition add_new_user_task ::
  "u64 \<Rightarrow> u64 \<Rightarrow> nat \<Rightarrow> u64 option \<Rightarrow> nat option \<Rightarrow> sched \<Rightarrow> nat \<times> sched" where
  "add_new_user_task stack ursp stack_size space files s =
     (let tid = NEXT_TASK_ID s; s = s\<lparr>NEXT_TASK_ID := tid + 1\<rparr> in
      if stack = 0 then (USIZE_MAX, s)
      else
        let top = stack + of_nat stack_size;
            task = \<lparr>task_id = tid, stack_top = top - 8 * 14, stack_bottom = ursp - of_nat stack_size,
              status = Ready, cpu_affinity = 0, pinned_cpu = USIZE_MAX, kernel_stack_bottom = stack,
              kernel_stack_top = top, gs_base = 0, user_rsp = ursp, exit_code = 0, wake_tick = 0,
              waiting_for = USIZE_MAX, address_space = space, task_files = files\<rparr>;
            i = length (tasks s);
            s = s\<lparr>tasks := tasks s @ [task]\<rparr>;
            s = (if tid = 1 then upd_task i (\<lambda>t. t\<lparr>pinned_cpu := 0\<rparr>) s else s);
            c = (if tid = 1 then 0 else select_target_cpu s)
        in (tid, place_task i c s))"

definition add_new_task :: "u64 \<Rightarrow> nat \<Rightarrow> sched \<Rightarrow> sched" where
  "add_new_task bottom stack_size s =
     (let tid = NEXT_TASK_ID s; s = s\<lparr>NEXT_TASK_ID := tid + 1\<rparr>;
          top = bottom + of_nat stack_size;
          task = \<lparr>task_id = tid, stack_top = top - 8 - 8 * 9, stack_bottom = bottom, status = Ready,
            cpu_affinity = 0, pinned_cpu = USIZE_MAX, kernel_stack_bottom = bottom,
            kernel_stack_top = top, gs_base = 0, user_rsp = 0, exit_code = 0, wake_tick = 0,
            waiting_for = USIZE_MAX, address_space = None, task_files = None\<rparr>;
          i = length (tasks s);
          s = s\<lparr>tasks := tasks s @ [task]\<rparr>
      in place_task i (select_target_cpu s) s)"

definition enter_bsp_scheduler_idle :: "sched \<Rightarrow> sched" where
  "enter_bsp_scheduler_idle s =
     (let cur = current_task_index (percpu s 0);
          s1 = (if cur \<noteq> USIZE_MAX \<and> cur < length (tasks s)
                then upd_task cur (\<lambda>t. t\<lparr>status := Zombie\<rparr>) s else s)
      in publish_current_task 0 USIZE_MAX (upd_cpu 0 (\<lambda>p. p\<lparr>current_task_index := USIZE_MAX,
           idle_stack := 0, scheduler_ticks_left := 0, need_resched := False, on_stack := USIZE_MAX\<rparr>) s1))"

section \<open>Choosing the next task\<close>

fun claim_scan :: "Task list \<Rightarrow> nat list \<Rightarrow> nat option \<times> nat list" where
  "claim_scan ts [] = (None, [])"
| "claim_scan ts (i # queue) =
     (if i \<ge> length ts then claim_scan ts queue
      else if status (ts ! i) = Ready then (Some i, queue)
      else claim_scan ts queue)"

definition claim_local_ready_task :: "nat \<Rightarrow> sched \<Rightarrow> nat option \<times> sched" where
  "claim_local_ready_task c s =
     (case claim_scan (tasks s) (run_queues s c) of
        (None, q) \<Rightarrow> (None, s\<lparr>run_queues := (run_queues s)(c := q)\<rparr>)
      | (Some i, q) \<Rightarrow>
          (Some i, upd_task i (\<lambda>t. t\<lparr>status := Claimed\<rparr>) (s\<lparr>run_queues := (run_queues s)(c := q)\<rparr>)))"

text \<open>The longest queue of another CPU with more than one entry, the first of equals.\<close>

fun pick_victim :: "nat \<Rightarrow> (nat \<Rightarrow> nat list) \<Rightarrow> nat list \<Rightarrow> nat option \<Rightarrow> nat \<Rightarrow> nat option" where
  "pick_victim thief queues [] victim victim_len = victim"
| "pick_victim thief queues (c # cs) victim victim_len =
     (if c = thief then pick_victim thief queues cs victim victim_len
      else if length (queues c) > victim_len then pick_victim thief queues cs (Some c) (length (queues c))
      else pick_victim thief queues cs victim victim_len)"

definition rposition :: "('a \<Rightarrow> bool) \<Rightarrow> 'a list \<Rightarrow> nat option" where
  "rposition p xs = find (\<lambda>i. p (xs ! i)) (rev [0..<length xs])"

definition steal_and_claim_ready_task :: "nat \<Rightarrow> sched \<Rightarrow> nat option \<times> sched" where
  "steal_and_claim_ready_task thief s =
     (case pick_victim thief (run_queues s) [0..<online_cpus s] None 1 of
        None \<Rightarrow> (None, s)
      | Some v \<Rightarrow>
          let queue = run_queues s v in
          (case rposition (\<lambda>i. i < length (tasks s) \<and> status (tasks s ! i) = Ready
                               \<and> pinned_cpu (tasks s ! i) = USIZE_MAX) queue of
             None \<Rightarrow> (None, s)
           | Some pos \<Rightarrow>
               let i = queue ! pos in
               (Some i, upd_task i (\<lambda>t. t\<lparr>status := Claimed, cpu_affinity := thief\<rparr>)
                  (s\<lparr>run_queues := (run_queues s)(v := take pos queue @ drop (Suc pos) queue)\<rparr>))))"

definition finish_switched_out_task :: "nat \<Rightarrow> sched \<Rightarrow> sched" where
  "finish_switched_out_task c s =
     (let encoded = CPU_SWITCHED_OUT s c;
          s1 = s\<lparr>CPU_SWITCHED_OUT := (CPU_SWITCHED_OUT s)(c := 0)\<rparr>;
          i = encoded - 1
      in if encoded = 0 \<or> i \<ge> length (tasks s) \<or> status (tasks s ! i) \<noteq> SwitchingOut then s1
         else push_back c i (upd_task i (\<lambda>t. t\<lparr>status := Ready, cpu_affinity := c\<rparr>) s1))"

section \<open>Timed wakeups and reaping\<close>

definition timer_due :: "nat \<Rightarrow> Task \<Rightarrow> bool" where
  "timer_due now t \<longleftrightarrow> (status t = Sleeping \<or> status t = Waiting \<and> wake_tick t \<noteq> 0) \<and> wake_tick t \<le> now"

definition wake_sleeper :: "nat \<Rightarrow> nat \<Rightarrow> sched \<Rightarrow> sched" where
  "wake_sleeper now i s =
     (let t = tasks s ! i in
      if timer_due now t then
        push_back (if pinned_cpu t \<noteq> USIZE_MAX then min (pinned_cpu t) MAX_AP_COUNT
                   else min (cpu_affinity t) MAX_AP_COUNT) i
          (upd_task i (\<lambda>t. t\<lparr>status := Ready, waiting_for := USIZE_MAX, wake_tick := 0\<rparr>) s)
      else s)"

definition wake_sleeping_tasks_locked :: "nat \<Rightarrow> sched \<Rightarrow> sched" where
  "wake_sleeping_tasks_locked now s = fold (wake_sleeper now) [0..<length (tasks s)] s"

text \<open>Consume the first acknowledgement of the stack, if there is one.\<close>

fun take_ack :: "u64 \<Rightarrow> u64 list \<Rightarrow> u64 list option" where
  "take_ack b [] = None"
| "take_ack b (x # xs) = (if x = b then Some (0 # xs) else map_option ((#) x) (take_ack b xs))"

definition reap_one :: "nat set \<Rightarrow> nat \<Rightarrow> sched \<Rightarrow> sched" where
  "reap_one current_indices i s =
     (let t = tasks s ! i in
      if status t \<noteq> Zombie \<or> kernel_stack_bottom t = 0 \<or> i \<in> current_indices then s
      else case take_ack (kernel_stack_bottom t) (RETIRED_STACKS s) of
             None \<Rightarrow> s
           | Some acks \<Rightarrow>
               upd_task i (\<lambda>t. t\<lparr>address_space := None, kernel_stack_bottom := 0, kernel_stack_top := 0\<rparr>)
                 (s\<lparr>RETIRED_STACKS := acks, freed := freed s @ [kernel_stack_bottom t]\<rparr>))"

definition reap_zombies :: "sched \<Rightarrow> sched" where
  "reap_zombies s =
     fold (reap_one (CPU_CURRENT_TASK s ` set [0..<MAX_AP_COUNT + 1])) [0..<length (tasks s)] s"

section \<open>Switching\<close>

definition claim_next :: "nat \<Rightarrow> sched \<Rightarrow> nat option \<times> sched" where
  "claim_next c s =
     (case claim_local_ready_task c s of
        (Some i, s1) \<Rightarrow> (Some i, s1)
      | (None, s1) \<Rightarrow> steal_and_claim_ready_task c s1)"

text \<open>No runnable work: a blocked or dead task gives way to the idle loop.\<close>

definition idle_plan :: "nat \<Rightarrow> sched \<Rightarrow> SwitchPlan" where
  "idle_plan c s =
     (let p = percpu s c; old = current_task_index p; t = tasks s ! old in
      \<lparr>plan_old = old, plan_next = USIZE_MAX, switched_out_task = 0,
       retired_stack_bottom = (if status t = Zombie then kernel_stack_bottom t else 0),
       new_stack = idle_stack p, new_kernel_stack_top = 0, new_user_rsp = 0, new_user_gs = 0,
       new_pml4 = kernel_pml4_phys s\<rparr>)"

definition switch_to_idle :: "nat \<Rightarrow> sched \<Rightarrow> sched" where
  "switch_to_idle c s =
     (let p = percpu s c; old = current_task_index p in
      if old \<noteq> USIZE_MAX \<and> status (tasks s ! old) \<in> {Zombie, Sleeping, Waiting} \<and> idle_stack p \<noteq> 0 then
        let s1 = upd_task old (\<lambda>t. t\<lparr>user_rsp := user_stack p\<rparr>) s;
            s2 = publish_current_task c USIZE_MAX (upd_cpu c (\<lambda>p. p\<lparr>current_task_index := USIZE_MAX,
                   user_stack := 0, scheduler_ticks_left := 0, need_resched := False, kernel_gs := 0\<rparr>) s1)
        in s2\<lparr>pending := (pending s2)(c := Some (idle_plan c s))\<rparr>
      else s)"

definition preempted :: "nat \<Rightarrow> sched \<Rightarrow> bool" where
  "preempted c s \<longleftrightarrow> current_task_index (percpu s c) \<noteq> USIZE_MAX
     \<and> status (tasks s ! current_task_index (percpu s c)) = Running"

text \<open>Make the claimed task the CPU's current one and save what belongs to the outgoing task.\<close>

definition dispatch_task :: "nat \<Rightarrow> nat \<Rightarrow> sched \<Rightarrow> sched" where
  "dispatch_task c next_index s =
     (let p = percpu s c; old = current_task_index p;
          s1 = upd_task next_index (\<lambda>t. t\<lparr>wake_tick := 0, status := Running, cpu_affinity := c\<rparr>) s;
          s2 = publish_current_task c next_index (upd_cpu c (\<lambda>p. p\<lparr>current_task_index := next_index,
                 scheduler_ticks_left := DEFAULT_TIME_SLICE_TICKS, need_resched := False\<rparr>) s1)
      in if old \<noteq> USIZE_MAX
         then upd_task old (\<lambda>t. t\<lparr>user_rsp := user_stack p, gs_base := kernel_gs p\<rparr>) s2 else s2)"

definition switch_plan :: "nat \<Rightarrow> bool \<Rightarrow> nat \<Rightarrow> sched \<Rightarrow> SwitchPlan" where
  "switch_plan old preempt next_index s =
     (let t = tasks s ! next_index in
      \<lparr>plan_old = old, plan_next = next_index, switched_out_task = (if preempt then old + 1 else 0),
       retired_stack_bottom = (if old \<noteq> USIZE_MAX \<and> status (tasks s ! old) = Zombie
         then kernel_stack_bottom (tasks s ! old) else 0),
       new_stack = stack_top t, new_kernel_stack_top = kernel_stack_top t, new_user_rsp = user_rsp t,
       new_user_gs = gs_base t,
       new_pml4 = (case address_space t of None \<Rightarrow> kernel_pml4_phys s | Some pml4 \<Rightarrow> pml4)\<rparr>)"

definition switch_to_task :: "nat \<Rightarrow> nat \<Rightarrow> sched \<Rightarrow> sched" where
  "switch_to_task c next_index s =
     (let old = current_task_index (percpu s c);
          preempt = preempted c s;
          s1 = (if preempt then upd_task old (\<lambda>t. t\<lparr>status := SwitchingOut\<rparr>) s else s);
          pin = pinned_cpu (tasks s1 ! next_index)
      in if status (tasks s1 ! next_index) \<noteq> Claimed then s1
         else if pin \<noteq> USIZE_MAX \<and> pin \<noteq> c then
           push_back (min pin MAX_AP_COUNT) next_index (upd_task next_index (\<lambda>t. t\<lparr>status := Ready\<rparr>) s1)
         else
           let s2 = dispatch_task c next_index s1
           in s2\<lparr>pending := (pending s2)(c := Some (switch_plan old preempt next_index s2))\<rparr>)"

text \<open>The part of \<^verbatim>\<open>switch_task\<close> under the lock.\<close>

definition switch_decide :: "nat \<Rightarrow> sched \<Rightarrow> sched" where
  "switch_decide c s =
     (let s1 = (if c = 0 then reap_zombies (wake_sleeping_tasks_locked (SCHEDULER_TICKS s) s) else s);
          s2 = finish_switched_out_task c s1
      in case claim_next c s2 of
           (None, s3) \<Rightarrow> switch_to_idle c s3
         | (Some i, s3) \<Rightarrow> switch_to_task c i s3)"

fun retire :: "u64 \<Rightarrow> u64 list \<Rightarrow> u64 list" where
  "retire b [] = []"
| "retire b (x # xs) = (if x = 0 then b # xs else x # retire b xs)"

text \<open>
  \<^verbatim>\<open>context_switch\<close>: eight registers are pushed and the stack pointer saved, the new stack
  is loaded, and only then the handoff and the retirement are published.
\<close>

definition context_switch :: "nat \<Rightarrow> SwitchPlan \<Rightarrow> sched \<Rightarrow> sched" where
  "context_switch c plan s =
     (let saved = rsp (percpu s c) - 8 * 8;
          s1 = (if plan_old plan \<noteq> USIZE_MAX then upd_task (plan_old plan) (\<lambda>t. t\<lparr>stack_top := saved\<rparr>) s
                else upd_cpu c (\<lambda>p. p\<lparr>idle_stack := saved\<rparr>) s);
          s2 = upd_cpu c (\<lambda>p. p\<lparr>rsp := new_stack plan + 8 * 9, on_stack := plan_next plan\<rparr>) s1;
          s3 = (if switched_out_task plan \<noteq> 0
                then s2\<lparr>CPU_SWITCHED_OUT := (CPU_SWITCHED_OUT s2)(c := switched_out_task plan)\<rparr> else s2)
      in if retired_stack_bottom plan \<noteq> 0
         then s3\<lparr>RETIRED_STACKS := retire (retired_stack_bottom plan) (RETIRED_STACKS s3)\<rparr> else s3)"

text \<open>The part of \<^verbatim>\<open>switch_task\<close> after the lock is released.\<close>

definition switch_commit :: "nat \<Rightarrow> sched \<Rightarrow> sched" where
  "switch_commit c s =
     (case pending s c of
        None \<Rightarrow> s
      | Some plan \<Rightarrow>
          let s1 = (if plan_next plan \<noteq> USIZE_MAX then
                      upd_cpu c (\<lambda>p. p\<lparr>kernel_stack := (if new_kernel_stack_top plan \<noteq> 0
                          then new_kernel_stack_top plan else kernel_stack p),
                        user_stack := new_user_rsp plan, kernel_gs := new_user_gs plan\<rparr>) s
                    else s);
              s2 = upd_cpu c (\<lambda>p. p\<lparr>cr3 := new_pml4 plan\<rparr>) s1
          in context_switch c plan (s2\<lparr>pending := (pending s2)(c := None)\<rparr>))"

section \<open>Blocking, waking, exiting\<close>

definition event_generation_locked :: "nat \<Rightarrow> sched \<Rightarrow> u64" where
  "event_generation_locked key s =
     (case map_of (event_generations s) key of None \<Rightarrow> 0 | Some g \<Rightarrow> g)"

text \<open>
  The locked part of \<^verbatim>\<open>wait_current_until\<close>; the result says that the task must switch away.
\<close>

definition wait_current_until :: "nat \<Rightarrow> nat \<Rightarrow> nat \<Rightarrow> u64 \<Rightarrow> sched \<Rightarrow> bool \<times> sched" where
  "wait_current_until c key deadline generation s =
     (let cur = current_task_index (percpu s c) in
      if event_generation_locked key s \<noteq> generation \<or> cur = USIZE_MAX then (False, s)
      else (True, upd_task cur (\<lambda>t. t\<lparr>waiting_for := key, wake_tick := deadline, status := Waiting\<rparr>) s))"

fun bump :: "nat \<Rightarrow> (nat \<times> u64) list \<Rightarrow> (nat \<times> u64) list" where
  "bump key [] = [(key, 1)]"
| "bump key ((k, g) # rest) = (if k = key then (k, g + 1) # rest else (k, g) # bump key rest)"

definition wake_waiter :: "nat \<Rightarrow> nat \<Rightarrow> sched \<Rightarrow> sched" where
  "wake_waiter key i s =
     (let t = tasks s ! i in
      if status t = Waiting \<and> waiting_for t = key then
        let s1 = upd_task i (\<lambda>t. t\<lparr>waiting_for := USIZE_MAX, wake_tick := 0\<rparr>) s in
        if \<exists>c\<in>set [0..<MAX_AP_COUNT + 1]. CPU_CURRENT_TASK s c = i
        then upd_task i (\<lambda>t. t\<lparr>status := Running\<rparr>) s1
        else
          let c = min (cpu_affinity t) MAX_AP_COUNT;
              s2 = push_back c i (upd_task i (\<lambda>t. t\<lparr>status := Ready\<rparr>) s1)
          in if c \<noteq> 0 then send_wake_ipi c s2 else s2
      else s)"

definition wake_waiters :: "nat \<Rightarrow> sched \<Rightarrow> sched" where
  "wake_waiters key s =
     fold (wake_waiter key) [0..<length (tasks s)] (s\<lparr>event_generations := bump key (event_generations s)\<rparr>)"

definition sleep_current :: "nat \<Rightarrow> nat \<Rightarrow> sched \<Rightarrow> sched" where
  "sleep_current c milliseconds s =
     (let cur = current_task_index (percpu s c);
          ticks = max (min (milliseconds + 9) USIZE_MAX div 10) 1;
          deadline = min (SCHEDULER_TICKS s + ticks) USIZE_MAX
      in if milliseconds = 0 \<or> cur = USIZE_MAX then s
         else upd_task cur (\<lambda>t. t\<lparr>wake_tick := deadline, status := Sleeping\<rparr>) s)"

text \<open>\<^verbatim>\<open>wait_task\<close> up to the switch: \<open>Inr\<close> returns at once, \<open>Inl\<close> blocks the caller.\<close>

definition wait_task :: "nat \<Rightarrow> nat \<Rightarrow> sched \<Rightarrow> (unit + nat) \<times> sched" where
  "wait_task c tid s =
     (case find (\<lambda>i. task_id (tasks s ! i) = tid) [0..<length (tasks s)] of
        None \<Rightarrow> (Inr USIZE_MAX, s)
      | Some target \<Rightarrow>
          if status (tasks s ! target) = Zombie then (Inr (exit_code (tasks s ! target)), s)
          else let cur = current_task_index (percpu s c) in
            if cur = USIZE_MAX \<or> cur = target then (Inr USIZE_MAX, s)
            else (Inl (), upd_task cur (\<lambda>t. t\<lparr>status := Waiting, waiting_for := tid\<rparr>) s))"

text \<open>\<^verbatim>\<open>wait_task\<close> after the caller runs again.\<close>

definition wait_task_result :: "nat \<Rightarrow> sched \<Rightarrow> nat" where
  "wait_task_result tid s =
     (case find (\<lambda>t. task_id t = tid) (tasks s) of None \<Rightarrow> USIZE_MAX | Some t \<Rightarrow> exit_code t)"

definition wake_exit_waiter :: "nat \<Rightarrow> nat \<Rightarrow> sched \<Rightarrow> sched" where
  "wake_exit_waiter tid i s =
     (let t = tasks s ! i in
      if status t = Waiting \<and> waiting_for t = tid then
        push_back (min (cpu_affinity t) MAX_AP_COUNT) i
          (upd_task i (\<lambda>t. t\<lparr>status := Ready, waiting_for := USIZE_MAX\<rparr>) s)
      else s)"

text \<open>The locked part of \<^verbatim>\<open>terminate_task\<close>, after the file table was given up.\<close>

definition take_current_files :: "nat \<Rightarrow> sched \<Rightarrow> nat option \<times> sched" where
  "take_current_files c s =
     (let i = current_task_index (percpu s c) in
      if i < length (tasks s) then (task_files (tasks s ! i), upd_task i (\<lambda>t. t\<lparr>task_files := None\<rparr>) s)
      else (None, s))"

definition terminate_task :: "nat \<Rightarrow> nat \<Rightarrow> sched \<Rightarrow> sched" where
  "terminate_task c code s =
     (let cur = current_task_index (percpu s c) in
      if cur = USIZE_MAX then s
      else let s1 = upd_task cur (\<lambda>t. t\<lparr>status := Zombie, exit_code := code\<rparr>) s
        in fold (wake_exit_waiter (task_id (tasks s1 ! cur))) [0..<length (tasks s1)] s1)"

definition forget_wait_key :: "nat \<Rightarrow> sched \<Rightarrow> sched" where
  "forget_wait_key key s = s\<lparr>event_generations := filter (\<lambda>(k, _). k \<noteq> key) (event_generations s)\<rparr>"

section \<open>Ticks and queries\<close>

definition scheduler_clock_tick :: "sched \<Rightarrow> sched" where
  "scheduler_clock_tick s = s\<lparr>SCHEDULER_TICKS := SCHEDULER_TICKS s + 1\<rparr>"

definition scheduler_tick :: "nat \<Rightarrow> sched \<Rightarrow> sched" where
  "scheduler_tick c s =
     (if current_task_index (percpu s c) = USIZE_MAX then s
      else upd_cpu c (\<lambda>p. let left = scheduler_ticks_left p - 1
        in p\<lparr>scheduler_ticks_left := left, need_resched := (if left = 0 then True else need_resched p)\<rparr>) s)"

text \<open>The flag says whether \<^verbatim>\<open>switch_task\<close> follows.\<close>

definition reschedule_if_needed :: "nat \<Rightarrow> sched \<Rightarrow> bool \<times> sched" where
  "reschedule_if_needed c s =
     (if need_resched (percpu s c) then (True, upd_cpu c (\<lambda>p. p\<lparr>need_resched := False\<rparr>) s) else (False, s))"

definition current_address_space :: "nat \<Rightarrow> sched \<Rightarrow> u64 option" where
  "current_address_space c s =
     (let i = current_task_index (percpu s c) in
      if i < length (tasks s) then address_space (tasks s ! i) else None)"

definition current_files :: "nat \<Rightarrow> sched \<Rightarrow> nat option" where
  "current_files c s =
     (let i = current_task_index (percpu s c) in
      if i < length (tasks s) then task_files (tasks s ! i) else None)"

definition current_task_id :: "nat \<Rightarrow> sched \<Rightarrow> nat" where
  "current_task_id c s =
     (let i = current_task_index (percpu s c) in if i \<noteq> USIZE_MAX then task_id (tasks s ! i) else 0)"

fun status_code :: "TaskStatus \<Rightarrow> nat" where
  "status_code Ready = 0"
| "status_code Claimed = 0"
| "status_code SwitchingOut = 0"
| "status_code Running = 1"
| "status_code Sleeping = 3"
| "status_code Waiting = 4"
| "status_code Zombie = 2"

definition get_task_status :: "nat \<Rightarrow> sched \<Rightarrow> nat" where
  "get_task_status tid s =
     (case find (\<lambda>t. task_id t = tid) (tasks s) of None \<Rightarrow> 3 | Some t \<Rightarrow> status_code (status t))"

definition get_task_exit_code :: "nat \<Rightarrow> sched \<Rightarrow> nat" where
  "get_task_exit_code tid s =
     (case find (\<lambda>t. task_id t = tid) (tasks s) of None \<Rightarrow> 0 | Some t \<Rightarrow> exit_code t)"

end
