(* ===== verification/Sched_Safety.thy ===== *)
theory Sched_Safety
  imports Scheduler
begin

text \<open>
  Exclusive execution: an invariant of the scheduler saying that no two CPUs refer to the same
  task, that a ready task is referred to by none, that handoffs and acknowledged stacks belong to
  tasks no CPU is on, and that every operation keeps it as long as the tasks it wakes are at rest.
\<close>

section \<open>What exclusivity depends on\<close>

text \<open>
  The part of the state that the safety of switching depends on: statuses and kernel
  stacks of the tasks, what each CPU publishes, runs and stands on, the handoffs, the
  switches in flight and the acknowledged stacks.
\<close>

record core =
  st :: "TaskStatus list"
  kb :: "u64 list"
  pub :: "nat \<Rightarrow> nat"
  cur :: "nat \<Rightarrow> nat"
  stk :: "nat \<Rightarrow> nat"
  out :: "nat \<Rightarrow> nat"
  pend :: "nat \<Rightarrow> SwitchPlan option"
  acks :: "u64 list"

definition core_of :: "sched \<Rightarrow> core" where
  "core_of s = \<lparr>st = map status (tasks s), kb = map kernel_stack_bottom (tasks s),
     pub = CPU_CURRENT_TASK s, cur = (\<lambda>c. current_task_index (percpu s c)),
     stk = (\<lambda>c. on_stack (percpu s c)), out = CPU_SWITCHED_OUT s, pend = pending s,
     acks = RETIRED_STACKS s\<rparr>"

text \<open>A CPU refers to the task it runs on the stack of and to the one it has switched to.\<close>

definition refers :: "core \<Rightarrow> nat \<Rightarrow> nat \<Rightarrow> bool" where
  "refers k c i \<longleftrightarrow> i \<noteq> USIZE_MAX \<and> (cur k c = i \<or> stk k c = i)"

definition plan_ok :: "core \<Rightarrow> nat \<Rightarrow> SwitchPlan \<Rightarrow> bool" where
  "plan_ok k c p \<longleftrightarrow> plan_old p = stk k c \<and> plan_next p = cur k c \<and> stk k c \<noteq> cur k c \<and> out k c = 0
     \<and> (switched_out_task p \<noteq> 0 \<longrightarrow> switched_out_task p = Suc (stk k c) \<and> stk k c \<noteq> USIZE_MAX
          \<and> st k ! stk k c = SwitchingOut)
     \<and> (retired_stack_bottom p \<noteq> 0 \<longrightarrow> stk k c \<noteq> USIZE_MAX \<and> st k ! stk k c = Zombie
          \<and> retired_stack_bottom p = kb k ! stk k c)"

definition core_inv :: "core \<Rightarrow> bool" where
  "core_inv k \<longleftrightarrow> length (kb k) = length (st k) \<and> length (st k) \<le> USIZE_MAX
     \<and> pub k = cur k
     \<and> (\<forall>c i. refers k c i \<longrightarrow> i < length (st k))
     \<and> (\<forall>c d i. refers k c i \<longrightarrow> refers k d i \<longrightarrow> c = d)
     \<and> (\<forall>i<length (st k). st k ! i = Ready \<longrightarrow> (\<forall>c. \<not> refers k c i))
     \<and> Claimed \<notin> set (st k)
     \<and> (\<forall>c. case pend k c of None \<Rightarrow> stk k c = cur k c | Some p \<Rightarrow> plan_ok k c p)
     \<and> (\<forall>c i. out k c = Suc i \<longrightarrow> i < length (st k) \<and> st k ! i = SwitchingOut \<and> (\<forall>d. \<not> refers k d i))
     \<and> (\<forall>c d i. out k c = Suc i \<longrightarrow> out k d = Suc i \<longrightarrow> c = d)
     \<and> (\<forall>i<length (st k). \<forall>j<length (st k). i \<noteq> j \<longrightarrow> kb k ! i = kb k ! j \<longrightarrow> kb k ! i = 0)
     \<and> (\<forall>b\<in>set (acks k). b \<noteq> 0 \<longrightarrow> (\<exists>i<length (st k). kb k ! i = b \<and> st k ! i = Zombie \<and> (\<forall>c. \<not> refers k c i)))
     \<and> distinct (filter (\<lambda>b. b \<noteq> 0) (acks k))"

lemma core_invD:
  assumes "core_inv k"
  shows "length (kb k) = length (st k)" "length (st k) \<le> USIZE_MAX" "pub k = cur k"
    "refers k c i \<Longrightarrow> i < length (st k)" "refers k c i \<Longrightarrow> refers k d i \<Longrightarrow> c = d"
    "i < length (st k) \<Longrightarrow> st k ! i = Ready \<Longrightarrow> \<not> refers k c i" "Claimed \<notin> set (st k)"
    "pend k c = None \<Longrightarrow> stk k c = cur k c" "pend k c = Some p \<Longrightarrow> plan_ok k c p"
    "out k c = Suc i \<Longrightarrow> i < length (st k) \<and> st k ! i = SwitchingOut"
    "out k c = Suc i \<Longrightarrow> \<not> refers k d i" "out k c = Suc i \<Longrightarrow> out k d = Suc i \<Longrightarrow> c = d"
    "i < length (st k) \<Longrightarrow> j < length (st k) \<Longrightarrow> i \<noteq> j \<Longrightarrow> kb k ! i = kb k ! j \<Longrightarrow> kb k ! i = 0"
    "b \<in> set (acks k) \<Longrightarrow> b \<noteq> 0 \<Longrightarrow>
       \<exists>i<length (st k). kb k ! i = b \<and> st k ! i = Zombie \<and> (\<forall>c. \<not> refers k c i)"
    "distinct (filter (\<lambda>b. b \<noteq> 0) (acks k))"
proof -
  note A = assms [unfolded core_inv_def]
  have "case pend k c of None \<Rightarrow> stk k c = cur k c | Some p \<Rightarrow> plan_ok k c p" using A by blast
  then show "pend k c = None \<Longrightarrow> stk k c = cur k c" "pend k c = Some p \<Longrightarrow> plan_ok k c p" by simp_all
qed (use assms [unfolded core_inv_def] in blast)+

lemma core_invI:
  assumes "length (kb k) = length (st k)" "length (st k) \<le> USIZE_MAX" "pub k = cur k"
    "\<And>c i. refers k c i \<Longrightarrow> i < length (st k)" "\<And>c d i. refers k c i \<Longrightarrow> refers k d i \<Longrightarrow> c = d"
    "\<And>c i. i < length (st k) \<Longrightarrow> st k ! i = Ready \<Longrightarrow> \<not> refers k c i" "Claimed \<notin> set (st k)"
    "\<And>c. pend k c = None \<Longrightarrow> stk k c = cur k c" "\<And>c p. pend k c = Some p \<Longrightarrow> plan_ok k c p"
    "\<And>c i. out k c = Suc i \<Longrightarrow> i < length (st k)" "\<And>c i. out k c = Suc i \<Longrightarrow> st k ! i = SwitchingOut"
    "\<And>c d i. out k c = Suc i \<Longrightarrow> \<not> refers k d i" "\<And>c d i. out k c = Suc i \<Longrightarrow> out k d = Suc i \<Longrightarrow> c = d"
    "\<And>i j. i < length (st k) \<Longrightarrow> j < length (st k) \<Longrightarrow> i \<noteq> j \<Longrightarrow> kb k ! i = kb k ! j \<Longrightarrow> kb k ! i = 0"
    "\<And>b. b \<in> set (acks k) \<Longrightarrow> b \<noteq> 0 \<Longrightarrow>
       \<exists>i<length (st k). kb k ! i = b \<and> st k ! i = Zombie \<and> (\<forall>c. \<not> refers k c i)"
    "distinct (filter (\<lambda>b. b \<noteq> 0) (acks k))"
  shows "core_inv k"
proof -
  have P: "\<forall>c. case pend k c of None \<Rightarrow> stk k c = cur k c | Some p \<Rightarrow> plan_ok k c p"
    using assms(8,9) by (simp split: option.split)
  show ?thesis unfolding core_inv_def
    by (intro conjI; (rule P | ((intro allI impI ballI conjI)?; (rule assms; assumption))))
qed

lemma refers_st [simp]: "refers (k\<lparr>st := l\<rparr>) = refers k" "refers (k\<lparr>kb := b\<rparr>) = refers k"
  "refers (k\<lparr>acks := a\<rparr>) = refers k" "refers (k\<lparr>out := f\<rparr>) = refers k"
  by (auto simp: refers_def fun_eq_iff)

text \<open>
  Changing a task's status is safe when it is not part of a handoff, a switch in flight or
  an acknowledgement, and a task becomes ready only when no CPU refers to it.
\<close>

lemma core_inv_status:
  assumes inv: "core_inv k" and i: "i < length (st k)" and x: "x \<noteq> Claimed"
    and ready: "\<And>c. x = Ready \<Longrightarrow> \<not> refers k c i"
    and so: "\<And>c. out k c \<noteq> Suc i"
    and fl: "\<And>c p. pend k c = Some p \<Longrightarrow> stk k c = i \<Longrightarrow> switched_out_task p = 0 \<and> (retired_stack_bottom p \<noteq> 0 \<longrightarrow> x = Zombie)"
    and zom: "st k ! i = Zombie \<Longrightarrow> x = Zombie \<or> (\<exists>c. refers k c i)"
  shows "core_inv (k\<lparr>st := (st k)[i := x]\<rparr>)"
proof -
  note D = core_invD [OF inv]
  have ack: "\<exists>j<length (st k). kb k ! j = b \<and> (st k)[i := x] ! j = Zombie \<and> (\<forall>c. \<not> refers k c j)"
    if b: "b \<in> set (acks k)" "b \<noteq> 0" for b
  proof -
    obtain j where j: "j < length (st k)" "kb k ! j = b" "st k ! j = Zombie" "\<forall>c. \<not> refers k c j"
      using D(14) [OF b] by blast
    have "j = i \<Longrightarrow> x = Zombie" using zom j(3,4) by blast
    then have "(st k)[i := x] ! j = Zombie" using j(1,3) by (cases "j = i") auto
    then show ?thesis using j by blast
  qed
  let ?k = "k\<lparr>st := (st k)[i := x]\<rparr>"
  show ?thesis
  proof (rule core_invI)
    show "\<not> refers ?k c j" if "j < length (st ?k)" "st ?k ! j = Ready" for c j
      using that D(6) [of j c] ready by (cases "j = i") auto
    show "Claimed \<notin> set (st ?k)"
      using D(7) x set_update_subset_insert [of "st k" i x] by auto
    show "j < length (st ?k)" "st ?k ! j = SwitchingOut" if "out ?k c = Suc j" for c j
      using that D(10) [of c j] so [of c] by (cases "j = i"; simp)+
    show "\<exists>j<length (st ?k). kb ?k ! j = b \<and> st ?k ! j = Zombie \<and> (\<forall>c. \<not> refers ?k c j)"
      if "b \<in> set (acks ?k)" "b \<noteq> 0" for b using that ack by simp
    show "plan_ok ?k c p" if "pend ?k c = Some p" for c p
      using that D(9) [of c p] fl [of c p] i by (cases "stk k c = i") (auto simp: plan_ok_def)
    show "j < length (st ?k)" if "refers ?k c j" for c j using that D(4) [of c j] by simp
    show "\<not> refers ?k d j" if "out ?k c = Suc j" for c d j using that D(11) [of c j d] by simp
    show "c = d" if "out ?k c = Suc j" "out ?k d = Suc j" for c d j using that D(12) by simp
    show "c = d" if "refers ?k c j" "refers ?k d j" for c d j using that D(5) by simp
    show "kb ?k ! j = 0" if "j < length (st ?k)" "j' < length (st ?k)" "j \<noteq> j'" "kb ?k ! j = kb ?k ! j'" for j j'
      using that D(13) by simp
    show "stk ?k c = cur ?k c" if "pend ?k c = None" for c using that D(8) by simp
  qed (use D(1,2,3,15) in simp_all)
qed

text \<open>The running task of a CPU with no switch in flight may take any status but ready.\<close>

lemma core_inv_own_status:
  assumes inv: "core_inv k" and c: "cur k c = i" "i \<noteq> USIZE_MAX" "pend k c = None"
    and x: "x \<noteq> Claimed" "x \<noteq> Ready"
  shows "core_inv (k\<lparr>st := (st k)[i := x]\<rparr>)"
proof (rule core_inv_status [OF inv])
  note D = core_invD [OF inv]
  have r: "refers k c i" using c by (simp add: refers_def)
  then show "i < length (st k)" by (rule D(4))
  show "out k d \<noteq> Suc i" for d using r D(11) by blast
  show "switched_out_task p = 0 \<and> (retired_stack_bottom p \<noteq> 0 \<longrightarrow> x = Zombie)" if p: "pend k d = Some p" "stk k d = i" for d p
  proof -
    have "refers k d i" using p c by (simp add: refers_def)
    then have "c = d" using D(5) r by blast
    then show ?thesis using c p by simp
  qed
  show "x = Zombie \<or> (\<exists>c. refers k c i)" using r by blast
qed (use x in simp_all)

text \<open>A blocked task no CPU refers to may become ready.\<close>

lemma core_inv_wake:
  assumes inv: "core_inv k" and i: "i < length (st k)" "st k ! i = Waiting \<or> st k ! i = Sleeping"
    and calm: "\<And>c. \<not> refers k c i"
  shows "core_inv (k\<lparr>st := (st k)[i := Ready]\<rparr>)"
proof (rule core_inv_status [OF inv i(1)])
  note D = core_invD [OF inv]
  show "out k c \<noteq> Suc i" for c using D(10) [of c i] i by auto
  show "switched_out_task p = 0 \<and> (retired_stack_bottom p \<noteq> 0 \<longrightarrow> Ready = Zombie)" if "pend k c = Some p" "stk k c = i" for c p
    using D(9) [OF that(1)] that(2) i by (auto simp: plan_ok_def)
qed (use calm i in auto)

lemma core_inv_finish:
  assumes inv: "core_inv k" and o: "out k c = Suc i"
  shows "core_inv (k\<lparr>out := (out k)(c := 0), st := (st k)[i := Ready]\<rparr>)"
proof -
  note D = core_invD [OF inv]
  let ?k = "k\<lparr>out := (out k)(c := 0)\<rparr>"
  have outs: "out ?k d = Suc j \<Longrightarrow> out k d = Suc j" for d j by (simp split: if_splits)
  have "core_inv ?k"
  proof (rule core_invI)
    show "plan_ok ?k d p" if "pend ?k d = Some p" for d p using that D(9) [of d p] by (simp add: plan_ok_def)
    show "j < length (st ?k)" "st ?k ! j = SwitchingOut" "\<not> refers ?k e j" if "out ?k d = Suc j" for d e j
      using D(10,11) [OF outs [OF that]] by simp_all
    show "d = e" if "out ?k d = Suc j" "out ?k e = Suc j" for d e j using D(12) outs that by blast
    show "j < length (st ?k)" if "refers ?k d j" for d j using that D(4) [of d j] by simp
    show "d = e" if "refers ?k d j" "refers ?k e j" for d e j using that D(5) by simp
    show "\<not> refers ?k d j" if "j < length (st ?k)" "st ?k ! j = Ready" for d j using that D(6) by simp
    show "stk ?k d = cur ?k d" if "pend ?k d = None" for d using that D(8) by simp
    show "kb ?k ! j = 0" if "j < length (st ?k)" "j' < length (st ?k)" "j \<noteq> j'" "kb ?k ! j = kb ?k ! j'" for j j'
      using that D(13) by simp
    show "\<exists>j<length (st ?k). kb ?k ! j = b \<and> st ?k ! j = Zombie \<and> (\<forall>d. \<not> refers ?k d j)"
      if "b \<in> set (acks ?k)" "b \<noteq> 0" for b using that D(14) by simp
  qed (use D(1,2,3,7,15) in simp_all)
  then have "core_inv (?k\<lparr>st := (st ?k)[i := Ready]\<rparr>)"
  proof (rule core_inv_status)
    show "i < length (st ?k)" using D(10) [OF o] by simp
    show "\<not> refers ?k d i" for d using D(11) [OF o] by simp
    show "out ?k d \<noteq> Suc i" for d using D(12) [OF o, of d] by auto
    have "stk k d \<noteq> i" for d using D(11) [OF o, of d] D(2) D(10) [OF o] by (auto simp: refers_def)
    then show "switched_out_task p = 0 \<and> (retired_stack_bottom p \<noteq> 0 \<longrightarrow> Ready = Zombie)"
      if "pend ?k d = Some p" "stk ?k d = i" for d p using that by simp
  qed (use D(10) [OF o] in simp_all)
  then show ?thesis by simp
qed

lemma core_inv_add:
  assumes inv: "core_inv k" and b: "b \<noteq> 0" "b \<notin> set (kb k)" and len: "length (st k) < USIZE_MAX"
  shows "core_inv (k\<lparr>st := st k @ [Ready], kb := kb k @ [b]\<rparr>)"
proof -
  note D = core_invD [OF inv]
  let ?k = "k\<lparr>st := st k @ [Ready], kb := kb k @ [b]\<rparr>"
  have no: "\<not> refers k c (length (st k))" for c using D(4) by blast
  show ?thesis
  proof (rule core_invI)
    show "plan_ok ?k c p" if "pend ?k c = Some p" for c p
    proof -
      have "stk k c \<noteq> USIZE_MAX \<Longrightarrow> stk k c < length (st k)" using D(4) [of c "stk k c"] by (simp add: refers_def)
      then show ?thesis using D(9) [of c p] that D(1) by (auto simp: plan_ok_def nth_append)
    qed
    show "kb ?k ! i = 0" if "i < length (st ?k)" "j < length (st ?k)" "i \<noteq> j" "kb ?k ! i = kb ?k ! j" for i j
      using that D(1,13) b nth_mem [of i "kb k"] nth_mem [of j "kb k"]
      by (auto simp: nth_append less_Suc_eq split: if_splits)
    show "\<exists>i<length (st ?k). kb ?k ! i = b' \<and> st ?k ! i = Zombie \<and> (\<forall>c. \<not> refers ?k c i)"
      if "b' \<in> set (acks ?k)" "b' \<noteq> 0" for b'
      using D(14) [of b'] D(1) that by (auto simp: nth_append)
    show "\<not> refers ?k c i" if "i < length (st ?k)" "st ?k ! i = Ready" for c i
      using that D(6) [of i c] no by (auto simp: nth_append less_Suc_eq split: if_splits)
    show "st ?k ! i = SwitchingOut" if "out ?k c = Suc i" for c i using that D(10) [of c i] by (simp add: nth_append)
    show "i < length (st ?k)" if "out ?k c = Suc i" for c i using that D(10) [of c i] by simp
    show "i < length (st ?k)" if "refers ?k c i" for c i using that D(4) [of c i] by simp
    show "c = d" if "refers ?k c i" "refers ?k d i" for c d i using that D(5) by simp
    show "\<not> refers ?k d i" if "out ?k c = Suc i" for c d i using that D(11) by simp
    show "c = d" if "out ?k c = Suc i" "out ?k d = Suc i" for c d i using that D(12) by simp
    show "stk ?k c = cur ?k c" if "pend ?k c = None" for c using that D(8) by simp
  qed (use D(1,2,3,7,15) len in simp_all)
qed


text \<open>Choosing a ready task: the CPU refers to it from now on, besides the task it leaves.\<close>

lemma core_inv_switch:
  assumes inv: "core_inv k" and c: "pend k c = None" "out k c = 0" and i: "i < length (st k)" "st k ! i = Ready"
    and p: "plan_old p = cur k c" "plan_next p = i"
      "switched_out_task p \<noteq> 0 \<Longrightarrow> switched_out_task p = Suc (cur k c) \<and> cur k c \<noteq> USIZE_MAX \<and> st k ! cur k c = SwitchingOut"
      "retired_stack_bottom p \<noteq> 0 \<Longrightarrow> cur k c \<noteq> USIZE_MAX \<and> st k ! cur k c = Zombie
         \<and> retired_stack_bottom p = kb k ! cur k c"
  shows "core_inv (k\<lparr>st := (st k)[i := Running], pub := (pub k)(c := i), cur := (cur k)(c := i),
    pend := (pend k)(c := Some p)\<rparr>)"
proof -
  note D = core_invD [OF inv]
  let ?k = "k\<lparr>st := (st k)[i := Running], pub := (pub k)(c := i), cur := (cur k)(c := i),
    pend := (pend k)(c := Some p)\<rparr>"
  have imax: "i \<noteq> USIZE_MAX" using i D(2) by simp
  have free: "\<not> refers k d i" for d using D(6) i by blast
  have cs: "stk k c = cur k c" using D(8) c by simp
  have ci: "stk k d \<noteq> i" "cur k d \<noteq> i" for d using free [of d] imax by (auto simp: refers_def)
  have r: "refers ?k d j \<longleftrightarrow> refers k d j \<or> d = c \<and> j = i" for d j
    using imax cs by (auto simp: refers_def)
  have noti: "j \<noteq> i" if "out k d = Suc j" for d j using D(10) [OF that] i by auto
  show ?thesis
  proof (rule core_invI)
    show "plan_ok ?k d q" if "pend ?k d = Some q" for d q
    proof (cases "d = c")
      case True
      then show ?thesis using that p c cs ci [of c] by (auto simp: plan_ok_def)
    next
      case False
      then show ?thesis using that D(9) [of d q] ci [of d] by (auto simp: plan_ok_def)
    qed
    show "j < length (st ?k)" if "refers ?k d j" for d j using that r D(4) i by auto
    show "d = e" if "refers ?k d j" "refers ?k e j" for d e j using that r free D(5) by auto
    show "\<not> refers ?k d j" if "j < length (st ?k)" "st ?k ! j = Ready" for d j
      using that r D(6) [of j d] by (cases "j = i") auto
    show "Claimed \<notin> set (st ?k)"
      using D(7) set_update_subset_insert [of "st k" i Running] by auto
    show "j < length (st ?k)" "st ?k ! j = SwitchingOut" "\<not> refers ?k e j" if "out ?k d = Suc j" for d e j
      using that D(10) [of d j] D(11) [of d j e] noti [of d j] r by auto
    show "d = e" if "out ?k d = Suc j" "out ?k e = Suc j" for d e j using D(12) that by simp
    show "stk ?k d = cur ?k d" if "pend ?k d = None" for d using that D(8) by (simp split: if_splits)
    show "kb ?k ! j = 0" if "j < length (st ?k)" "j' < length (st ?k)" "j \<noteq> j'" "kb ?k ! j = kb ?k ! j'" for j j'
      using that D(13) by simp
    show "\<exists>j<length (st ?k). kb ?k ! j = b \<and> st ?k ! j = Zombie \<and> (\<forall>d. \<not> refers ?k d j)"
      if b: "b \<in> set (acks ?k)" "b \<noteq> 0" for b
    proof -
      obtain j where j: "j < length (st k)" "kb k ! j = b" "st k ! j = Zombie" "\<forall>d. \<not> refers k d j"
        using D(14) [of b] b by auto
      then have "j \<noteq> i" using i by auto
      then show ?thesis using j r by (intro exI [where x = j]) simp
    qed
  qed (use D(1,2,3,15) in simp_all)
qed

text \<open>Leaving for the idle loop.\<close>

lemma core_inv_idle:
  assumes inv: "core_inv k" and c: "pend k c = None" "out k c = 0" "cur k c \<noteq> USIZE_MAX"
    and p: "plan_old p = cur k c" "plan_next p = USIZE_MAX" "switched_out_task p = 0"
      "retired_stack_bottom p \<noteq> 0 \<Longrightarrow> st k ! cur k c = Zombie \<and> retired_stack_bottom p = kb k ! cur k c"
  shows "core_inv (k\<lparr>pub := (pub k)(c := USIZE_MAX), cur := (cur k)(c := USIZE_MAX),
    pend := (pend k)(c := Some p)\<rparr>)"
proof -
  note D = core_invD [OF inv]
  let ?k = "k\<lparr>pub := (pub k)(c := USIZE_MAX), cur := (cur k)(c := USIZE_MAX), pend := (pend k)(c := Some p)\<rparr>"
  have cs: "stk k c = cur k c" using D(8) c by simp
  have r: "refers ?k d j \<longleftrightarrow> refers k d j" for d j
    using cs c by (auto simp: refers_def)
  then have r': "refers ?k = refers k" by (simp add: fun_eq_iff)
  show ?thesis
  proof (rule core_invI)
    show "plan_ok ?k d q" if "pend ?k d = Some q" for d q
    proof (cases "d = c")
      case True
      then show ?thesis using that p c cs by (auto simp: plan_ok_def)
    next
      case False
      then show ?thesis using that D(9) [of d q] by (auto simp: plan_ok_def)
    qed
    show "d = e" if "refers ?k d j" "refers ?k e j" for d e j using that D(5) unfolding r' by blast
    show "j < length (st ?k)" if "refers ?k d j" for d j using that D(4) unfolding r' by simp
    show "\<not> refers ?k d j" if "j < length (st ?k)" "st ?k ! j = Ready" for d j using that D(6) unfolding r' by simp
    show "j < length (st ?k)" "st ?k ! j = SwitchingOut" "\<not> refers ?k e j" if "out ?k d = Suc j" for d e j
      using that D(10) [of d j] D(11) [of d j e] unfolding r' by simp_all
    show "d = e" if "out ?k d = Suc j" "out ?k e = Suc j" for d e j using D(12) that by simp
    show "stk ?k d = cur ?k d" if "pend ?k d = None" for d using that D(8) by (simp split: if_splits)
    show "kb ?k ! j = 0" if "j < length (st ?k)" "j' < length (st ?k)" "j \<noteq> j'" "kb ?k ! j = kb ?k ! j'" for j j'
      using that D(13) by simp
    show "\<exists>j<length (st ?k). kb ?k ! j = b \<and> st ?k ! j = Zombie \<and> (\<forall>d. \<not> refers ?k d j)"
      if "b \<in> set (acks ?k)" "b \<noteq> 0" for b using that D(14) [of b] unfolding r' by simp
  qed (use D(1,2,3,7,15) in simp_all)
qed

lemma set_retire: "set (retire b xs) \<subseteq> insert b (set xs)"
  by (induction xs) auto

lemma distinct_retire:
  "distinct (filter (\<lambda>x. x \<noteq> 0) xs) \<Longrightarrow> b \<notin> set xs \<Longrightarrow> distinct (filter (\<lambda>x. x \<noteq> 0) (retire b xs))"
proof (induction xs)
  case (Cons x xs)
  then show ?case using set_retire [of b xs] by auto
qed simp

text \<open>The switch itself: the CPU stands on the incoming stack only.\<close>

lemma core_inv_commit:
  assumes inv: "core_inv k" and c: "pend k c = Some p"
  shows "core_inv (k\<lparr>stk := (stk k)(c := cur k c), pend := (pend k)(c := None),
    out := (if switched_out_task p \<noteq> 0 then (out k)(c := switched_out_task p) else out k),
    acks := (if retired_stack_bottom p \<noteq> 0 then retire (retired_stack_bottom p) (acks k) else acks k)\<rparr>)"
    (is "core_inv ?k")
proof -
  note D = core_invD [OF inv]
  note P = D(9) [OF c, unfolded plan_ok_def]
  let ?o = "stk k c"
  have r: "refers ?k d j \<longleftrightarrow> refers k d j \<and> \<not> (d = c \<and> j \<noteq> cur k c)" for d j
    by (auto simp: refers_def)
  have left: "\<not> refers ?k d ?o" for d
    using r D(5) [of d ?o c] P by (auto simp: refers_def)
  have olen: "?o < length (st k)" if "?o \<noteq> USIZE_MAX" using D(4) [of c ?o] that by (simp add: refers_def)
  have out: "out ?k d = Suc j \<Longrightarrow> out k d = Suc j \<or> d = c \<and> j = ?o \<and> ?o \<noteq> USIZE_MAX \<and> st k ! ?o = SwitchingOut" for d j
    using P by (auto split: if_splits)
  have oo: "out k d \<noteq> Suc ?o" if "?o \<noteq> USIZE_MAX" for d
    using D(11) [of d ?o c] that by (auto simp: refers_def)
  have fresh: "retired_stack_bottom p \<notin> set (acks k)" if z: "retired_stack_bottom p \<noteq> 0"
  proof
    assume "retired_stack_bottom p \<in> set (acks k)"
    then obtain j where j: "j < length (st k)" "kb k ! j = retired_stack_bottom p" "\<forall>d. \<not> refers k d j"
      using D(14) z by blast
    then have "j = ?o" using D(13) [of j ?o] P z olen by auto
    then show False using j(3) P z by (auto simp: refers_def)
  qed
  show ?thesis
  proof (rule core_invI)
    show "plan_ok ?k d q" if "pend ?k d = Some q" for d q
      using that D(9) [of d q] by (auto simp: plan_ok_def split: if_splits)
    show "d = e" if "refers ?k d j" "refers ?k e j" for d e j using that D(5) unfolding r by blast
    show "j < length (st ?k)" if "refers ?k d j" for d j using that D(4) [of d j] unfolding r by simp
    show "\<not> refers ?k d j" if "j < length (st ?k)" "st ?k ! j = Ready" for d j using that D(6) unfolding r by simp
    show "j < length (st ?k)" "st ?k ! j = SwitchingOut" "\<not> refers ?k e j" if "out ?k d = Suc j" for d e j
      using out [OF that] D(10) [of d j] D(11) [of d j e] left olen unfolding r by auto
    show "d = e" if o2: "out ?k d = Suc j" "out ?k e = Suc j" for d e j
      using out [OF o2(1)] out [OF o2(2)] D(12) oo by auto
    show "stk ?k d = cur ?k d" if "pend ?k d = None" for d using that D(8) by (simp split: if_splits)
    show "kb ?k ! j = 0" if "j < length (st ?k)" "j' < length (st ?k)" "j \<noteq> j'" "kb ?k ! j = kb ?k ! j'" for j j'
      using that D(13) by simp
    show "\<exists>j<length (st ?k). kb ?k ! j = b \<and> st ?k ! j = Zombie \<and> (\<forall>d. \<not> refers ?k d j)"
      if b: "b \<in> set (acks ?k)" "b \<noteq> 0" for b
    proof (cases "b \<in> set (acks k)")
      case True
      then show ?thesis using D(14) [OF True b(2)] unfolding r by auto
    next
      case False
      then have "retired_stack_bottom p \<noteq> 0" "b = retired_stack_bottom p"
        using b set_retire [of "retired_stack_bottom p" "acks k"] by (auto split: if_splits)
      then show ?thesis using P left olen by (intro exI [where x = ?o]) simp
    qed
    show "distinct (filter (\<lambda>b. b \<noteq> 0) (acks ?k))" using D(15) distinct_retire [OF D(15)] fresh by simp
  qed (use D(1,2,3,7) in simp_all)
qed

lemma take_ack_props:
  assumes "take_ack b xs = Some ys" "b \<noteq> 0" "distinct (filter (\<lambda>x. x \<noteq> 0) xs)"
  shows "b \<in> set xs" "set ys \<subseteq> insert 0 (set xs)" "b \<notin> set ys" "distinct (filter (\<lambda>x. x \<noteq> 0) ys)"
  using assms by (induction xs arbitrary: ys) (auto split: if_splits)

text \<open>Reaping a dead task whose stack is acknowledged.\<close>

lemma core_inv_reap:
  assumes inv: "core_inv k" and i: "i < length (st k)" "kb k ! i \<noteq> 0"
    and a: "take_ack (kb k ! i) (acks k) = Some ys"
  shows "core_inv (k\<lparr>kb := (kb k)[i := 0], acks := ys\<rparr>)" "st k ! i = Zombie" "\<not> refers k c i"
proof -
  note D = core_invD [OF inv]
  note T = take_ack_props [OF a i(2) D(15)]
  obtain j where j: "j < length (st k)" "kb k ! j = kb k ! i" "st k ! j = Zombie" "\<forall>c. \<not> refers k c j"
    using D(14) [OF T(1) i(2)] by blast
  have ji: "j = i" using D(13) [OF j(1) i(1)] j(2) i(2) by auto
  then show "st k ! i = Zombie" "\<not> refers k c i" using j by auto
  let ?k = "k\<lparr>kb := (kb k)[i := 0], acks := ys\<rparr>"
  have il: "i < length (kb k)" using i D(1) by simp
  show "core_inv ?k"
  proof (rule core_invI)
    show "plan_ok ?k d q" if "pend ?k d = Some q" for d q
    proof -
      have "stk k d \<noteq> i \<or> stk k d = USIZE_MAX" using j(4) ji by (auto simp: refers_def)
      then show ?thesis using that D(9) [of d q] by (auto simp: plan_ok_def)
    qed
    show "kb ?k ! x = 0" if "x < length (st ?k)" "y < length (st ?k)" "x \<noteq> y" "kb ?k ! x = kb ?k ! y" for x y
      using that D(13) [of x y] il by (cases "x = i"; cases "y = i") auto
    show "\<exists>x<length (st ?k). kb ?k ! x = b \<and> st ?k ! x = Zombie \<and> (\<forall>d. \<not> refers ?k d x)"
      if b: "b \<in> set (acks ?k)" "b \<noteq> 0" for b
    proof -
      have "b \<in> set (acks k)" "b \<noteq> kb k ! i" using b T by auto
      then obtain x where "x < length (st k)" "kb k ! x = b" "st k ! x = Zombie" "\<forall>c. \<not> refers k c x" "x \<noteq> i"
        using D(14) b(2) by metis
      then show ?thesis by (intro exI [where x = x]) simp
    qed
    show "d = e" if "refers ?k d x" "refers ?k e x" for d e x using that D(5) by simp
    show "x < length (st ?k)" if "refers ?k d x" for d x using that D(4) by simp
    show "\<not> refers ?k d x" if "x < length (st ?k)" "st ?k ! x = Ready" for d x using that D(6) by simp
    show "x < length (st ?k)" "st ?k ! x = SwitchingOut" "\<not> refers ?k e x" if "out ?k d = Suc x" for d e x
      using that D(10) [of d x] D(11) [of d x e] by simp_all
    show "d = e" if "out ?k d = Suc x" "out ?k e = Suc x" for d e x using D(12) that by simp
    show "stk ?k d = cur ?k d" if "pend ?k d = None" for d using that D(8) by simp
  qed (use D(1,2,3,7) T(4) in simp_all)
qed

section \<open>The operations on the core\<close>

definition sched_inv :: "sched \<Rightarrow> bool" where
  "sched_inv s \<longleftrightarrow> core_inv (core_of s)"

lemma core_of_frame [simp]:
  "core_of (push_back c i s) = core_of s" "core_of (send_wake_ipi c s) = core_of s"
  "core_of (s\<lparr>event_generations := g\<rparr>) = core_of s" "core_of (s\<lparr>run_queues := q\<rparr>) = core_of s"
  "core_of (s\<lparr>SCHEDULER_TICKS := n\<rparr>) = core_of s" "core_of (s\<lparr>NEXT_TASK_ID := n\<rparr>) = core_of s"
  by (simp_all add: core_of_def push_back_def send_wake_ipi_def)

lemma core_of_simps [simp]:
  "st (core_of s) = map status (tasks s)" "kb (core_of s) = map kernel_stack_bottom (tasks s)"
  "pub (core_of s) = CPU_CURRENT_TASK s" "cur (core_of s) c = current_task_index (percpu s c)"
  "stk (core_of s) c = on_stack (percpu s c)" "out (core_of s) = CPU_SWITCHED_OUT s"
  "pend (core_of s) = pending s" "acks (core_of s) = RETIRED_STACKS s"
  by (simp_all add: core_of_def)

lemma map_upd_same:
  assumes "\<And>t. g (f t) = g t"
  shows "map g (xs[i := f (xs ! i)]) = map g xs"
  using assms by (cases "i < length xs") (simp_all add: map_update list_update_same_conv list_update_beyond)

lemma upd_task_same:
  assumes "\<And>t. status (f t) = status t" "\<And>t. kernel_stack_bottom (f t) = kernel_stack_bottom t"
  shows "core_of (upd_task i f s) = core_of s"
  using assms by (simp add: core_of_def upd_task_def map_upd_same)

lemma upd_task_status:
  assumes "\<And>t. status (f t) = x" "\<And>t. kernel_stack_bottom (f t) = kernel_stack_bottom t"
  shows "core_of (upd_task i f s) = (core_of s)\<lparr>st := (st (core_of s))[i := x]\<rparr>"
  using assms map_upd_same [of kernel_stack_bottom f]
  by (simp add: core_of_def upd_task_def) (simp add: map_update)

lemma upd_cpu_same:
  assumes "\<And>p. current_task_index (f p) = current_task_index p" "\<And>p. on_stack (f p) = on_stack p"
  shows "core_of (upd_cpu c f s) = core_of s"
  using assms by (auto simp: core_of_def upd_cpu_def fun_eq_iff)

lemma upd_task_fields [simp]:
  "run_queues (upd_task i f s) = run_queues s" "CPU_CURRENT_TASK (upd_task i f s) = CPU_CURRENT_TASK s"
  "percpu (upd_task i f s) = percpu s" "pending (upd_task i f s) = pending s"
  "length (tasks (upd_task i f s)) = length (tasks s)" "CPU_SWITCHED_OUT (upd_task i f s) = CPU_SWITCHED_OUT s"
  "kernel_pml4_phys (upd_task i f s) = kernel_pml4_phys s" "RETIRED_STACKS (upd_task i f s) = RETIRED_STACKS s"
  "freed (upd_task i f s) = freed s" "event_generations (upd_task i f s) = event_generations s"
  by (simp_all add: upd_task_def)

lemma tasks_upd_task: "i < length (tasks s) \<Longrightarrow> tasks (upd_task i f s) ! j = (if j = i then f (tasks s ! i) else tasks s ! j)"
  by (simp add: upd_task_def nth_list_update)

lemma push_back_fields [simp]:
  "tasks (push_back c i s) = tasks s" "percpu (push_back c i s) = percpu s" "pending (push_back c i s) = pending s"
  "CPU_CURRENT_TASK (push_back c i s) = CPU_CURRENT_TASK s" "freed (push_back c i s) = freed s"
  "event_generations (push_back c i s) = event_generations s"
  by (simp_all add: push_back_def)

lemma send_wake_ipi_fields [simp]:
  "tasks (send_wake_ipi c s) = tasks s" "percpu (send_wake_ipi c s) = percpu s" "pending (send_wake_ipi c s) = pending s"
  "CPU_CURRENT_TASK (send_wake_ipi c s) = CPU_CURRENT_TASK s" "freed (send_wake_ipi c s) = freed s"
  "event_generations (send_wake_ipi c s) = event_generations s"
  by (simp_all add: send_wake_ipi_def)

text \<open>A task is at rest when no CPU refers to it.\<close>

definition at_rest :: "sched \<Rightarrow> nat \<Rightarrow> bool" where
  "at_rest s i \<longleftrightarrow> (\<forall>c. current_task_index (percpu s c) \<noteq> i \<and> on_stack (percpu s c) \<noteq> i)"

lemma at_rest_refers: "at_rest s i \<Longrightarrow> \<not> refers (core_of s) c i"
  by (simp add: at_rest_def refers_def)

section \<open>Wakeups\<close>

text \<open>
  A loop over the tasks whose body wakes the tasks that satisfy a test and leaves the
  others alone keeps the invariant when the tasks it makes ready are at rest.
\<close>

definition wakes_safely :: "(nat \<Rightarrow> sched \<Rightarrow> sched) \<Rightarrow> (nat \<Rightarrow> sched \<Rightarrow> bool) \<Rightarrow> bool" where
  "wakes_safely body test \<longleftrightarrow> (\<forall>i s. i < length (tasks s) \<longrightarrow> sched_inv s \<longrightarrow> (test i s \<longrightarrow> at_rest s i) \<longrightarrow>
     sched_inv (body i s) \<and> length (tasks (body i s)) = length (tasks s) \<and> percpu (body i s) = percpu s
     \<and> (\<forall>j. j \<noteq> i \<longrightarrow> test j (body i s) = test j s))"

lemma fold_wakes:
  assumes body: "wakes_safely body test" and inv: "sched_inv s"
    and js: "distinct js" "\<forall>j\<in>set js. j < length (tasks s)" "\<forall>j\<in>set js. test j s \<longrightarrow> at_rest s j"
  shows "sched_inv (fold body js s) \<and> length (tasks (fold body js s)) = length (tasks s)
    \<and> percpu (fold body js s) = percpu s"
  using inv js
proof (induction js arbitrary: s)
  case (Cons j js)
  have B: "sched_inv (body j s)" "length (tasks (body j s)) = length (tasks s)" "percpu (body j s) = percpu s"
    "\<And>l. l \<noteq> j \<Longrightarrow> test l (body j s) = test l s"
    using body Cons.prems unfolding wakes_safely_def by auto
  have "test l (body j s) \<longrightarrow> at_rest (body j s) l" if "l \<in> set js" for l
    using Cons.prems that B(3) B(4) [of l] by (auto simp: at_rest_def)
  then show ?case using Cons.IH [OF B(1)] Cons.prems B(2,3) by auto
qed simp

lemma wake_core:
  assumes "sched_inv s" "i < length (tasks s)" "at_rest s i"
    and "status (tasks s ! i) = Waiting \<or> status (tasks s ! i) = Sleeping"
    and "\<And>t. status (f t) = Ready" "\<And>t. kernel_stack_bottom (f t) = kernel_stack_bottom t"
  shows "sched_inv (upd_task i f s)"
  using core_inv_wake [of "core_of s" i] assms at_rest_refers
  by (simp add: sched_inv_def upd_task_status)

lemma wake_sleeper_safe: "wakes_safely (wake_sleeper now) (\<lambda>i s. timer_due now (tasks s ! i))"
  unfolding wakes_safely_def
proof (intro allI impI)
  fix i s assume i: "i < length (tasks s)" and inv: "sched_inv s" and rest: "timer_due now (tasks s ! i) \<longrightarrow> at_rest s i"
  have "sched_inv (upd_task i (\<lambda>t. t\<lparr>status := Ready, waiting_for := USIZE_MAX, wake_tick := 0\<rparr>) s)"
    if "timer_due now (tasks s ! i)"
    by (rule wake_core [OF inv i]) (use rest that in \<open>auto simp: timer_due_def\<close>)
  then show "sched_inv (wake_sleeper now i s) \<and> length (tasks (wake_sleeper now i s)) = length (tasks s)
      \<and> percpu (wake_sleeper now i s) = percpu s
      \<and> (\<forall>j. j \<noteq> i \<longrightarrow> timer_due now (tasks (wake_sleeper now i s) ! j) = timer_due now (tasks s ! j))"
    using inv i by (auto simp: wake_sleeper_def Let_def sched_inv_def tasks_upd_task)
qed

lemma wake_exit_waiter_safe:
  "wakes_safely (wake_exit_waiter tid) (\<lambda>i s. status (tasks s ! i) = Waiting \<and> waiting_for (tasks s ! i) = tid)"
  unfolding wakes_safely_def
proof (intro allI impI)
  fix i s assume i: "i < length (tasks s)" and inv: "sched_inv s"
    and rest: "status (tasks s ! i) = Waiting \<and> waiting_for (tasks s ! i) = tid \<longrightarrow> at_rest s i"
  have "sched_inv (upd_task i (\<lambda>t. t\<lparr>status := Ready, waiting_for := USIZE_MAX\<rparr>) s)"
    if "status (tasks s ! i) = Waiting \<and> waiting_for (tasks s ! i) = tid"
    by (rule wake_core [OF inv i]) (use rest that in auto)
  then show "sched_inv (wake_exit_waiter tid i s) \<and> length (tasks (wake_exit_waiter tid i s)) = length (tasks s)
      \<and> percpu (wake_exit_waiter tid i s) = percpu s
      \<and> (\<forall>j. j \<noteq> i \<longrightarrow> (status (tasks (wake_exit_waiter tid i s) ! j) = Waiting
            \<and> waiting_for (tasks (wake_exit_waiter tid i s) ! j) = tid)
          = (status (tasks s ! j) = Waiting \<and> waiting_for (tasks s ! j) = tid))"
    using inv i by (auto simp: wake_exit_waiter_def Let_def sched_inv_def tasks_upd_task)
qed

text \<open>An event wakeup looks at the published tasks itself; the window that remains is a switch in flight.\<close>

definition event_wakes :: "nat \<Rightarrow> nat \<Rightarrow> sched \<Rightarrow> bool" where
  "event_wakes key i s \<longleftrightarrow> status (tasks s ! i) = Waiting \<and> waiting_for (tasks s ! i) = key
     \<and> (\<forall>c\<in>set [0..<MAX_AP_COUNT + 1]. CPU_CURRENT_TASK s c \<noteq> i)"


lemma core_inv_unblock:
  assumes inv: "core_inv k" and i: "i < length (st k)" "st k ! i = Waiting"
  shows "core_inv (k\<lparr>st := (st k)[i := Running]\<rparr>)"
proof (rule core_inv_status [OF inv i(1)])
  note D = core_invD [OF inv]
  show "out k c \<noteq> Suc i" for c using D(10) [of c i] i by auto
  show "switched_out_task p = 0 \<and> (retired_stack_bottom p \<noteq> 0 \<longrightarrow> Running = Zombie)" if "pend k c = Some p" "stk k c = i" for c p
    using D(9) [OF that(1)] that(2) i by (auto simp: plan_ok_def)
qed (use i in auto)

lemma upd_task_twice: "i < length (tasks s) \<Longrightarrow> upd_task i f (upd_task i g s) = upd_task i (f \<circ> g) s"
  by (simp add: upd_task_def)

lemma wake_waiter_safe: "wakes_safely (wake_waiter key) (event_wakes key)"
  unfolding wakes_safely_def
proof (intro allI impI)
  fix i s assume i: "i < length (tasks s)" and inv: "sched_inv s" and rest: "event_wakes key i s \<longrightarrow> at_rest s i"
  let ?w = "\<lambda>t. t\<lparr>waiting_for := USIZE_MAX, wake_tick := 0\<rparr>"
  have ready: "sched_inv (upd_task i ((\<lambda>t. t\<lparr>status := Ready\<rparr>) \<circ> ?w) s)" if "event_wakes key i s"
    by (rule wake_core [OF inv i]) (use rest that in \<open>auto simp: event_wakes_def\<close>)
  have still: "sched_inv (upd_task i ((\<lambda>t. t\<lparr>status := Running\<rparr>) \<circ> ?w) s)" if "status (tasks s ! i) = Waiting"
    using core_inv_unblock [of "core_of s" i] inv i that by (simp add: sched_inv_def upd_task_status)
  show "sched_inv (wake_waiter key i s) \<and> length (tasks (wake_waiter key i s)) = length (tasks s)
      \<and> percpu (wake_waiter key i s) = percpu s
      \<and> (\<forall>j. j \<noteq> i \<longrightarrow> event_wakes key j (wake_waiter key i s) = event_wakes key j s)"
  proof (cases "event_wakes key i s")
    case True
    then have "\<not> (\<exists>c\<in>set [0..<MAX_AP_COUNT + 1]. CPU_CURRENT_TASK s c = i)"
      "status (tasks s ! i) = Waiting" "waiting_for (tasks s ! i) = key"
      by (auto simp: event_wakes_def simp del: upt.simps)
    then show ?thesis using ready [OF True] i
      by (simp add: wake_waiter_def Let_def upd_task_twice sched_inv_def event_wakes_def tasks_upd_task
          del: upt.simps set_upt)
  next
    case False
    then show ?thesis using still i inv
      by (auto simp: wake_waiter_def Let_def upd_task_twice sched_inv_def event_wakes_def tasks_upd_task
          simp del: upt.simps set_upt)
  qed
qed

lemma fold_upt_wakes:
  assumes "wakes_safely body test" "sched_inv s" "\<And>i. i < length (tasks s) \<Longrightarrow> test i s \<Longrightarrow> at_rest s i"
  shows "sched_inv (fold body [0..<length (tasks s)] s)"
    "length (tasks (fold body [0..<length (tasks s)] s)) = length (tasks s)"
    "percpu (fold body [0..<length (tasks s)] s) = percpu s"
  using fold_wakes [OF assms(1,2), of "[0..<length (tasks s)]"] assms(3) by auto

section \<open>Reaping\<close>

lemma reap_one_inv:
  assumes inv: "sched_inv s" and i: "i < length (tasks s)"
  shows "sched_inv (reap_one R i s)" "length (tasks (reap_one R i s)) = length (tasks s)"
    "percpu (reap_one R i s) = percpu s"
    "reap_one R i s = s \<or> freed (reap_one R i s) = freed s @ [kernel_stack_bottom (tasks s ! i)]
       \<and> kernel_stack_bottom (tasks s ! i) \<noteq> 0 \<and> (\<forall>c. \<not> refers (core_of s) c i)"
proof -
  let ?b = "kernel_stack_bottom (tasks s ! i)"
  let ?go = "\<lambda>as. upd_task i (\<lambda>t. t\<lparr>address_space := None, kernel_stack_bottom := 0, kernel_stack_top := 0\<rparr>)
                 (s\<lparr>RETIRED_STACKS := as, freed := freed s @ [?b]\<rparr>)"
  have core: "core_of (?go as) = (core_of s)\<lparr>kb := (kb (core_of s))[i := 0], acks := as\<rparr>" for as
    using map_upd_same [of status "\<lambda>t. t\<lparr>address_space := None, kernel_stack_bottom := 0, kernel_stack_top := 0\<rparr>" "tasks s" i]
    by (simp add: core_of_def upd_task_def map_update)
  have "reap_one R i s = s \<or> (\<exists>as. reap_one R i s = ?go as \<and> ?b \<noteq> 0 \<and> take_ack ?b (RETIRED_STACKS s) = Some as)"
    by (cases "take_ack ?b (RETIRED_STACKS s)") (auto simp: reap_one_def Let_def)
  then consider "reap_one R i s = s" | as where "reap_one R i s = ?go as" "?b \<noteq> 0" "take_ack ?b (RETIRED_STACKS s) = Some as"
    by blast
  then have "sched_inv (reap_one R i s) \<and> length (tasks (reap_one R i s)) = length (tasks s)
      \<and> percpu (reap_one R i s) = percpu s \<and> (reap_one R i s = s \<or> freed (reap_one R i s) = freed s @ [?b]
       \<and> ?b \<noteq> 0 \<and> (\<forall>c. \<not> refers (core_of s) c i))"
  proof cases
    case (2 as)
    have "core_inv ((core_of s)\<lparr>kb := (kb (core_of s))[i := 0], acks := as\<rparr>)" "\<forall>c. \<not> refers (core_of s) c i"
      using core_inv_reap [of "core_of s" i as] 2 inv i by (auto simp: sched_inv_def)
    then show ?thesis using 2 core by (simp add: sched_inv_def)
  qed (use inv in simp)
  then show "sched_inv (reap_one R i s)" "length (tasks (reap_one R i s)) = length (tasks s)"
    "percpu (reap_one R i s) = percpu s"
    "reap_one R i s = s \<or> freed (reap_one R i s) = freed s @ [kernel_stack_bottom (tasks s ! i)]
       \<and> kernel_stack_bottom (tasks s ! i) \<noteq> 0 \<and> (\<forall>c. \<not> refers (core_of s) c i)"
    by blast+
qed

lemma reap_one_stack:
  assumes "sched_inv s" "i < length (tasks s)" "refers (core_of s) c j"
  shows "kernel_stack_bottom (tasks (reap_one R i s) ! j) = kernel_stack_bottom (tasks s ! j)"
proof (cases "reap_one R i s = s")
  case False
  then have "j \<noteq> i" using reap_one_inv(4) [OF assms(1,2), of R] assms(3) by auto
  then show ?thesis using assms(2) by (simp add: reap_one_def Let_def tasks_upd_task split: option.split)
qed simp

definition in_use_stacks :: "sched \<Rightarrow> u64 set" where
  "in_use_stacks s = {kernel_stack_bottom (tasks s ! i) | c i. refers (core_of s) c i}"

lemma refers_percpu: "percpu s' = percpu s \<Longrightarrow> refers (core_of s') = refers (core_of s)"
  by (simp add: refers_def fun_eq_iff)

lemma in_use_cong:
  assumes "percpu s' = percpu s"
    and "\<And>c i. refers (core_of s) c i \<Longrightarrow> kernel_stack_bottom (tasks s' ! i) = kernel_stack_bottom (tasks s ! i)"
  shows "in_use_stacks s' = in_use_stacks s"
  unfolding in_use_stacks_def refers_percpu [OF assms(1)] using assms(2) by (intro Collect_cong) metis

lemma reap_one_in_use:
  assumes "sched_inv s" "i < length (tasks s)"
  shows "in_use_stacks (reap_one R i s) = in_use_stacks s"
  by (rule in_use_cong [OF reap_one_inv(3) [OF assms] reap_one_stack [OF assms]])

lemma reap_one_freed:
  assumes "sched_inv s" "i < length (tasks s)"
  shows "\<exists>bs. freed (reap_one R i s) = freed s @ bs \<and> set bs \<inter> in_use_stacks s = {}"
proof (cases "reap_one R i s = s")
  case False
  then have F: "freed (reap_one R i s) = freed s @ [kernel_stack_bottom (tasks s ! i)]"
    "kernel_stack_bottom (tasks s ! i) \<noteq> 0" "\<And>c. \<not> refers (core_of s) c i"
    using reap_one_inv(4) [OF assms, of R] by auto
  note D = core_invD [OF assms(1) [unfolded sched_inv_def]]
  have "kernel_stack_bottom (tasks s ! i) \<notin> in_use_stacks s"
  proof
    assume "kernel_stack_bottom (tasks s ! i) \<in> in_use_stacks s"
    then obtain c j where j: "refers (core_of s) c j" "kernel_stack_bottom (tasks s ! i) = kernel_stack_bottom (tasks s ! j)"
      by (auto simp: in_use_stacks_def)
    then have "j < length (tasks s)" "j \<noteq> i" using D(4) F(3) by auto
    then show False using D(13) [of i j] j(2) F(2) assms(2) by simp
  qed
  then show ?thesis using F(1) by auto
qed auto

lemma reap_fold:
  assumes "sched_inv s" "\<forall>i\<in>set js. i < length (tasks s)"
  shows "sched_inv (fold (reap_one R) js s) \<and> percpu (fold (reap_one R) js s) = percpu s
    \<and> length (tasks (fold (reap_one R) js s)) = length (tasks s)
    \<and> (\<exists>bs. freed (fold (reap_one R) js s) = freed s @ bs \<and> set bs \<inter> in_use_stacks s = {})"
  using assms
proof (induction js arbitrary: s)
  case (Cons i js)
  have i: "i < length (tasks s)" using Cons.prems by simp
  note R = reap_one_inv [OF Cons.prems(1) i, of R]
  obtain bs where "freed (reap_one R i s) = freed s @ bs" "set bs \<inter> in_use_stacks s = {}"
    using reap_one_freed [OF Cons.prems(1) i] by blast
  moreover obtain bs' where "freed (fold (reap_one R) js (reap_one R i s)) = freed (reap_one R i s) @ bs'"
    "set bs' \<inter> in_use_stacks s = {}"
    using Cons.IH [OF R(1)] Cons.prems(2) R(2) reap_one_in_use [OF Cons.prems(1) i] by auto
  ultimately have "\<exists>bs. freed (fold (reap_one R) (i # js) s) = freed s @ bs \<and> set bs \<inter> in_use_stacks s = {}"
    by (intro exI [where x = "bs @ bs'"]) auto
  then show ?case using Cons.IH [OF R(1)] Cons.prems(2) R(2,3) by auto
qed auto

lemma reap_zombies_inv:
  assumes "sched_inv s"
  shows "sched_inv (reap_zombies s)" "percpu (reap_zombies s) = percpu s"
    "length (tasks (reap_zombies s)) = length (tasks s)"
    "\<exists>bs. freed (reap_zombies s) = freed s @ bs \<and> set bs \<inter> in_use_stacks s = {}"
  using reap_fold [OF assms, of "[0..<length (tasks s)]"] unfolding reap_zombies_def by auto

section \<open>Switching keeps the invariant\<close>

lemma claim_scan_ready: "claim_scan ts q = (Some i, q') \<Longrightarrow> i < length ts \<and> status (ts ! i) = Ready"
  by (induction q) (auto split: if_splits)

lemma rposition_Some: "rposition p xs = Some i \<Longrightarrow> i < length xs \<and> p (xs ! i)"
proof -
  assume "rposition p xs = Some i"
  then obtain n where "n < length (rev [0..<length xs])" "p (xs ! (rev [0..<length xs] ! n))" "i = rev [0..<length xs] ! n"
    unfolding rposition_def find_Some_iff by blast
  moreover from this(1) have "rev [0..<length xs] ! n \<in> set [0..<length xs]" using nth_mem set_rev by metis
  ultimately show ?thesis by simp
qed

text \<open>A claim takes a ready task and only marks it.\<close>

lemma claim_next_cases:
  obtains (none) q where "claim_next c s = (None, s\<lparr>run_queues := q\<rparr>)"
  | (some) i f q where "claim_next c s = (Some i, upd_task i f (s\<lparr>run_queues := q\<rparr>))"
      "i < length (tasks s)" "status (tasks s ! i) = Ready" "\<And>t. status (f t) = Claimed"
      "\<And>t. kernel_stack_bottom (f t) = kernel_stack_bottom t" "\<And>t. stack_top (f t) = stack_top t"
proof -
  obtain r q where cs: "claim_scan (tasks s) (run_queues s c) = (r, q)" by fastforce
  let ?s = "s\<lparr>run_queues := (run_queues s)(c := q)\<rparr>"
  show thesis
  proof (cases r)
    case (Some i)
    then show thesis
      using some [of i "\<lambda>t. t\<lparr>status := Claimed\<rparr>"] cs claim_scan_ready [of "tasks s" "run_queues s c" i q]
      by (simp add: claim_next_def claim_local_ready_task_def)
  next
    case None
    then have c: "claim_next c s = steal_and_claim_ready_task c ?s"
      using cs by (simp add: claim_next_def claim_local_ready_task_def)
    show thesis
    proof (cases "steal_and_claim_ready_task c ?s")
      case (Pair r' s')
      show thesis
      proof (cases r')
        case None
        then have "s' = ?s" using Pair
          by (auto simp: steal_and_claim_ready_task_def Let_def split: option.splits)
        then show thesis using none c None Pair by simp
      next
        case (Some i)
        then obtain v pos where "i = run_queues ?s v ! pos" and pos: "rposition (\<lambda>i. i < length (tasks s)
            \<and> status (tasks s ! i) = Ready \<and> pinned_cpu (tasks s ! i) = USIZE_MAX) (run_queues ?s v) = Some pos"
          "s' = upd_task i (\<lambda>t. t\<lparr>status := Claimed, cpu_affinity := c\<rparr>) (?s\<lparr>run_queues := (run_queues ?s)
             (v := take pos (run_queues ?s v) @ drop (Suc pos) (run_queues ?s v))\<rparr>)"
          using Pair by (auto simp: steal_and_claim_ready_task_def Let_def split: option.splits)
        then show thesis
          using some [of i "\<lambda>t. t\<lparr>status := Claimed, cpu_affinity := c\<rparr>"] c Pair Some rposition_Some [OF pos(1)]
          by simp
      qed
    qed
  qed
qed

lemma finish_inv:
  assumes "sched_inv s"
  shows "sched_inv (finish_switched_out_task c s)" "percpu (finish_switched_out_task c s) = percpu s"
    "pending (finish_switched_out_task c s) = pending s" "CPU_SWITCHED_OUT (finish_switched_out_task c s) c = 0"
    "length (tasks (finish_switched_out_task c s)) = length (tasks s)" "freed (finish_switched_out_task c s) = freed s"
proof -
  let ?s = "s\<lparr>CPU_SWITCHED_OUT := (CPU_SWITCHED_OUT s)(c := 0)\<rparr>"
  have core: "core_of ?s = (core_of s)\<lparr>out := (out (core_of s))(c := 0)\<rparr>" by (simp add: core_of_def)
  have D: "CPU_SWITCHED_OUT s c = Suc i \<Longrightarrow> i < length (tasks s) \<and> status (tasks s ! i) = SwitchingOut" for i
    using core_invD(10) [OF assms [unfolded sched_inv_def], of c i] by auto
  show "sched_inv (finish_switched_out_task c s)"
  proof (cases "CPU_SWITCHED_OUT s c")
    case 0
    then have "?s = s" by (metis fun_upd_triv sched.surjective sched.update_convs(5))
    then show ?thesis using assms 0 by (simp add: finish_switched_out_task_def Let_def)
  next
    case (Suc i)
    then show ?thesis using D [of i] core_inv_finish [of "core_of s" c i] assms
      by (simp add: finish_switched_out_task_def Let_def sched_inv_def upd_task_status core)
  qed
qed (auto simp: finish_switched_out_task_def Let_def push_back_def)

lemma core_of_publish [simp]:
  "core_of (publish_current_task c i s) = (core_of s)\<lparr>pub := (pub (core_of s))(c := i)\<rparr>"
  by (simp add: core_of_def publish_current_task_def)

lemma core_of_pending [simp]: "core_of (s\<lparr>pending := f\<rparr>) = (core_of s)\<lparr>pend := f\<rparr>"
  by (simp add: core_of_def)

lemma core_of_upd_cpu:
  assumes "\<And>p. current_task_index (f p) = i" "\<And>p. on_stack (f p) = on_stack p"
  shows "core_of (upd_cpu c f s) = (core_of s)\<lparr>cur := (cur (core_of s))(c := i)\<rparr>"
  using assms by (auto simp: core_of_def upd_cpu_def fun_eq_iff)

lemma publish_fields [simp]:
  "tasks (publish_current_task c i s) = tasks s" "percpu (publish_current_task c i s) = percpu s"
  "pending (publish_current_task c i s) = pending s" "freed (publish_current_task c i s) = freed s"
  by (simp_all add: publish_current_task_def)

lemma upd_cpu_fields [simp]:
  "tasks (upd_cpu c f s) = tasks s" "pending (upd_cpu c f s) = pending s" "freed (upd_cpu c f s) = freed s"
  "percpu (upd_cpu c f s) = (percpu s)(c := f (percpu s c))"
  "RETIRED_STACKS (upd_cpu c f s) = RETIRED_STACKS s" "CPU_SWITCHED_OUT (upd_cpu c f s) = CPU_SWITCHED_OUT s"
  by (simp_all add: upd_cpu_def)

lemma switch_to_idle_core:
  assumes "current_task_index (percpu s c) = old" "old \<noteq> USIZE_MAX"
    "status (tasks s ! old) \<in> {Zombie, Sleeping, Waiting}" "idle_stack (percpu s c) \<noteq> 0"
  shows "core_of (switch_to_idle c s) = (core_of s)\<lparr>pub := (pub (core_of s))(c := USIZE_MAX),
    cur := (cur (core_of s))(c := USIZE_MAX), pend := (pend (core_of s))(c := Some (idle_plan c s))\<rparr>"
proof -
  have "core_of (upd_cpu c (\<lambda>p. p\<lparr>current_task_index := USIZE_MAX, user_stack := 0, scheduler_ticks_left := 0,
        need_resched := False, kernel_gs := 0\<rparr>) s') = (core_of s')\<lparr>cur := (cur (core_of s'))(c := USIZE_MAX)\<rparr>" for s'
    by (rule core_of_upd_cpu) simp_all
  moreover have "switch_to_idle c s = (let s2 = publish_current_task c USIZE_MAX
      (upd_cpu c (\<lambda>p. p\<lparr>current_task_index := USIZE_MAX, user_stack := 0, scheduler_ticks_left := 0,
         need_resched := False, kernel_gs := 0\<rparr>) (upd_task old (\<lambda>t. t\<lparr>user_rsp := user_stack (percpu s c)\<rparr>) s))
      in s2\<lparr>pending := (pending s2)(c := Some (idle_plan c s))\<rparr>)"
    using assms unfolding switch_to_idle_def Let_def by simp
  ultimately show ?thesis by (simp add: upd_task_same Let_def del: core_of_simps) (simp add: core_of_def)
qed

lemma switch_to_idle_inv:
  assumes inv: "sched_inv s" and c: "pending s c = None" "CPU_SWITCHED_OUT s c = 0"
  shows "sched_inv (switch_to_idle c s)"
proof -
  let ?old = "current_task_index (percpu s c)"
  show ?thesis
  proof (cases "?old \<noteq> USIZE_MAX \<and> status (tasks s ! ?old) \<in> {Zombie, Sleeping, Waiting} \<and> idle_stack (percpu s c) \<noteq> 0")
    case True
    have "?old < length (tasks s)"
      using core_invD(4) [OF inv [unfolded sched_inv_def], of c ?old] True by (simp add: refers_def)
    then have "core_inv ((core_of s)\<lparr>pub := (pub (core_of s))(c := USIZE_MAX),
        cur := (cur (core_of s))(c := USIZE_MAX), pend := (pend (core_of s))(c := Some (idle_plan c s))\<rparr>)"
      using True c inv by (intro core_inv_idle) (auto simp: sched_inv_def idle_plan_def Let_def split: if_splits)
    then show ?thesis using switch_to_idle_core [OF refl] True unfolding sched_inv_def by metis
  next
    case False
    then have "switch_to_idle c s = s" unfolding switch_to_idle_def Let_def by argo
    then show ?thesis using inv by simp
  qed
qed

text \<open>The task a CPU leaves when another one was claimed: a running task becomes \<open>SwitchingOut\<close>.\<close>

lemma core_inv_leave:
  assumes inv: "core_inv k" and c: "pend k c = None" "cur k c \<noteq> USIZE_MAX"
  shows "core_inv (k\<lparr>st := (st k)[cur k c := SwitchingOut]\<rparr>)"
  using core_inv_own_status [OF inv refl c(2,1)] by simp

lemma dispatch_task_core:
  "core_of (dispatch_task c i s) = (core_of s)\<lparr>st := (st (core_of s))[i := Running],
     pub := (pub (core_of s))(c := i), cur := (cur (core_of s))(c := i)\<rparr>"
proof -
  let ?f = "\<lambda>p. p\<lparr>current_task_index := i, scheduler_ticks_left := DEFAULT_TIME_SLICE_TICKS, need_resched := False\<rparr>"
  show ?thesis
    using core_of_upd_cpu [of ?f i c]
    by (simp add: dispatch_task_def Let_def upd_task_status upd_task_same)
qed

lemma dispatch_task_fields [simp]:
  "pending (dispatch_task c i s) = pending s" "length (tasks (dispatch_task c i s)) = length (tasks s)"
  "freed (dispatch_task c i s) = freed s"
  by (simp_all add: dispatch_task_def Let_def)

lemma core_of_nth:
  assumes "core_of s = k" "i < length (tasks s)"
  shows "status (tasks s ! i) = st k ! i" "kernel_stack_bottom (tasks s ! i) = kb k ! i"
  using assms by auto

lemma switch_to_task_inv:
  assumes inv: "sched_inv s" and c: "pending s c = None" "CPU_SWITCHED_OUT s c = 0"
    and i: "i < length (tasks s)" "status (tasks s ! i) = Ready"
    and f: "\<And>t. status (f t) = Claimed" "\<And>t. kernel_stack_bottom (f t) = kernel_stack_bottom t"
  shows "sched_inv (switch_to_task c i (upd_task i f s))"
proof -
  let ?k = "core_of s" and ?cur = "current_task_index (percpu s c)"
  define k1 where "k1 = (if preempted c s then ?k\<lparr>st := (st ?k)[?cur := SwitchingOut]\<rparr> else ?k)"
  note K = inv [unfolded sched_inv_def] and D = core_invD [OF inv [unfolded sched_inv_def]]
  have k1: "core_inv k1" using core_inv_leave [OF K, of c] K c by (simp add: k1_def preempted_def)
  have ic: "i \<noteq> ?cur" using D(2) D(6) [of i c] i by (auto simp: refers_def)
  have len: "?cur \<noteq> USIZE_MAX \<Longrightarrow> ?cur < length (tasks s)" using D(4) [of c ?cur] by (simp add: refers_def)
  have pre: "preempted c (upd_task i f s) = preempted c s" using ic i by (simp add: preempted_def tasks_upd_task)
  define s1 where "s1 = (if preempted c s then upd_task ?cur (\<lambda>t. t\<lparr>status := SwitchingOut\<rparr>) (upd_task i f s) else upd_task i f s)"
  have s1: "core_of s1 = k1\<lparr>st := (st k1)[i := Claimed]\<rparr>"
    using f ic by (simp add: s1_def k1_def upd_task_status list_update_swap)
  have t1: "status (tasks s1 ! i) = Claimed" "length (tasks s1) = length (tasks s)" "percpu s1 = percpu s" "pending s1 = pending s"
    using i f ic by (auto simp: s1_def upd_task_def)
  have st1: "i < length (st k1)" "st k1 ! i = Ready" using i ic by (auto simp: k1_def)
  define pin where "pin = pinned_cpu (tasks s1 ! i)"
  define s2 where "s2 = dispatch_task c i s1"
  define plan where "plan = switch_plan ?cur (preempted c s) i s2"
  have run: "switch_to_task c i (upd_task i f s) = (if pin \<noteq> USIZE_MAX \<and> pin \<noteq> c
      then push_back (min pin MAX_AP_COUNT) i (upd_task i (\<lambda>t. t\<lparr>status := Ready\<rparr>) s1)
      else s2\<lparr>pending := (pending s2)(c := Some plan)\<rparr>)"
    using t1(1) unfolding switch_to_task_def Let_def pre upd_task_fields s1_def [symmetric]
    by (simp add: pin_def s2_def plan_def)
  show ?thesis
  proof (cases "pin \<noteq> USIZE_MAX \<and> pin \<noteq> c")
    case True
    have "k1\<lparr>st := (st k1)[i := Ready]\<rparr> = k1" using st1 by (metis core.surjective core.update_convs(1) list_update_id)
    then show ?thesis using run True k1 s1 by (simp add: sched_inv_def upd_task_status)
  next
    case False
    have s2: "core_of s2 = k1\<lparr>st := (st k1)[i := Running], pub := (pub k1)(c := i), cur := (cur k1)(c := i)\<rparr>"
      using s1 by (simp add: s2_def dispatch_task_core)
    have z: "status (tasks s2 ! ?cur) = st k1 ! ?cur" "kernel_stack_bottom (tasks s2 ! ?cur) = kb k1 ! ?cur"
      if "?cur \<noteq> USIZE_MAX"
      using core_of_nth [OF s2, of ?cur] len [OF that] t1(2) ic by (simp_all add: s2_def)
    have "core_inv (k1\<lparr>st := (st k1)[i := Running], pub := (pub k1)(c := i), cur := (cur k1)(c := i),
        pend := (pend k1)(c := Some plan)\<rparr>)"
      by (rule core_inv_switch [OF k1 _ _ st1])
         (use c z len in \<open>auto simp: k1_def plan_def switch_plan_def Let_def preempted_def split: if_splits\<close>)
    moreover have "pending s2 = pend k1" using t1(4) by (simp add: s2_def k1_def)
    ultimately show ?thesis using run False s2 by (simp add: sched_inv_def)
  qed
qed

lemma switch_commit_inv:
  assumes inv: "sched_inv s"
  shows "sched_inv (switch_commit c s)"
proof (cases "pending s c")
  case (Some p)
  note P = core_invD(9) [OF inv [unfolded sched_inv_def], of c p, unfolded plan_ok_def]
  have "core_of (switch_commit c s) = (core_of s)\<lparr>stk := (stk (core_of s))(c := cur (core_of s) c),
    pend := (pend (core_of s))(c := None),
    out := (if switched_out_task p \<noteq> 0 then (out (core_of s))(c := switched_out_task p) else out (core_of s)),
    acks := (if retired_stack_bottom p \<noteq> 0 then retire (retired_stack_bottom p) (acks (core_of s)) else acks (core_of s))\<rparr>"
    using P Some
    by (auto simp: switch_commit_def context_switch_def Let_def core_of_def upd_cpu_def upd_task_def map_upd_same fun_eq_iff)
  then show ?thesis using core_inv_commit [of "core_of s" c p] inv Some by (simp add: sched_inv_def)
qed (use inv in \<open>simp add: switch_commit_def\<close>)


definition maintained :: "nat \<Rightarrow> sched \<Rightarrow> sched" where
  "maintained c s = finish_switched_out_task c
     (if c = 0 then reap_zombies (wake_sleeping_tasks_locked (SCHEDULER_TICKS s) s) else s)"

lemma switch_decide_eq:
  "switch_decide c s = (case claim_next c (maintained c s) of
     (None, s3) \<Rightarrow> switch_to_idle c s3 | (Some i, s3) \<Rightarrow> switch_to_task c i s3)"
  by (simp add: switch_decide_def maintained_def)

lemma wake_sleeping_fields:
  "pending (wake_sleeping_tasks_locked now s) = pending s" "freed (wake_sleeping_tasks_locked now s) = freed s"
proof -
  have "pending (fold (wake_sleeper now) js s) = pending s \<and> freed (fold (wake_sleeper now) js s) = freed s" for js
    by (induction js arbitrary: s) (simp_all add: wake_sleeper_def Let_def)
  then show "pending (wake_sleeping_tasks_locked now s) = pending s" "freed (wake_sleeping_tasks_locked now s) = freed s"
    by (simp_all add: wake_sleeping_tasks_locked_def)
qed

lemma reap_pending: "pending (reap_zombies s) = pending s"
proof -
  have "pending (fold (reap_one R) js s) = pending s" for R js
    by (induction js arbitrary: s) (simp_all add: reap_one_def Let_def split: option.split)
  then show ?thesis by (simp add: reap_zombies_def del: upt.simps)
qed

text \<open>The stacks of the tasks CPUs refer to do not change when others wake.\<close>

lemma wake_sleeping_in_use:
  assumes "sched_inv s" "\<And>i. i < length (tasks s) \<Longrightarrow> timer_due now (tasks s ! i) \<Longrightarrow> at_rest s i"
  shows "sched_inv (wake_sleeping_tasks_locked now s)" "percpu (wake_sleeping_tasks_locked now s) = percpu s"
    "in_use_stacks (wake_sleeping_tasks_locked now s) = in_use_stacks s"
proof -
  note F = fold_upt_wakes [OF wake_sleeper_safe assms, folded wake_sleeping_tasks_locked_def]
  show "sched_inv (wake_sleeping_tasks_locked now s)" and p: "percpu (wake_sleeping_tasks_locked now s) = percpu s"
    using F by simp_all
  have "kb (core_of (fold (wake_sleeper now) js s)) = kb (core_of s)" for js
  proof (induction js arbitrary: s)
    case (Cons j js)
    have "kb (core_of (wake_sleeper now j s)) = kb (core_of s)" for s
      by (simp add: wake_sleeper_def Let_def upd_task_status del: core_of_simps)
    then show ?case using Cons by (simp del: core_of_simps)
  qed simp
  then have "map kernel_stack_bottom (tasks (wake_sleeping_tasks_locked now s)) = map kernel_stack_bottom (tasks s)"
    by (simp add: wake_sleeping_tasks_locked_def)
  then have "kernel_stack_bottom (tasks (wake_sleeping_tasks_locked now s) ! i) = kernel_stack_bottom (tasks s ! i)"
    if "i < length (tasks s)" for i
    using that by (metis length_map nth_map)
  then show "in_use_stacks (wake_sleeping_tasks_locked now s) = in_use_stacks s"
    using in_use_cong [OF p] core_invD(4) [OF assms(1) [unfolded sched_inv_def]] by simp
qed

lemma maintained_inv:
  assumes inv: "sched_inv s"
    and calm: "\<And>i. c = 0 \<Longrightarrow> i < length (tasks s) \<Longrightarrow> timer_due (SCHEDULER_TICKS s) (tasks s ! i) \<Longrightarrow> at_rest s i"
  shows "sched_inv (maintained c s)" "percpu (maintained c s) = percpu s" "pending (maintained c s) = pending s"
    "CPU_SWITCHED_OUT (maintained c s) c = 0"
    "\<exists>bs. freed (maintained c s) = freed s @ bs \<and> set bs \<inter> in_use_stacks s = {}"
proof -
  let ?s1 = "wake_sleeping_tasks_locked (SCHEDULER_TICKS s) s"
  define s2 where "s2 = (if c = 0 then reap_zombies ?s1 else s)"
  have "sched_inv s2 \<and> percpu s2 = percpu s \<and> pending s2 = pending s
      \<and> (\<exists>bs. freed s2 = freed s @ bs \<and> set bs \<inter> in_use_stacks s = {})"
  proof (cases "c = 0")
    case True
    note W = wake_sleeping_in_use [OF inv calm [OF True]]
    show ?thesis using True W reap_zombies_inv [OF W(1)] wake_sleeping_fields reap_pending by (simp add: s2_def)
  qed (use inv in \<open>auto simp: s2_def\<close>)
  moreover have "maintained c s = finish_switched_out_task c s2" by (simp add: maintained_def s2_def)
  ultimately show "sched_inv (maintained c s)" "percpu (maintained c s) = percpu s" "pending (maintained c s) = pending s"
    "CPU_SWITCHED_OUT (maintained c s) c = 0"
    "\<exists>bs. freed (maintained c s) = freed s @ bs \<and> set bs \<inter> in_use_stacks s = {}"
    using finish_inv [of s2 c] by auto
qed

lemma switch_fields: "freed (switch_to_idle c s) = freed s" "freed (switch_to_task c i s) = freed s"
  by (simp_all add: switch_to_idle_def switch_to_task_def Let_def)

lemma switch_decide_inv:
  assumes inv: "sched_inv s" and c: "pending s c = None"
    and calm: "\<And>i. c = 0 \<Longrightarrow> i < length (tasks s) \<Longrightarrow> timer_due (SCHEDULER_TICKS s) (tasks s ! i) \<Longrightarrow> at_rest s i"
  shows "sched_inv (switch_decide c s)"
    "\<exists>bs. freed (switch_decide c s) = freed s @ bs \<and> set bs \<inter> in_use_stacks s = {}"
proof -
  note M = maintained_inv [OF inv calm, where c = c]
  have "sched_inv (switch_decide c s) \<and> freed (switch_decide c s) = freed (maintained c s)"
  proof (cases rule: claim_next_cases [of c "maintained c s"])
    case (none q)
    then show ?thesis using switch_to_idle_inv [of "(maintained c s)\<lparr>run_queues := q\<rparr>" c] M c
      by (simp add: switch_decide_eq sched_inv_def switch_fields)
  next
    case (some i f q)
    then show ?thesis using switch_to_task_inv [of "(maintained c s)\<lparr>run_queues := q\<rparr>" c i f] M c
      by (simp add: switch_decide_eq sched_inv_def switch_fields)
  qed
  then show "sched_inv (switch_decide c s)"
    "\<exists>bs. freed (switch_decide c s) = freed s @ bs \<and> set bs \<inter> in_use_stacks s = {}"
    using M(5) by auto
qed

end
