(* ===== verification/Sched_Properties.thy ===== *)
theory Sched_Properties
  imports Sched_Safety
begin

text \<open>
  The properties of the scheduler: interleavings of its operations on any number of CPUs, exclusive
  execution and the race that breaks it, reaping, event counters and stealing.
\<close>

section \<open>Sequences of operations\<close>

datatype sched_op =
    AddUser u64 u64 nat "u64 option" "nat option"
  | AddKernel u64 nat
  | Decide nat
  | Commit nat
  | WaitUntil nat nat nat u64
  | WakeKey nat
  | Sleep nat nat
  | WaitTask nat nat
  | Terminate nat nat
  | TakeFiles nat
  | Forget nat
  | ClockTick
  | Tick nat
  | Resched nat
  | Execute nat u64

text \<open>\<open>Execute\<close> is the code of the running task: it moves the stack pointer as it likes.\<close>

fun sched_do :: "sched_op \<Rightarrow> sched \<Rightarrow> sched" where
  "sched_do (AddUser stack ursp stack_size space files) s = snd (add_new_user_task stack ursp stack_size space files s)"
| "sched_do (AddKernel bottom stack_size) s = add_new_task bottom stack_size s"
| "sched_do (Decide c) s = switch_decide c s"
| "sched_do (Commit c) s = switch_commit c s"
| "sched_do (WaitUntil c key deadline g) s = snd (wait_current_until c key deadline g s)"
| "sched_do (WakeKey key) s = wake_waiters key s"
| "sched_do (Sleep c ms) s = sleep_current c ms s"
| "sched_do (WaitTask c tid) s = snd (wait_task c tid s)"
| "sched_do (Terminate c code) s = terminate_task c code s"
| "sched_do (TakeFiles c) s = snd (take_current_files c s)"
| "sched_do (Forget key) s = forget_wait_key key s"
| "sched_do ClockTick s = scheduler_clock_tick s"
| "sched_do (Tick c) s = scheduler_tick c s"
| "sched_do (Resched c) s = snd (reschedule_if_needed c s)"
| "sched_do (Execute c r) s = upd_cpu c (\<lambda>p. p\<lparr>rsp := r\<rparr>) s"

text \<open>
  What a CPU may do next: one with a switch in flight has nothing to do but complete it; the
  heap hands out stacks that are not in use by another task.
\<close>

fun sched_ok :: "sched_op \<Rightarrow> sched \<Rightarrow> bool" where
  "sched_ok (AddUser stack ursp stack_size space files) s \<longleftrightarrow>
     length (tasks s) < USIZE_MAX \<and> stack \<notin> kernel_stack_bottom ` set (tasks s)"
| "sched_ok (AddKernel bottom stack_size) s \<longleftrightarrow>
     length (tasks s) < USIZE_MAX \<and> bottom \<noteq> 0 \<and> bottom \<notin> kernel_stack_bottom ` set (tasks s)"
| "sched_ok (Decide c) s \<longleftrightarrow> c \<le> MAX_AP_COUNT \<and> pending s c = None"
| "sched_ok (Commit c) s \<longleftrightarrow> c \<le> MAX_AP_COUNT"
| "sched_ok (WaitUntil c key deadline g) s \<longleftrightarrow> c \<le> MAX_AP_COUNT \<and> pending s c = None"
| "sched_ok (WakeKey key) s \<longleftrightarrow> True"
| "sched_ok (Sleep c ms) s \<longleftrightarrow> c \<le> MAX_AP_COUNT \<and> pending s c = None"
| "sched_ok (WaitTask c tid) s \<longleftrightarrow> c \<le> MAX_AP_COUNT \<and> pending s c = None"
| "sched_ok (Terminate c code) s \<longleftrightarrow> c \<le> MAX_AP_COUNT \<and> pending s c = None"
| "sched_ok (TakeFiles c) s \<longleftrightarrow> c \<le> MAX_AP_COUNT \<and> pending s c = None"
| "sched_ok (Forget key) s \<longleftrightarrow> True"
| "sched_ok ClockTick s \<longleftrightarrow> True"
| "sched_ok (Tick c) s \<longleftrightarrow> c \<le> MAX_AP_COUNT"
| "sched_ok (Resched c) s \<longleftrightarrow> c \<le> MAX_AP_COUNT \<and> pending s c = None"
| "sched_ok (Execute c r) s \<longleftrightarrow> c \<le> MAX_AP_COUNT"

text \<open>The tasks an operation makes ready because of a timer, an event or an exit.\<close>

fun wakes_task :: "sched_op \<Rightarrow> nat \<Rightarrow> sched \<Rightarrow> bool" where
  "wakes_task (Decide c) i s \<longleftrightarrow> c = 0 \<and> timer_due (SCHEDULER_TICKS s) (tasks s ! i)"
| "wakes_task (WakeKey key) i s \<longleftrightarrow> event_wakes key i s"
| "wakes_task (Terminate c code) i s \<longleftrightarrow> current_task_index (percpu s c) \<noteq> USIZE_MAX
     \<and> i \<noteq> current_task_index (percpu s c) \<and> status (tasks s ! i) = Waiting
     \<and> waiting_for (tasks s ! i) = task_id (tasks s ! current_task_index (percpu s c))"
| "wakes_task _ i s \<longleftrightarrow> False"

definition calm :: "sched_op \<Rightarrow> sched \<Rightarrow> bool" where
  "calm a s \<longleftrightarrow> (\<forall>i<length (tasks s). wakes_task a i s \<longrightarrow> at_rest s i)"

definition boot_percpu :: "nat \<Rightarrow> Percpu" where
  "boot_percpu c = \<lparr>kernel_stack = 0, user_stack = 0, current_task_index = (if c = 0 then 0 else USIZE_MAX),
     idle_stack = 0, scheduler_ticks_left = 0, need_resched = False, kernel_gs = 0, cr3 = 0, rsp = 0,
     on_stack = (if c = 0 then 0 else USIZE_MAX)\<rparr>"

definition sched_start :: "nat \<Rightarrow> u64 \<Rightarrow> sched" where
  "sched_start aps pml4 = enter_bsp_scheduler_idle (sched_init aps pml4 boot_percpu)"

text \<open>Reachable states: any interleaving (\<open>calm_reach\<close>: of operations that wake only tasks at rest).\<close>

inductive sched_reach :: "sched \<Rightarrow> bool" where
  start: "sched_reach (sched_start aps pml4)"
| step: "sched_reach s \<Longrightarrow> sched_ok a s \<Longrightarrow> sched_reach (sched_do a s)"

inductive calm_reach :: "sched \<Rightarrow> bool" where
  start: "calm_reach (sched_start aps pml4)"
| step: "calm_reach s \<Longrightarrow> sched_ok a s \<Longrightarrow> calm a s \<Longrightarrow> calm_reach (sched_do a s)"

section \<open>Every calm operation keeps the invariant\<close>

lemma start_inv: "sched_inv (sched_start aps pml4)"
proof -
  have core: "core_of (sched_start aps pml4) = \<lparr>st = [Zombie], kb = [0], pub = (\<lambda>_. USIZE_MAX),
      cur = (\<lambda>_. USIZE_MAX), stk = (\<lambda>_. USIZE_MAX), out = (\<lambda>_. 0), pend = (\<lambda>_. None),
      acks = replicate RETIRED_STACK_SLOTS 0\<rparr>"
    by (auto simp: core_of_def sched_start_def enter_bsp_scheduler_idle_def sched_init_def boot_percpu_def
        main_task_def upd_task_def upd_cpu_def publish_current_task_def Let_def fun_eq_iff)
  show ?thesis unfolding sched_inv_def core
    by (rule core_invI) (simp_all add: refers_def)
qed

lemma own_status_inv:
  assumes "sched_inv s" "pending s c = None" "current_task_index (percpu s c) \<noteq> USIZE_MAX"
    and "\<And>t. status (f t) = x" "\<And>t. kernel_stack_bottom (f t) = kernel_stack_bottom t" "x \<noteq> Claimed" "x \<noteq> Ready"
  shows "sched_inv (upd_task (current_task_index (percpu s c)) f s)"
  using core_inv_own_status [of "core_of s" c, OF _ refl] assms by (simp add: sched_inv_def upd_task_status)

lemma place_task_core: "core_of (place_task i c s) = core_of s"
  by (simp add: place_task_def Let_def upd_task_same)

lemma add_core:
  assumes "sched_inv s" "length (tasks s) < USIZE_MAX" "b \<noteq> 0" "b \<notin> kernel_stack_bottom ` set (tasks s)"
    and "status t = Ready" "kernel_stack_bottom t = b" "\<And>t. status (f t) = status t"
    "\<And>t. kernel_stack_bottom (f t) = kernel_stack_bottom t"
  shows "sched_inv (place_task i c (upd_task i f (s\<lparr>NEXT_TASK_ID := n, tasks := tasks s @ [t]\<rparr>)))"
proof -
  have "core_of (s\<lparr>NEXT_TASK_ID := n, tasks := tasks s @ [t]\<rparr>) =
      (core_of s)\<lparr>st := st (core_of s) @ [Ready], kb := kb (core_of s) @ [b]\<rparr>"
    using assms(5,6) by (simp add: core_of_def)
  then show ?thesis
    using core_inv_add [of "core_of s" b] assms by (simp add: sched_inv_def place_task_core upd_task_same)
qed

lemma upd_task_id: "upd_task i (\<lambda>t. t) s = s"
  by (simp add: upd_task_def)

lemma add_user_inv:
  assumes "sched_inv s" "sched_ok (AddUser stack ursp n space files) s"
  shows "sched_inv (sched_do (AddUser stack ursp n space files) s)"
proof (cases "stack = 0")
  case True
  then show ?thesis using assms(1) by (simp add: add_new_user_task_def Let_def sched_inv_def)
next
  case False
  define f :: "Task \<Rightarrow> Task" where "f = (if NEXT_TASK_ID s = 1 then pinned_cpu_update (\<lambda>_. 0) else (\<lambda>t. t))"
  have f: "status (f t) = status t" "kernel_stack_bottom (f t) = kernel_stack_bottom t" for t by (simp_all add: f_def)
  note A = add_core [OF assms(1) _ False _ _ _ f]
  show ?thesis
  proof (cases "NEXT_TASK_ID s = 1")
    case True
    then show ?thesis using False assms(2) A by (auto simp: add_new_user_task_def Let_def f_def)
  next
    case F: False
    then show ?thesis using False assms(2) A by (auto simp: add_new_user_task_def Let_def f_def upd_task_id)
  qed
qed

lemma add_kernel_inv:
  assumes "sched_inv s" "sched_ok (AddKernel bottom n) s"
  shows "sched_inv (sched_do (AddKernel bottom n) s)"
proof -
  note A = add_core [OF assms(1), where f = "\<lambda>t. t"]
  show ?thesis using assms(2) A by (auto simp: add_new_task_def Let_def upd_task_id)
qed


lemma terminate_inv:
  assumes inv: "sched_inv s" and c: "pending s c = None" and calm: "calm (Terminate c code) s"
  shows "sched_inv (terminate_task c code s)"
proof (cases "current_task_index (percpu s c) = USIZE_MAX")
  case False
  let ?cur = "current_task_index (percpu s c)"
  define s1 where "s1 = upd_task ?cur (\<lambda>t. t\<lparr>status := Zombie, exit_code := code\<rparr>) s"
  have len: "?cur < length (tasks s)"
    using core_invD(4) [OF inv [unfolded sched_inv_def], of c ?cur] False by (simp add: refers_def)
  have inv1: "sched_inv s1" unfolding s1_def by (rule own_status_inv [OF inv c False, where x = Zombie]) simp_all
  have tid: "task_id (tasks s1 ! ?cur) = task_id (tasks s ! ?cur)" using len by (simp add: s1_def tasks_upd_task)
  have "at_rest s1 i" if i: "i < length (tasks s1)"
    "status (tasks s1 ! i) = Waiting \<and> waiting_for (tasks s1 ! i) = task_id (tasks s1 ! ?cur)" for i
  proof -
    have ne: "i \<noteq> ?cur" using i len by (auto simp: s1_def tasks_upd_task)
    then have "status (tasks s ! i) = Waiting" "waiting_for (tasks s ! i) = task_id (tasks s ! ?cur)"
      using i len tid by (simp_all add: s1_def tasks_upd_task)
    then have "at_rest s i" using calm False i ne by (auto simp: calm_def s1_def)
    then show ?thesis by (simp add: at_rest_def s1_def)
  qed
  from fold_upt_wakes(1) [OF wake_exit_waiter_safe inv1 this] show ?thesis
    using False by (simp add: terminate_task_def Let_def s1_def)
qed (use inv in \<open>simp add: terminate_task_def\<close>)

lemma wake_waiters_inv:
  assumes "sched_inv s" "calm (WakeKey key) s"
  shows "sched_inv (wake_waiters key s)"
proof -
  let ?s = "s\<lparr>event_generations := bump key (event_generations s)\<rparr>"
  have "sched_inv ?s" using assms(1) by (simp add: sched_inv_def)
  from fold_upt_wakes(1) [OF wake_waiter_safe this, of key] assms(2)
  show ?thesis by (simp add: wake_waiters_def calm_def at_rest_def event_wakes_def del: upt.simps set_upt)
qed

lemma sched_do_inv:
  assumes inv: "sched_inv s" and ok: "sched_ok a s" and calm: "calm a s"
  shows "sched_inv (sched_do a s)"
proof (cases a)
  case (AddUser stack ursp n space files)
  then show ?thesis using add_user_inv inv ok by simp
next
  case (AddKernel bottom n)
  then show ?thesis using add_kernel_inv inv ok by simp
next
  case (Decide c)
  then show ?thesis using switch_decide_inv(1) [OF inv, of c] ok calm by (simp add: calm_def)
next
  case (Commit c)
  then show ?thesis using switch_commit_inv [OF inv] by simp
next
  case (WaitUntil c key deadline g)
  then show ?thesis
    using own_status_inv [OF inv, of c "\<lambda>t. t\<lparr>waiting_for := key, wake_tick := deadline, status := Waiting\<rparr>" Waiting] inv ok
    by (simp add: wait_current_until_def Let_def)
next
  case (WakeKey key)
  then show ?thesis using wake_waiters_inv inv calm by simp
next
  case (Sleep c ms)
  then show ?thesis using own_status_inv [OF inv, of c _ Sleeping] inv ok by (simp add: sleep_current_def Let_def)
next
  case (WaitTask c tid)
  then show ?thesis
    using own_status_inv [OF inv, of c "\<lambda>t. t\<lparr>status := Waiting, waiting_for := tid\<rparr>" Waiting] inv ok
    by (simp add: wait_task_def Let_def split: option.split)
next
  case (Terminate c code)
  then show ?thesis using terminate_inv inv ok calm by simp
next
  case (TakeFiles c)
  then show ?thesis using inv by (simp add: take_current_files_def Let_def sched_inv_def upd_task_same)
next
  case (Tick c)
  then show ?thesis using inv by (simp add: scheduler_tick_def Let_def sched_inv_def upd_cpu_same)
next
  case (Resched c)
  then show ?thesis using inv by (simp add: reschedule_if_needed_def sched_inv_def upd_cpu_same)
next
  case (Execute c r)
  then show ?thesis using inv by (simp add: sched_inv_def upd_cpu_same)
qed (use inv in \<open>simp_all add: sched_inv_def forget_wait_key_def scheduler_clock_tick_def\<close>)

lemma calm_reach_inv: "calm_reach s \<Longrightarrow> sched_inv s"
  by (induction rule: calm_reach.induct) (simp_all add: start_inv sched_do_inv)

fun sched_run :: "sched_op list \<Rightarrow> sched \<Rightarrow> sched option" where
  "sched_run [] s = Some s"
| "sched_run (a # as) s = (if sched_ok a s then sched_run as (sched_do a s) else None)"

lemma sched_run_reach: "sched_reach s \<Longrightarrow> sched_run as s = Some s' \<Longrightarrow> sched_reach s'"
  by (induction as arbitrary: s) (auto intro: sched_reach.step split: if_splits)

text \<open>A parent on CPU 0 waits for a child that exits on CPU 1 before the parent has switched away.\<close>

definition exit_race :: "sched_op list" where
  "exit_race = [AddUser 0x1000 0 0 None None, AddUser 0x2000 0 0 None None, AddUser 0x3000 0 0 None None,
     Decide 0, Commit 0, Sleep 0 1000, Decide 0, Commit 0, Decide 1, Commit 1,
     WaitTask 0 2, AddUser 0x4000 0 0 None None, Terminate 1 0, Decide 1, Commit 1]"

lemmas sched_defs = add_new_user_task_def place_task_def select_target_cpu_def online_cpus_def
  switch_decide_def wake_sleeping_tasks_locked_def wake_sleeper_def timer_due_def reap_zombies_def reap_one_def
  finish_switched_out_task_def claim_next_def claim_local_ready_task_def steal_and_claim_ready_task_def
  rposition_def switch_to_task_def preempted_def dispatch_task_def switch_plan_def switch_to_idle_def
  idle_plan_def switch_commit_def context_switch_def wait_task_def terminate_task_def wake_exit_waiter_def
  sleep_current_def upd_task_def upd_cpu_def publish_current_task_def push_back_def send_wake_ipi_def
  sched_start_def enter_bsp_scheduler_idle_def sched_init_def boot_percpu_def main_task_def

section \<open>Event counters\<close>

text \<open>
  What blocking code relies on: waking the waiters of a key advances that key's counter and no
  other. A snapshot taken before a wakeup then differs from the counter until it has
  wrapped around completely.
\<close>

locale event_counter =
  fixes counter :: "'k \<Rightarrow> 's \<Rightarrow> u64" and wake :: "'k \<Rightarrow> 's \<Rightarrow> 's"
  assumes counter_wake: "counter k (wake k s) = counter k s + 1"
    and counter_other: "k' \<noteq> k \<Longrightarrow> counter k' (wake k s) = counter k' s"
begin

lemma counter_wakes: "counter k ((wake k ^^ n) s) = counter k s + of_nat n"
  by (induction n) (simp_all add: counter_wake)

lemma snapshot_stale:
  assumes "0 < n" "n < 2 ^ 64"
  shows "counter k ((wake k ^^ n) s) \<noteq> counter k s"
proof -
  have "(of_nat n :: u64) \<noteq> 0" using assms by (simp add: unat_eq_0 [symmetric] unat_of_nat_small [where 'a = 64])
  then show ?thesis by (simp add: counter_wakes)
qed

end

lemma map_of_bump: "map_of (bump key gs) k =
    (if k = key then Some (case map_of gs key of None \<Rightarrow> 1 | Some g \<Rightarrow> g + 1) else map_of gs k)"
  by (induction gs) auto

lemma wake_waiters_generations: "event_generations (wake_waiters key s) = bump key (event_generations s)"
proof -
  have "event_generations (fold (wake_waiter key) js s) = event_generations s" for js s
  proof (induction js arbitrary: s)
    case (Cons j js)
    have "event_generations (wake_waiter key j s) = event_generations s" for s
      by (simp add: wake_waiter_def Let_def del: upt.simps set_upt)
    then show ?case using Cons by simp
  qed simp
  then show ?thesis by (simp add: wake_waiters_def)
qed

interpretation event: event_counter event_generation_locked wake_waiters
  by unfold_locales
     (auto simp: event_generation_locked_def wake_waiters_generations map_of_bump split: option.split)

section \<open>Properties\<close>

lemma case_option_Some: "(case x of None \<Rightarrow> False | Some y \<Rightarrow> P y) \<Longrightarrow> \<exists>y. x = Some y \<and> P y"
  by (cases x) auto

lemma exit_race_run:
  "\<exists>s. sched_run exit_race (sched_start 1 0) = Some s \<and> on_stack (percpu s 0) = 3 \<and> on_stack (percpu s 1) = 3"
  by (simp add: exit_race_def sched_defs Let_def upt_rec)

text \<open>C16. Exclusive execution. In every interleaving in which timers, events and exits wake only tasks
  that have completely left their CPU, no two CPUs stand on the same kernel stack or have
  switched to the same task, and a task that can be claimed is on no CPU, so the context
  loaded for it is the one it saved.\<close>

theorem sched_exclusive:
  assumes "calm_reach s" "c \<noteq> d"
  shows "(on_stack (percpu s c) \<noteq> USIZE_MAX \<longrightarrow> on_stack (percpu s c) \<noteq> on_stack (percpu s d)
      \<and> on_stack (percpu s c) \<noteq> current_task_index (percpu s d))
    \<and> (current_task_index (percpu s c) \<noteq> USIZE_MAX \<longrightarrow> current_task_index (percpu s c) \<noteq> current_task_index (percpu s d))
    \<and> (\<forall>i<length (tasks s). status (tasks s ! i) = Ready \<longrightarrow> at_rest s i)"
proof -
  note D = core_invD [OF calm_reach_inv [OF assms(1), unfolded sched_inv_def]]
  have "\<not> (refers (core_of s) c i \<and> refers (core_of s) d i)" for i using D(5) assms(2) by blast
  moreover have "at_rest s i" if "i < length (tasks s)" "status (tasks s ! i) = Ready" for i
    using D(2) D(6) [of i] that by (auto simp: at_rest_def refers_def)
  moreover note calculation(1) [of "on_stack (percpu s c)"] calculation(1) [of "current_task_index (percpu s c)"]
  ultimately show ?thesis unfolding refers_def core_of_simps by metis
qed

definition two_running :: "sched_op list" where
  "two_running = [AddUser 0x1000 0 0 None None, AddUser 0x2000 0 0 None None, Decide 0, Commit 0, Decide 1, Commit 1]"

fun calm_run :: "sched_op list \<Rightarrow> sched \<Rightarrow> sched option" where
  "calm_run [] s = Some s"
| "calm_run (a # as) s = (if sched_ok a s \<and> (\<forall>i\<in>set [0..<length (tasks s)]. \<not> wakes_task a i s)
     then calm_run as (sched_do a s) else None)"

lemma calm_run_reach: "calm_reach s \<Longrightarrow> calm_run as s = Some s' \<Longrightarrow> calm_reach s'"
proof (induction as arbitrary: s)
  case (Cons a as)
  then have "sched_ok a s" "calm a s" "calm_run as (sched_do a s) = Some s'"
    by (auto simp: calm_def split: if_splits)
  then show ?case using Cons.IH calm_reach.step [OF Cons.prems(1)] by blast
qed simp

lemma two_running_run:
  "\<exists>s. calm_run two_running (sched_start 1 0) = Some s \<and> on_stack (percpu s 0) = 1 \<and> on_stack (percpu s 1) = 2"
  by (simp add: two_running_def sched_defs Let_def upt_rec)

theorem sched_exclusive_witness:
  "\<exists>s. calm_reach s \<and> on_stack (percpu s 0) = 1 \<and> on_stack (percpu s 0) \<noteq> on_stack (percpu s 1)"
proof -
  obtain s where "calm_run two_running (sched_start 1 0) = Some s" "on_stack (percpu s 0) = 1"
    using two_running_run by blast
  moreover from this(1) have "calm_reach s" using calm_run_reach [OF calm_reach.start] by blast
  ultimately show ?thesis using sched_exclusive [of s 0 1] by auto
qed



definition one_dead :: "sched_op list" where
  "one_dead = [AddUser 0x1000 0 0 None None, AddUser 0x2000 0 0 None None, AddUser 0x3000 0 0 None None,
     Decide 0, Commit 0, Decide 1, Commit 1, Terminate 0 0, Decide 0, Commit 0]"

lemma retire_empty: "retire b (replicate RETIRED_STACK_SLOTS 0) = b # replicate 63 0"
  by (simp add: numeral_eq_Suc)

lemma one_dead_run:
  "case calm_run one_dead (sched_start 1 0) of None \<Rightarrow> False
   | Some s \<Rightarrow> freed s = [] \<and> freed (sched_do (Decide 0) s) = [0x1000] \<and> on_stack (percpu s 1) = 2 \<and> sched_ok (Decide 0) s
       \<and> (\<forall>i\<in>set [0..<length (tasks s)]. \<not> wakes_task (Decide 0) i s)"
  by (simp add: one_dead_def sched_defs Let_def upt_rec retire_empty)



text \<open>C27. A wakeup between the snapshot of an event's generation and the wait is not lost: after any
  number of wakeups of the key, below \<open>2 ^ 64\<close>, waiting with the old generation returns at
  once and changes nothing.\<close>

theorem stale_snapshot_returns:
  assumes "0 < n" "n < 2 ^ 64" "g = event_generation_locked key s" "s' = (wake_waiters key ^^ n) s"
  shows "wait_current_until c key deadline g s' = (False, s')"
  using event.snapshot_stale [OF assms(1,2), of key s] assms(3,4)
  by (simp add: wait_current_until_def Let_def)

theorem stale_snapshot_returns_witness:
  "wait_current_until 0 77 0 0 (wake_waiters 77 (sched_start 1 0)) = (False, wake_waiters 77 (sched_start 1 0))"
  using stale_snapshot_returns [of 1 0 77 "sched_start 1 0" "wake_waiters 77 (sched_start 1 0)" 0 0]
  by (simp add: event_generation_locked_def sched_start_def enter_bsp_scheduler_idle_def sched_init_def Let_def
      publish_current_task_def upd_cpu_def upd_task_def)

lemma pick_victim_spec:
  assumes "pick_victim thief qs cs v n = Some x" "1 \<le> n"
    and "\<And>y. v = Some y \<Longrightarrow> y \<noteq> thief \<and> y \<in> A \<and> length (qs y) > 1" "set cs \<subseteq> A"
  shows "x \<noteq> thief \<and> x \<in> A \<and> length (qs x) > 1"
  using assms
proof (induction cs arbitrary: v n)
  case (Cons c cs)
  show ?case
  proof (cases "c \<noteq> thief \<and> length (qs c) > n")
    case True
    then show ?thesis using Cons.IH [of "Some c" "length (qs c)"] Cons.prems by auto
  next
    case False
    then have "pick_victim thief qs cs v n = Some x" using Cons.prems(1) by (auto split: if_splits)
    then show ?thesis using Cons.IH [of v n] Cons.prems by simp
  qed
qed auto

text \<open>C28. Stealing takes a ready task that is not pinned, from another online CPU whose queue holds
  at least two entries, removes exactly that entry, and leaves every other queue alone; with no
  such queue it changes nothing.\<close>

theorem steal_spec:
  assumes "steal_and_claim_ready_task thief s = (Some i, s')"
  shows "\<exists>v xs ys. v \<noteq> thief \<and> v < online_cpus s \<and> run_queues s v = xs @ i # ys \<and> xs @ ys \<noteq> []
    \<and> run_queues s' = (run_queues s)(v := xs @ ys)
    \<and> i < length (tasks s) \<and> status (tasks s ! i) = Ready \<and> pinned_cpu (tasks s ! i) = USIZE_MAX
    \<and> status (tasks s' ! i) = Claimed \<and> cpu_affinity (tasks s' ! i) = thief
    \<and> (\<forall>j. j \<noteq> i \<longrightarrow> tasks s' ! j = tasks s ! j)"
proof -
  obtain v where v: "pick_victim thief (run_queues s) [0..<online_cpus s] None 1 = Some v"
    using assms by (cases "pick_victim thief (run_queues s) [0..<online_cpus s] None 1")
      (simp_all add: steal_and_claim_ready_task_def)
  have V: "v \<noteq> thief" "v < online_cpus s" "length (run_queues s v) > 1"
    using pick_victim_spec [OF v, of "set [0..<online_cpus s]"] by simp_all
  let ?q = "run_queues s v"
  let ?p = "\<lambda>i. i < length (tasks s) \<and> status (tasks s ! i) = Ready \<and> pinned_cpu (tasks s ! i) = USIZE_MAX"
  obtain pos where pos: "rposition ?p ?q = Some pos" "i = ?q ! pos"
    "s' = upd_task i (\<lambda>t. t\<lparr>status := Claimed, cpu_affinity := thief\<rparr>)
       (s\<lparr>run_queues := (run_queues s)(v := take pos ?q @ drop (Suc pos) ?q)\<rparr>)"
    using assms v by (auto simp: steal_and_claim_ready_task_def Let_def split: option.splits)
  have P: "pos < length ?q" "?p i" using rposition_Some [OF pos(1)] pos(2) by auto
  have q: "?q = take pos ?q @ i # drop (Suc pos) ?q" using id_take_nth_drop [OF P(1)] pos(2) by simp
  have "take pos ?q @ drop (Suc pos) ?q \<noteq> []" using V(3) P(1) by auto
  moreover have "tasks s' ! j = (if j = i then (tasks s ! i)\<lparr>status := Claimed, cpu_affinity := thief\<rparr> else tasks s ! j)" for j
    using P(2) pos(3) by (simp add: tasks_upd_task)
  moreover have "run_queues s' = (run_queues s)(v := take pos ?q @ drop (Suc pos) ?q)" using pos(3) by simp
  ultimately show ?thesis
    using V(1,2) q P(2) by (intro exI [where x = v] exI [where x = "take pos ?q"] exI [where x = "drop (Suc pos) ?q"]) simp
qed

definition two_queued :: "sched_op list" where
  "two_queued = [AddUser 0x1000 0 0 None None, AddUser 0x2000 0 0 None None, AddUser 0x3000 0 0 None None]"

lemma two_queued_run:
  "case sched_run two_queued (sched_start 1 0) of None \<Rightarrow> False
   | Some s \<Rightarrow> run_queues s 0 = [1, 3] \<and> fst (steal_and_claim_ready_task 1 s) = Some 3"
  by (simp add: two_queued_def sched_defs Let_def upt_rec)

theorem steal_spec_witness:
  "\<exists>s s'. sched_reach s \<and> run_queues s 0 = [1, 3] \<and> steal_and_claim_ready_task 1 s = (Some 3, s')
     \<and> status (tasks s' ! 3) = Claimed \<and> cpu_affinity (tasks s' ! 3) = 1"
proof -
  obtain s where s: "sched_run two_queued (sched_start 1 0) = Some s" "run_queues s 0 = [1, 3]"
    "fst (steal_and_claim_ready_task 1 s) = Some 3"
    using case_option_Some [OF two_queued_run] by blast
  then have run: "steal_and_claim_ready_task 1 s = (Some 3, snd (steal_and_claim_ready_task 1 s))" by (metis prod.collapse)
  have "sched_reach s" using sched_run_reach [OF sched_reach.start] s(1) by blast
  then show ?thesis using steal_spec [OF run] run s by blast
qed

end
