(* ===== verification/Net_Base.thy ===== *)
theory Net_Base
  imports Fs_Device
begin

text \<open>
  The network stack below the sockets: the Internet checksum
  (\<^verbatim>\<open>drivers/net/helper.rs\<close>), the descriptor rings of the e1000 card
  (\<^verbatim>\<open>e1000.rs\<close>), the ARP cache, the ICMP reply ring and the accessors of
  \<^verbatim>\<open>drivers/net/mod.rs\<close>, and the IPv4 transmit path of \<^verbatim>\<open>ipv4.rs\<close>. The main lemmas: a
  checksum stored in its zero field makes the checksum of the whole 0.
\<close>

unbundle bit_operations_syntax

definition be16_of :: "u8 \<Rightarrow> u8 \<Rightarrow> u32" where
  "be16_of a b = push_bit 8 (ucast a) OR ucast b"

fun sum_pairs :: "u32 \<Rightarrow> bytes \<Rightarrow> u32" where
  "sum_pairs s (a # b # r) = sum_pairs (s + be16_of a b) r"
| "sum_pairs s [a] = s + push_bit 8 (ucast a)"
| "sum_pairs s [] = s"

lemma unat_fold_parts:
  fixes s :: u32
  shows "unat (s AND 0xFFFF) = unat s mod 65536" "unat (drop_bit 16 s) = unat s div 65536"
proof -
  have "s AND 0xFFFF = take_bit 16 s" by (simp add: take_bit_eq_mask mask_eq_exp_minus_1)
  then show "unat (s AND 0xFFFF) = unat s mod 65536"
    by (simp add: unsigned_take_bit_eq take_bit_eq_mod unat_mod)
  show "unat (drop_bit 16 s) = unat s div 65536"
    using unsigned_less [of s] by (simp add: unsigned_drop_bit_eq drop_bit_eq_div take_bit_nat_eq_self unat_div)
qed

lemma unat_fold_step:
  fixes s :: u32
  shows "unat ((s AND 0xFFFF) + drop_bit 16 s) = unat s mod 65536 + unat s div 65536"
proof -
  have "unat s < 4294967296" using unsigned_less [of s] by simp
  then have "unat s mod 65536 + unat s div 65536 < 2 ^ 32"
    by (simp add: less_mult_imp_div_less add_less_le_mono less_imp_le)
  then show ?thesis by (simp add: unat_word_ariths unat_fold_parts)
qed

lemma fold_step_less:
  fixes s :: u32
  assumes "drop_bit 16 s \<noteq> 0"
  shows "unat ((s AND 0xFFFF) + drop_bit 16 s) < unat s"
proof -
  have "0 < unat s div 65536" using assms by (metis unat_fold_parts(2) unat_gt_0)
  moreover have "unat s = unat s div 65536 * 65536 + unat s mod 65536" by (rule div_mult_mod_eq [symmetric])
  ultimately show ?thesis unfolding unat_fold_step by linarith
qed

function fold16 :: "u32 \<Rightarrow> u32" where
  "fold16 s = (if drop_bit 16 s \<noteq> 0 then fold16 ((s AND 0xFFFF) + drop_bit 16 s) else s)"
  by auto
termination
  by (relation "measure unat") (simp_all add: fold_step_less)

declare fold16.simps [simp del]

definition calculate_checksum :: "bytes \<Rightarrow> u16 option" where
  "calculate_checksum data =
     (if data = [] then None else Some (NOT (ucast (fold16 (sum_pairs 0 data)))))"


datatype ip4 = Ip u8 u8 u8 u8
fun ip_bytes :: "ip4 \<Rightarrow> bytes" where
  "ip_bytes (Ip a b c d) = [a, b, c, d]"
lemma length_ip_bytes [simp, codec]: "length (ip_bytes ip) = 4"
  by (cases ip) simp

definition transport_checksum :: "ip4 \<Rightarrow> ip4 \<Rightarrow> u8 \<Rightarrow> bytes \<Rightarrow> u16" where
  "transport_checksum src dst protocol segment =
     (let sum = sum_pairs 0 (ip_bytes src @ ip_bytes dst);
          sum = sum + (ucast protocol + of_nat (length segment))
      in NOT (ucast (fold16 (sum_pairs sum segment))))"

fun pair_sum :: "bytes \<Rightarrow> nat" where
  "pair_sum (a # b # r) = 256 * unat a + unat b + pair_sum r"
| "pair_sum [a] = 256 * unat a"
| "pair_sum [] = 0"

lemma unsigned_less_256: "unat (a::u8) < 256"
  using unsigned_less [of a] by simp

lemma unsigned_less_65536: "unat (a::u16) < 65536"
  using unsigned_less [of a] by simp

lemma unat_ucast_small: "unat (ucast (a::u8) :: u32) = unat a"
  using unsigned_less_256 [of a] by (simp add: unsigned_ucast_eq take_bit_nat_eq_self)

lemma pair_sum_bound: "pair_sum bs \<le> 65535 * ((length bs + 1) div 2)"
proof (induction bs rule: pair_sum.induct)
  case (1 a b r)
  have "unat a < 256" "unat b < 256" using unsigned_less [of a] unsigned_less [of b] by auto
  then show ?case using 1 by simp
next
  case (2 a)
  have "unat a < 256" using unsigned_less [of a] by auto
  then show ?case by simp
qed simp

lemma unat_push8: "unat (push_bit 8 (ucast (a::u8)) :: u32) = 256 * unat a"
proof -
  have "unat a < 256" using unsigned_less [of a] by auto
  then show ?thesis
    by (simp add: push_bit_eq_mult unat_word_ariths unsigned_ucast_eq take_bit_nat_eq_self)
qed

lemma unat_be16_of: "unat (be16_of a b) = 256 * unat a + unat b"
proof -
  have lt: "unat a < 256" "unat b < 256" using unsigned_less [of a] unsigned_less [of b] by auto
  have "be16_of a b = push_bit 8 (ucast a) + ucast b"
    unfolding be16_of_def
    by (rule disjunctive_add [symmetric]) (auto simp: bit_simps dest: bit_imp_le_length)
  then show ?thesis using lt
    by (simp add: unat_word_ariths unat_push8 unsigned_ucast_eq take_bit_nat_eq_self)
qed

lemma unat_sum_pairs:
  "unat s + pair_sum bs < 2 ^ 32 \<Longrightarrow> unat (sum_pairs s bs) = unat s + pair_sum bs"
proof (induction s bs rule: sum_pairs.induct)
  case (1 s a b r)
  then have "unat (s + be16_of a b) = unat s + (256 * unat a + unat b)"
    by (simp add: unat_word_ariths unat_be16_of)
  then show ?case using 1 by (simp add: add.assoc)
qed (simp_all add: unat_word_ariths unat_push8)

lemma unat_fold16:
  "unat (fold16 s) = (if s = 0 then 0 else (unat s - 1) mod 65535 + 1)"
proof (induction s rule: fold16.induct)
  case (1 s)
  show ?case
  proof (cases "drop_bit 16 s = 0")
    case True
    then have "unat s div 65536 = 0" by (metis unat_fold_parts(2) unat_0)
    then have "unat s < 65536" by (simp add: div_eq_0_iff)
    moreover have "s \<noteq> 0 \<Longrightarrow> 0 < unat s" by (simp add: unat_gt_0)
    ultimately show ?thesis using True by (subst fold16.simps) auto
  next
    case False
    let ?t = "(s AND 0xFFFF) + drop_bit 16 s"
    have h: "0 < unat s div 65536" using False by (metis unat_fold_parts(2) unat_gt_0)
    have t: "unat ?t = unat s mod 65536 + unat s div 65536" by (rule unat_fold_step)
    have "unat s = unat s div 65536 * 65536 + unat s mod 65536" by (rule div_mult_mod_eq [symmetric])
    then have "unat s - 1 = (unat ?t - 1) + unat s div 65536 * 65535" using h t by linarith
    then have eq: "(unat s - 1) mod 65535 = (unat ?t - 1) mod 65535" by simp
    have "?t \<noteq> 0" "s \<noteq> 0" using h t by auto
    then show ?thesis using False 1 eq by (subst fold16.simps) simp
  qed
qed

lemma unat_checksum_word:
  "unat (NOT (ucast (fold16 s)) :: u16) = 65535 - unat (fold16 s)"
proof -
  have lt: "unat (fold16 s) < 65536" unfolding unat_fold16
    using mod_less_divisor [of 65535 "unat s - 1"] by simp
  have "unat (NOT w :: u16) = 65535 - unat w" for w :: u16
  proof -
    have "NOT w = 0xFFFF - w" by (simp add: not_eq_complement)
    moreover have "w \<le> 0xFFFF" using unsigned_less_65536 [of w] by (simp add: word_le_nat_alt)
    ultimately show ?thesis by (simp add: unat_sub)
  qed
  then show ?thesis using lt by (simp add: unsigned_ucast_eq take_bit_nat_eq_self)
qed

lemma unat_be_pair:
  fixes c :: u16
  shows "256 * unat (ucast (drop_bit 8 c) :: u8) + unat (ucast c :: u8) = unat c"
proof -
  have c: "unat c < 65536" using unsigned_less [of c] by simp
  have "unat (ucast (drop_bit 8 c) :: u8) = unat c div 256"
    using c by (simp add: unsigned_ucast_eq unsigned_drop_bit_eq drop_bit_eq_div take_bit_eq_mod
        less_mult_imp_div_less unat_div)
  moreover have "unat (ucast c :: u8) = unat c mod 256"
    by (simp add: unsigned_ucast_eq take_bit_eq_mod)
  ultimately show ?thesis by (simp add: mult.commute)
qed

lemma pair_sum_blit:
  assumes "even p" "p + 2 \<le> length bs" "bs ! p = 0" "bs ! Suc p = 0"
  shows "pair_sum (blit p (be_bytes 2 (c::u16)) bs) = pair_sum bs + unat c"
  using assms
proof (induction bs arbitrary: p rule: pair_sum.induct)
  case (1 a b r)
  show ?case
  proof (cases "p = 0")
    case True
    have "256 * unat (ucast (drop_bit 8 c) :: u8) + unat (ucast c :: u8) = unat c"
      by (rule unat_be_pair)
    then show ?thesis using 1 True by (simp add: blit_def be_bytes_def le_bytes_def upt_rec numeral_2_eq_2)
  next
    case False
    then obtain q where q: "p = Suc (Suc q)" using 1 by (metis even_Suc not0_implies_Suc even_zero)
    then show ?thesis using 1 by (simp add: blit_def)
  qed
qed auto


lemma mod_complement:
  assumes "0 < (N::nat)"
  shows "(x + (N - Suc (x mod N))) mod N = N - 1"
proof -
  have "x + (N - Suc (x mod N)) = (N - 1) + x div N * N"
    using div_mult_mod_eq [of x N] mod_less_divisor [OF assms, of x] by linarith
  then have "(x + (N - Suc (x mod N))) mod N = (N - 1) mod N" by (metis mod_mult_self1)
  then show ?thesis using assms by simp
qed

text \<open>
  The folding loop computes the one's complement sum, so adding the complement of
  a sum to it folds to the negative zero \<^verbatim>\<open>0xFFFF\<close>, whose complement is 0.
\<close>

lemma fold_complement:
  assumes t: "unat t = unat s + unat (NOT (ucast (fold16 s)) :: u16)"
  shows "(NOT (ucast (fold16 t)) :: u16) = 0"
proof -
  have "unat (fold16 t) = 65535"
  proof (cases "s = 0")
    case True
    then have "unat t = 65535" using t by (simp add: unat_checksum_word unat_fold16)
    then show ?thesis by (subst unat_fold16) auto
  next
    case False
    have pos: "0 < unat s" using False by (simp add: unat_gt_0)
    have "unat (fold16 s) = (unat s - 1) mod 65535 + 1" using False by (simp add: unat_fold16)
    then have "unat t - 1 = (unat s - 1) + (65535 - Suc ((unat s - 1) mod 65535))"
      using t pos unfolding unat_checksum_word by simp
    then have "(unat t - 1) mod 65535 = 65534"
      using mod_complement [of 65535 "unat s - 1"] by simp
    moreover have "t \<noteq> 0" using t pos by auto
    ultimately show ?thesis by (simp add: unat_fold16)
  qed
  then have "unat (NOT (ucast (fold16 t)) :: u16) = 0" by (simp add: unat_checksum_word)
  then show ?thesis by (simp only: unsigned_eq_0_iff)
qed

lemma transport_sum_blit:
  assumes zero: "even p" "p + 2 \<le> length seg" "seg ! p = 0" "seg ! Suc p = 0"
    and len: "length seg \<le> 65535"
  obtains s t where "transport_checksum src dst pr seg = NOT (ucast (fold16 s))"
    "transport_checksum src dst pr (blit p (be_bytes 2 (c :: u16)) seg) = NOT (ucast (fold16 t))"
    "unat t = unat s + unat c"
proof -
  let ?s0 = "sum_pairs 0 (ip_bytes src @ ip_bytes dst) + (ucast pr + of_nat (length seg))"
  have "pair_sum (ip_bytes src @ ip_bytes dst) \<le> 65535 * 4"
    using pair_sum_bound [of "ip_bytes src @ ip_bytes dst"] by simp
  then have "unat (sum_pairs 0 (ip_bytes src @ ip_bytes dst)) \<le> 262140"
    by (subst unat_sum_pairs) auto
  moreover have "unat (ucast pr :: u32) < 256"
    by (metis unat_ucast_small unsigned_less_256)
  moreover have "unat (of_nat (length seg) :: u32) \<le> 65535"
    using len by (simp add: unat_of_nat_small)
  ultimately have s0: "unat ?s0 \<le> 400000"
    by (simp add: unat_word_ariths)
  have ps: "pair_sum seg \<le> 65535 * 32768"
    using pair_sum_bound [of seg] len by (auto intro: order_trans)
  have c: "unat c < 65536" by (rule unsigned_less_65536)
  let ?seg = "blit p (be_bytes 2 c) seg"
  have l: "length ?seg = length seg" using zero by simp
  have s: "unat (sum_pairs ?s0 seg) = unat ?s0 + pair_sum seg"
    using s0 ps by (intro unat_sum_pairs) simp
  have "unat (sum_pairs ?s0 ?seg) = unat ?s0 + pair_sum ?seg"
    using s0 ps c zero by (intro unat_sum_pairs) (simp add: pair_sum_blit)
  then have "unat (sum_pairs ?s0 ?seg) = unat (sum_pairs ?s0 seg) + unat c"
    using s zero by (simp add: pair_sum_blit)
  then show thesis
    by (intro that [of "sum_pairs ?s0 seg" "sum_pairs ?s0 ?seg"]) (simp_all only: transport_checksum_def Let_def l)
qed

lemma transport_checksum_stored:
  assumes "even p" "p + 2 \<le> length seg" "seg ! p = 0" "seg ! Suc p = 0" "length seg \<le> 65535"
  shows "transport_checksum src dst pr (blit p (be_bytes 2 (transport_checksum src dst pr seg)) seg) = 0"
proof -
  obtain s t where "transport_checksum src dst pr seg = NOT (ucast (fold16 s))"
    "transport_checksum src dst pr (blit p (be_bytes 2 (transport_checksum src dst pr seg)) seg) = NOT (ucast (fold16 t))"
    "unat t = unat s + unat (transport_checksum src dst pr seg)"
    using assms by (rule transport_sum_blit)
  then show ?thesis using fold_complement [of t s] by simp
qed

text \<open>The negative zero \<^verbatim>\<open>0xFFFF\<close> stored in place of a zero checksum verifies as well.\<close>

lemma transport_checksum_ones:
  assumes "even p" "p + 2 \<le> length seg" "seg ! p = 0" "seg ! Suc p = 0" "length seg \<le> 65535"
    and sum: "transport_checksum src dst pr seg = 0"
  shows "transport_checksum src dst pr (blit p (be_bytes 2 (0xFFFF :: u16)) seg) = 0"
proof -
  obtain s t where st: "transport_checksum src dst pr seg = NOT (ucast (fold16 s))"
    "transport_checksum src dst pr (blit p (be_bytes 2 (0xFFFF :: u16)) seg) = NOT (ucast (fold16 t))"
    "unat t = unat s + unat (0xFFFF :: u16)"
    using assms(1-5) by (rule transport_sum_blit)
  have "unat (NOT (ucast (fold16 s)) :: u16) = 0" using sum st(1) by (metis unat_0)
  then have s: "unat (fold16 s) \<ge> 65535" unfolding unat_checksum_word by simp
  then have nz: "s \<noteq> 0" by (auto simp: unat_fold16)
  then have pos: "0 < unat s" by (simp add: unat_gt_0)
  have "unat t - 1 = (unat s - 1) + 65535" using st(3) pos by simp
  then have "(unat t - 1) mod 65535 = (unat s - 1) mod 65535" by simp
  moreover have "t \<noteq> 0" using st(3) pos by auto
  ultimately have "unat (fold16 t) = unat (fold16 s)" using nz by (simp add: unat_fold16)
  then have "unat (NOT (ucast (fold16 t)) :: u16) = 0" using s by (simp add: unat_checksum_word)
  then show ?thesis using st(2) by (simp only: unsigned_eq_0_iff)
qed

text \<open>The same for the header and ICMP checksum, stored at an even offset.\<close>

lemma calculate_checksum_stored:
  assumes zero: "even p" "p + 2 \<le> length bs" "bs ! p = 0" "bs ! Suc p = 0"
    and len: "length bs \<le> 65535" and c: "calculate_checksum bs = Some c"
  shows "calculate_checksum (blit p (be_bytes 2 c) bs) = Some 0"
proof -
  have ps: "pair_sum bs \<le> 65535 * 32768"
    using pair_sum_bound [of bs] len by (auto intro: order_trans)
  have c': "c = NOT (ucast (fold16 (sum_pairs 0 bs)))" "bs \<noteq> []"
    using c by (auto simp: calculate_checksum_def split: if_splits)
  have cl: "unat c < 65536" using unsigned_less_65536 [of c] by simp
  have s: "unat (sum_pairs 0 bs) = pair_sum bs" using ps by (subst unat_sum_pairs) auto
  have "unat (sum_pairs 0 (blit p (be_bytes 2 c) bs)) = unat (sum_pairs 0 bs) + unat c"
    unfolding s using ps cl zero by (subst unat_sum_pairs) (auto simp: pair_sum_blit)
  then have "(NOT (ucast (fold16 (sum_pairs 0 (blit p (be_bytes 2 c) bs)))) :: u16) = 0"
    using c' by (intro fold_complement) simp
  moreover have "length (blit p (be_bytes 2 c) bs) = length bs" using zero by simp
  then have "blit p (be_bytes 2 c) bs \<noteq> []" using c'(2) by (metis length_0_conv)
  ultimately show ?thesis by (simp add: calculate_checksum_def)
qed

section \<open>Addresses\<close>

datatype mac6 = Mac u8 u8 u8 u8 u8 u8

fun mac_bytes :: "mac6 \<Rightarrow> bytes" where
  "mac_bytes (Mac a b c d e f) = [a, b, c, d, e, f]"

lemma length_mac_bytes [simp, codec]: "length (mac_bytes m) = 6"
  by (cases m) simp

text \<open>Reading an address out of a packet at an offset.\<close>

definition ip_at :: "nat \<Rightarrow> bytes \<Rightarrow> ip4" where
  "ip_at p bs = Ip (bs ! p) (bs ! (p + 1)) (bs ! (p + 2)) (bs ! (p + 3))"

definition mac_at :: "nat \<Rightarrow> bytes \<Rightarrow> mac6" where
  "mac_at p bs = Mac (bs ! p) (bs ! (p + 1)) (bs ! (p + 2)) (bs ! (p + 3)) (bs ! (p + 4)) (bs ! (p + 5))"

definition u16_at :: "nat \<Rightarrow> bytes \<Rightarrow> u16" where
  "u16_at p bs = from_be [bs ! p, bs ! (p + 1)]"

definition u32_at :: "nat \<Rightarrow> bytes \<Rightarrow> u32" where
  "u32_at p bs = from_be [bs ! p, bs ! (p + 1), bs ! (p + 2), bs ! (p + 3)]"

record Endpoint =
  ep_ip :: ip4
  ep_port :: u16

section \<open>The e1000 network card\<close>

abbreviation (input) RING_SIZE :: nat where "RING_SIZE \<equiv> 16"
abbreviation (input) PACKET_BUF_SIZE :: nat where "PACKET_BUF_SIZE \<equiv> 2048"

record RxDesc =
  rx_length :: u16
  rx_status :: u8

record TxDesc =
  tx_buf :: nat
  tx_length :: u16
  tx_cmd :: u8
  tx_status :: u8

record E1000 =
  mmio_null :: bool
  rx_next :: nat
  tx_next :: nat
  rx_ring :: "RxDesc list"
  tx_ring :: "TxDesc list"
  rx_bufs :: "bytes list"
  tx_bufs :: "bytes list"
  reg_tdt :: u32
  reg_rdt :: u32
  reg_ral :: u32
  reg_rah :: u32

definition e1000_transmit :: "bytes \<Rightarrow> E1000 \<Rightarrow> bool \<times> E1000" where
  "e1000_transmit data d =
     (if mmio_null d then (False, d)
      else if PACKET_BUF_SIZE < length data then (False, d)
      else let idx = tx_next d; desc = tx_ring d ! idx in
        if tx_status desc AND 1 = 0 \<and> tx_cmd desc \<noteq> 0 then (False, d)
        else let next = (idx + 1) mod RING_SIZE in
          (True, d\<lparr>tx_bufs := (tx_bufs d)[idx := blit 0 data (tx_bufs d ! idx)],
                   tx_ring := (tx_ring d)[idx := \<lparr>tx_buf = idx, tx_length = of_nat (length data),
                                                  tx_cmd = 0x0B, tx_status = 0\<rparr>],
                   tx_next := next, reg_tdt := of_nat next\<rparr>))"

text \<open>\<open>e1000_poll_rx n\<close> returns the bytes copied to the front of a buffer of \<open>n\<close> bytes.\<close>

definition e1000_poll_rx :: "nat \<Rightarrow> E1000 \<Rightarrow> bytes \<times> E1000" where
  "e1000_poll_rx out_len d =
     (if mmio_null d then ([], d)
      else let idx = rx_next d; desc = rx_ring d ! idx in
        if rx_status desc AND 1 = 0 then ([], d)
        else let copy_len = min (min (unat (rx_length desc)) out_len) PACKET_BUF_SIZE in
          (take copy_len (rx_bufs d ! idx),
           d\<lparr>rx_ring := (rx_ring d)[idx := desc\<lparr>rx_status := 0\<rparr>],
             reg_rdt := of_nat idx, rx_next := (idx + 1) mod RING_SIZE\<rparr>))"

definition read_mac :: "E1000 \<Rightarrow> mac6" where
  "read_mac d =
     Mac (ucast (reg_ral d AND 0xFF)) (ucast (drop_bit 8 (reg_ral d) AND 0xFF))
         (ucast (drop_bit 16 (reg_ral d) AND 0xFF)) (ucast (drop_bit 24 (reg_ral d) AND 0xFF))
         (ucast (reg_rah d AND 0xFF)) (ucast (drop_bit 8 (reg_rah d) AND 0xFF))"

definition mac_address :: "E1000 \<Rightarrow> mac6" where
  "mac_address d = (if mmio_null d then Mac 0 0 0 0 0 0 else read_mac d)"

section \<open>State of the network stack below the sockets\<close>

record ArpEntry =
  arp_ip :: ip4
  arp_mac :: mac6
  arp_valid :: bool

record IcmpEchoReply =
  reply_ip :: ip4
  reply_id :: u16
  reply_seq :: u16
  reply_len :: u16
  reply_payload :: bytes

record net =
  active_nic :: "E1000 option"
  host_ip :: ip4
  arp_cache :: "ArpEntry list"
  icmp_rx_ring :: "IcmpEchoReply list"
  icmp_rx_head :: nat
  icmp_rx_tail :: nat
  ping_seq :: u16
  rx_work_pending :: bool
  rx_irq_reported :: bool
  dns_result :: "ip4 option"
  woken :: "u64 list"

definition get_ip_address :: "'a net_scheme \<Rightarrow> ip4 option" where
  "get_ip_address n = (if host_ip n = Ip 0 0 0 0 then None else Some (host_ip n))"

definition set_ip_address :: "ip4 \<Rightarrow> 'a net_scheme \<Rightarrow> 'a net_scheme" where
  "set_ip_address a n = n\<lparr>host_ip := a\<rparr>"

definition get_mac_address :: "'a net_scheme \<Rightarrow> mac6 option" where
  "get_mac_address n = map_option mac_address (active_nic n)"

definition net_is_ready :: "'a net_scheme \<Rightarrow> bool" where
  "net_is_ready n \<longleftrightarrow> active_nic n \<noteq> None"

definition net_transmit :: "bytes \<Rightarrow> 'a net_scheme \<Rightarrow> bool \<times> 'a net_scheme" where
  "net_transmit data n =
     (case active_nic n of
        None \<Rightarrow> (False, n)
      | Some nic \<Rightarrow> let (ok, nic') = e1000_transmit data nic in (ok, n\<lparr>active_nic := Some nic'\<rparr>))"

definition net_poll_rx :: "nat \<Rightarrow> 'a net_scheme \<Rightarrow> bytes \<times> 'a net_scheme" where
  "net_poll_rx out_len n =
     (case active_nic n of
        None \<Rightarrow> ([], n)
      | Some nic \<Rightarrow> let (bs, nic') = e1000_poll_rx out_len nic in (bs, n\<lparr>active_nic := Some nic'\<rparr>))"

text \<open>\<^verbatim>\<open>process::wake_waiters\<close> on a wait key: the keys are recorded in order.\<close>

definition net_wake :: "u64 \<Rightarrow> 'a net_scheme \<Rightarrow> 'a net_scheme" where
  "net_wake key n = n\<lparr>woken := woken n @ [key]\<rparr>"

section \<open>ARP cache\<close>

text \<open>
  \<open>update_first p f xs\<close> is \<^verbatim>\<open>xs.iter_mut().find(p)\<close> followed by an assignment to the
  entry found; \<open>None\<close> when there is no such entry.
\<close>

fun update_first :: "('a \<Rightarrow> bool) \<Rightarrow> ('a \<Rightarrow> 'a) \<Rightarrow> 'a list \<Rightarrow> 'a list option" where
  "update_first p f [] = None"
| "update_first p f (x # xs) =
     (if p x then Some (f x # xs) else map_option ((#) x) (update_first p f xs))"

definition cache_insert :: "ip4 \<Rightarrow> mac6 \<Rightarrow> ArpEntry list \<Rightarrow> ArpEntry list" where
  "cache_insert a m cache =
     (case update_first (\<lambda>e. arp_valid e \<and> arp_ip e = a) (\<lambda>e. e\<lparr>arp_mac := m\<rparr>) cache of
        Some cache' \<Rightarrow> cache'
      | None \<Rightarrow>
         (case update_first (\<lambda>e. \<not> arp_valid e) (\<lambda>e. \<lparr>arp_ip = a, arp_mac = m, arp_valid = True\<rparr>) cache of
            Some cache' \<Rightarrow> cache'
          | None \<Rightarrow> cache))"

definition arp_cache_insert :: "ip4 \<Rightarrow> mac6 \<Rightarrow> 'a net_scheme \<Rightarrow> 'a net_scheme" where
  "arp_cache_insert a m n = n\<lparr>arp_cache := cache_insert a m (arp_cache n)\<rparr>"

definition arp_cache_lookup :: "ip4 \<Rightarrow> 'a net_scheme \<Rightarrow> mac6 option" where
  "arp_cache_lookup a n = map_option arp_mac (find (\<lambda>e. arp_valid e \<and> arp_ip e = a) (arp_cache n))"

definition arp_wait_key :: "ip4 \<Rightarrow> u64" where
  "arp_wait_key a = (- 1 - 0x100000000) + ucast (from_be (ip_bytes a) :: u32)"

definition wake_arp_waiters :: "ip4 \<Rightarrow> 'a net_scheme \<Rightarrow> 'a net_scheme" where
  "wake_arp_waiters a = net_wake (arp_wait_key a)"

definition arp_frame :: "mac6 \<Rightarrow> mac6 \<Rightarrow> u16 \<Rightarrow> mac6 \<Rightarrow> ip4 \<Rightarrow> mac6 \<Rightarrow> ip4 \<Rightarrow> bytes" where
  "arp_frame dest_mac src_mac opcode sender_mac sender_ip target_mac target_ip =
     mac_bytes dest_mac @ mac_bytes src_mac @ be_bytes 2 (0x0806 :: u16)
     @ be_bytes 2 (1 :: u16) @ be_bytes 2 (0x0800 :: u16) @ [6, 4] @ be_bytes 2 opcode
     @ mac_bytes sender_mac @ ip_bytes sender_ip @ mac_bytes target_mac @ ip_bytes target_ip"

definition send_arp_request :: "ip4 \<Rightarrow> ip4 \<Rightarrow> mac6 \<Rightarrow> 'a net_scheme \<Rightarrow> 'a net_scheme" where
  "send_arp_request target_ip my_ip my_mac n =
     snd (net_transmit (arp_frame (Mac 0xFF 0xFF 0xFF 0xFF 0xFF 0xFF) my_mac 1
                          my_mac my_ip (Mac 0 0 0 0 0 0) target_ip) n)"

text \<open>
  \<open>env\<close> is what the other threads and the receive path do to the state while the
  caller waits for the reply or the timeout.
\<close>

definition arp_resolve :: "('a net_scheme \<Rightarrow> 'a net_scheme) \<Rightarrow> ip4 \<Rightarrow> 'a net_scheme \<Rightarrow> mac6 option \<times> 'a net_scheme" where
  "arp_resolve env target_ip n =
     (case arp_cache_lookup target_ip n of
        Some m \<Rightarrow> (Some m, n)
      | None \<Rightarrow>
         (case (get_ip_address n, get_mac_address n) of
            (Some my_ip, Some my_mac) \<Rightarrow>
              let n = send_arp_request target_ip my_ip my_mac n in
              (case arp_cache_lookup target_ip n of
                 Some m \<Rightarrow> (Some m, n)
               | None \<Rightarrow> let n = env n in (arp_cache_lookup target_ip n, n))
          | _ \<Rightarrow> (None, n)))"

section \<open>IPv4\<close>

fun same_subnet :: "ip4 \<Rightarrow> ip4 \<Rightarrow> bool" where
  "same_subnet (Ip a b c d) (Ip a' b' c' d') \<longleftrightarrow>
     a AND 255 = a' AND 255 \<and> b AND 255 = b' AND 255 \<and> c AND 255 = c' AND 255 \<and> d AND 0 = d' AND 0"

definition next_hop :: "ip4 \<Rightarrow> 'a net_scheme \<Rightarrow> ip4 option" where
  "next_hop dst_ip n =
     map_option (\<lambda>my_ip. if same_subnet my_ip dst_ip then dst_ip else Ip 10 0 2 2) (get_ip_address n)"

text \<open>The header with a zero checksum field and with the checksum stored.\<close>

definition ipv4_header0 :: "ip4 \<Rightarrow> ip4 \<Rightarrow> u8 \<Rightarrow> nat \<Rightarrow> bytes" where
  "ipv4_header0 my_ip dst_ip protocol total_len =
     [0x45, 0] @ be_bytes 2 (of_nat total_len :: u16) @ [0, 0, 0x40, 0, 64, protocol, 0, 0]
     @ ip_bytes my_ip @ ip_bytes dst_ip"

definition ipv4_header :: "ip4 \<Rightarrow> ip4 \<Rightarrow> u8 \<Rightarrow> nat \<Rightarrow> bytes" where
  "ipv4_header my_ip dst_ip protocol total_len =
     (let header = ipv4_header0 my_ip dst_ip protocol total_len
      in blit 10 (be_bytes 2 (the (calculate_checksum header))) header)"

definition ipv4_frame :: "mac6 \<Rightarrow> mac6 \<Rightarrow> ip4 \<Rightarrow> ip4 \<Rightarrow> u8 \<Rightarrow> bytes \<Rightarrow> bytes" where
  "ipv4_frame dst_mac my_mac my_ip dst_ip protocol data =
     mac_bytes dst_mac @ mac_bytes my_mac @ be_bytes 2 (0x0800 :: u16)
     @ ipv4_header my_ip dst_ip protocol (20 + length data) @ data"

definition transmit_to :: "mac6 \<Rightarrow> ip4 \<Rightarrow> u8 \<Rightarrow> bytes \<Rightarrow> 'a net_scheme \<Rightarrow> bool \<times> 'a net_scheme" where
  "transmit_to dst_mac dst_ip protocol data n =
     (if 1500 - 20 < length data then (False, n)
      else case (get_ip_address n, get_mac_address n) of
        (Some my_ip, Some my_mac) \<Rightarrow>
          net_transmit (ipv4_frame dst_mac my_mac my_ip dst_ip protocol data) n
      | _ \<Rightarrow> (False, n))"

definition transmit_ipv4 ::
  "('a net_scheme \<Rightarrow> 'a net_scheme) \<Rightarrow> ip4 \<Rightarrow> u8 \<Rightarrow> bytes \<Rightarrow> 'a net_scheme \<Rightarrow> bool \<times> 'a net_scheme" where
  "transmit_ipv4 env dst_ip protocol data n =
     (case next_hop dst_ip n of
        None \<Rightarrow> (False, n)
      | Some hop \<Rightarrow>
         (case arp_resolve env hop n of
            (Some dst_mac, n) \<Rightarrow> transmit_to dst_mac dst_ip protocol data n
          | (None, n) \<Rightarrow> (False, n)))"

definition transmit_ipv4_cached :: "ip4 \<Rightarrow> u8 \<Rightarrow> bytes \<Rightarrow> 'a net_scheme \<Rightarrow> bool \<times> 'a net_scheme" where
  "transmit_ipv4_cached dst_ip protocol data n =
     (case next_hop dst_ip n of
        None \<Rightarrow> (False, n)
      | Some hop \<Rightarrow>
         (case arp_cache_lookup hop n of
            Some dst_mac \<Rightarrow> transmit_to dst_mac dst_ip protocol data n
          | None \<Rightarrow>
             (case (get_ip_address n, get_mac_address n) of
                (Some a, Some m) \<Rightarrow> (False, send_arp_request hop a m n)
              | _ \<Rightarrow> (False, n))))"

section \<open>ICMP\<close>

abbreviation (input) ICMP_RX_CAPACITY :: nat where "ICMP_RX_CAPACITY \<equiv> 16"

definition push_icmp_reply :: "IcmpEchoReply \<Rightarrow> 'a net_scheme \<Rightarrow> 'a net_scheme" where
  "push_icmp_reply reply n =
     (let next = (icmp_rx_head n + 1) mod ICMP_RX_CAPACITY in
      if next = icmp_rx_tail n then n
      else n\<lparr>icmp_rx_ring := (icmp_rx_ring n)[icmp_rx_head n := reply], icmp_rx_head := next\<rparr>)"

definition pop_icmp_reply :: "'a net_scheme \<Rightarrow> IcmpEchoReply option \<times> 'a net_scheme" where
  "pop_icmp_reply n =
     (if icmp_rx_tail n = icmp_rx_head n then (None, n)
      else (Some (icmp_rx_ring n ! icmp_rx_tail n),
            n\<lparr>icmp_rx_tail := (icmp_rx_tail n + 1) mod ICMP_RX_CAPACITY\<rparr>))"

text \<open>The packed layout of a reply, little-endian as the target stores it.\<close>

definition reply_bytes :: "IcmpEchoReply \<Rightarrow> bytes" where
  "reply_bytes r = ip_bytes (reply_ip r) @ le_bytes 2 (reply_id r) @ le_bytes 2 (reply_seq r)
     @ le_bytes 2 (reply_len r) @ reply_payload r"

definition pop_icmp_reply_raw :: "nat \<Rightarrow> 'a net_scheme \<Rightarrow> bytes \<times> 'a net_scheme" where
  "pop_icmp_reply_raw buf_len n =
     (case pop_icmp_reply n of
        (None, n) \<Rightarrow> ([], n)
      | (Some reply, n) \<Rightarrow> (take (min 74 buf_len) (reply_bytes reply), n))"

text \<open>\<open>ts\<close> is the low half of the time stamp counter.\<close>

definition icmp_echo_request :: "u16 \<Rightarrow> u32 \<Rightarrow> bytes" where
  "icmp_echo_request seq ts =
     (let icmp_buf = [8, 0, 0, 0] @ be_bytes 2 (0xBEEF :: u16) @ be_bytes 2 seq
            @ be_bytes 4 ts @ map of_nat [4..<48]
      in blit 2 (be_bytes 2 (the (calculate_checksum icmp_buf))) icmp_buf)"

definition send_icmp_echo_request ::
  "('a net_scheme \<Rightarrow> 'a net_scheme) \<Rightarrow> u32 \<Rightarrow> ip4 \<Rightarrow> 'a net_scheme \<Rightarrow> u16 \<times> 'a net_scheme" where
  "send_icmp_echo_request env ts target_ip n =
     (let seq = ping_seq n; n = n\<lparr>ping_seq := seq + 1\<rparr>
      in case transmit_ipv4 env target_ip 1 (icmp_echo_request seq ts) n of
           (False, n) \<Rightarrow> (0, n)
         | (True, n) \<Rightarrow> (seq, n))"

section \<open>Ephemeral ports\<close>

abbreviation (input) EPHEMERAL_FIRST :: u16 where "EPHEMERAL_FIRST \<equiv> 50000"

text \<open>
  The search loop that UDP and TCP share: \<open>k\<close> iterations are left, \<open>next\<close> is the
  shared cursor. The result is the port and the new cursor.
\<close>

fun pick_ephemeral :: "nat \<Rightarrow> (u16 \<Rightarrow> bool) \<Rightarrow> u16 \<Rightarrow> u16 option \<times> u16" where
  "pick_ephemeral 0 in_use next = (None, next)"
| "pick_ephemeral (Suc k) in_use next =
     (let next' = if next = 0xFFFF then EPHEMERAL_FIRST else next + 1
      in if in_use next then pick_ephemeral k in_use next' else (Some next, next'))"

definition ephemeral_span :: nat where
  "ephemeral_span = 65535 - 50000 + 1"

end
