(* ===== verification/Tcp.thy ===== *)
theory Tcp
  imports Net_Base
begin

text \<open>
  The TCP control block of \<^verbatim>\<open>drivers/net/tcp.rs\<close>: segments, the send and receive
  sides, the timer and the critical sections of the socket calls. A call of
  \<^verbatim>\<open>transmit\<close> is recorded in the \<open>outbox\<close> of the block, oldest first; its result is
  ignored by the code and it does not touch the block. Ticks and buffer lengths are
  natural numbers, sequence numbers are 32-bit words.
\<close>

unbundle bit_operations_syntax

abbreviation (input) TCP_PROTOCOL :: u8 where "TCP_PROTOCOL \<equiv> 6"
abbreviation (input) FIN :: u8 where "FIN \<equiv> 0x01"
abbreviation (input) SYN :: u8 where "SYN \<equiv> 0x02"
abbreviation (input) RST :: u8 where "RST \<equiv> 0x04"
abbreviation (input) PSH :: u8 where "PSH \<equiv> 0x08"
abbreviation (input) ACK :: u8 where "ACK \<equiv> 0x10"
abbreviation (input) HEADER_LEN :: nat where "HEADER_LEN \<equiv> 20"
abbreviation (input) MSS :: nat where "MSS \<equiv> 1460"
abbreviation (input) DEFAULT_PEER_MSS :: nat where "DEFAULT_PEER_MSS \<equiv> 536"
abbreviation (input) RECV_CAP :: nat where "RECV_CAP \<equiv> 16384"
abbreviation (input) SEND_CAP :: nat where "SEND_CAP \<equiv> 8192"
abbreviation (input) INITIAL_RTO :: nat where "INITIAL_RTO \<equiv> 100"
abbreviation (input) MAX_RTO :: nat where "MAX_RTO \<equiv> 1600"
abbreviation (input) MAX_RETRIES :: nat where "MAX_RETRIES \<equiv> 6"
abbreviation (input) FIN_WAIT2_TIMEOUT :: nat where "FIN_WAIT2_TIMEOUT \<equiv> 3000"

definition has :: "u8 \<Rightarrow> u8 \<Rightarrow> bool" where
  "has flags bits \<longleftrightarrow> flags AND bits \<noteq> 0"

datatype TcpState =
    Idle | SynSent | Established | FinWait1 | FinWait2 | CloseWait | Closing | LastAck | Closed

text \<open>One call of \<^verbatim>\<open>transmit\<close>, with its arguments.\<close>

record Xmit =
  x_port :: u16
  x_remote :: Endpoint
  x_seq :: u32
  x_ack :: u32
  x_flags :: u8
  x_window :: nat
  x_payload :: bytes

record Tcb =
  state :: TcpState
  local_port :: u16
  remote :: Endpoint
  iss :: u32
  snd_una :: u32
  snd_nxt :: u32
  snd_max :: u32
  snd_wnd :: nat
  mss :: nat
  send_buf :: bytes
  fin_queued :: bool
  fin_seq :: "u32 option"
  fin_acked :: bool
  rcv_nxt :: u32
  recv_buf :: bytes
  peer_fin :: bool
  user_closed :: bool
  advertised :: nat
  error :: "FsError option"
  rto :: nat
  retries :: nat
  deadline :: "nat option"
  outbox :: "Xmit list"

definition seq_lt :: "u32 \<Rightarrow> u32 \<Rightarrow> bool" where
  "seq_lt a b \<longleftrightarrow> sint (a - b) < 0"

definition seq_le :: "u32 \<Rightarrow> u32 \<Rightarrow> bool" where
  "seq_le a b \<longleftrightarrow> sint (a - b) \<le> 0"

record Segment =
  seg_src :: u16
  seg_dst :: u16
  seg_seq :: u32
  seg_ack :: u32
  seg_flags :: u8
  seg_window :: nat
  seg_mss :: "nat option"
  seg_payload :: bytes

function parse_options :: "nat option \<Rightarrow> bytes \<Rightarrow> nat option option" where
  "parse_options m [] = Some m"
| "parse_options m (kind # rest) =
     (if kind = 0 then Some m
      else if kind = 1 then parse_options m rest
      else case rest of
        [] \<Rightarrow> None
      | l # _ \<Rightarrow>
          let len = unat l in
          if len < 2 \<or> Suc (length rest) < len then Some m
          else parse_options
                 (if kind = 2 \<and> len = 4 then Some (unat (u16_at 2 (kind # rest))) else m)
                 (drop len (kind # rest)))"
  by pat_completeness auto
termination
  by (relation "measure (\<lambda>(_, bs). length bs)") auto

definition tcp_parse :: "bytes \<Rightarrow> Segment option" where
  "tcp_parse segment =
     (if length segment < HEADER_LEN then None
      else let data_offset = unat (drop_bit 4 (segment ! 12)) * 4 in
        if data_offset < HEADER_LEN \<or> length segment < data_offset then None
        else case parse_options None (slice_of HEADER_LEN data_offset segment) of
          None \<Rightarrow> None
        | Some m \<Rightarrow>
            Some \<lparr>seg_src = u16_at 0 segment, seg_dst = u16_at 2 segment,
                  seg_seq = u32_at 4 segment, seg_ack = u32_at 8 segment,
                  seg_flags = segment ! 13, seg_window = unat (u16_at 14 segment),
                  seg_mss = m, seg_payload = drop data_offset segment\<rparr>)"

definition tcp_header0 :: "Xmit \<Rightarrow> bytes" where
  "tcp_header0 x =
     (let header_len = if has (x_flags x) SYN then HEADER_LEN + 4 else HEADER_LEN
      in be_bytes 2 (x_port x) @ be_bytes 2 (ep_port (x_remote x)) @ be_bytes 4 (x_seq x)
         @ be_bytes 4 (x_ack x) @ [push_bit 4 (of_nat (header_len div 4)), x_flags x]
         @ be_bytes 2 (of_nat (min (x_window x) 65535) :: u16) @ [0, 0, 0, 0]
         @ (if has (x_flags x) SYN then [2, 4, of_nat (MSS div 256), of_nat MSS] else []))"

definition tcp_bytes :: "ip4 \<Rightarrow> Xmit \<Rightarrow> bytes" where
  "tcp_bytes local_ip x =
     (let segment = tcp_header0 x @ x_payload x;
          checksum = transport_checksum local_ip (ep_ip (x_remote x)) TCP_PROTOCOL segment
      in blit 16 (be_bytes 2 checksum) segment)"

definition tcp_transmit :: "Xmit \<Rightarrow> 'a net_scheme \<Rightarrow> bool \<times> 'a net_scheme" where
  "tcp_transmit x n =
     (case get_ip_address n of
        None \<Rightarrow> (False, n)
      | Some local_ip \<Rightarrow>
          transmit_ipv4_cached (ep_ip (x_remote x)) TCP_PROTOCOL (tcp_bytes local_ip x) n)"

section \<open>The control block\<close>

definition tcb_new :: Tcb where
  "tcb_new =
     \<lparr>state = Idle, local_port = 0, remote = \<lparr>ep_ip = Ip 0 0 0 0, ep_port = 0\<rparr>, iss = 0,
      snd_una = 0, snd_nxt = 0, snd_max = 0, snd_wnd = 0, mss = DEFAULT_PEER_MSS,
      send_buf = [], fin_queued = False, fin_seq = None, fin_acked = False, rcv_nxt = 0,
      recv_buf = [], peer_fin = False, user_closed = False, advertised = 0, error = None,
      rto = INITIAL_RTO, retries = 0, deadline = None, outbox = []\<rparr>"

definition emit :: "Xmit \<Rightarrow> Tcb \<Rightarrow> Tcb" where
  "emit x t = t\<lparr>outbox := outbox t @ [x]\<rparr>"

definition tcb_send :: "u8 \<Rightarrow> u32 \<Rightarrow> bytes \<Rightarrow> Tcb \<Rightarrow> Tcb" where
  "tcb_send flags seq data t =
     (let window = RECV_CAP - length (recv_buf t);
          t = t\<lparr>advertised := window\<rparr>;
          ack = if has flags ACK then rcv_nxt t else 0
      in emit \<lparr>x_port = local_port t, x_remote = remote t, x_seq = seq, x_ack = ack,
               x_flags = flags, x_window = window, x_payload = data\<rparr> t)"

definition send_ack :: "Tcb \<Rightarrow> Tcb" where
  "send_ack t = tcb_send ACK (snd_max t) [] t"

definition advance :: "u32 \<Rightarrow> Tcb \<Rightarrow> Tcb" where
  "advance len t =
     (let t = t\<lparr>snd_nxt := snd_nxt t + len\<rparr>
      in if seq_lt (snd_max t) (snd_nxt t) then t\<lparr>snd_max := snd_nxt t\<rparr> else t)"

definition arm :: "nat \<Rightarrow> Tcb \<Rightarrow> Tcb" where
  "arm now t = (if deadline t = None then t\<lparr>deadline := Some (now + rto t)\<rparr> else t)"

definition tcb_fail :: "FsError \<Rightarrow> Tcb \<Rightarrow> Tcb" where
  "tcb_fail e t = t\<lparr>error := Some e, state := Closed, deadline := None, send_buf := []\<rparr>"

definition data_before_cursor :: "Tcb \<Rightarrow> nat" where
  "data_before_cursor t = min (unat (snd_nxt t - snd_una t)) (length (send_buf t))"

text \<open>The number of bytes the next segment of the send loop carries.\<close>

definition output_size :: "bool \<Rightarrow> Tcb \<Rightarrow> nat" where
  "output_size probe t =
     (let in_flight = data_before_cursor t;
          unsent = length (send_buf t) - in_flight;
          window = if probe \<and> snd_wnd t = 0 \<and> in_flight = 0 then 1 else snd_wnd t
      in min (min unsent (window - in_flight)) (mss t))"

definition output_one :: "nat \<Rightarrow> bool \<Rightarrow> Tcb \<Rightarrow> Tcb" where
  "output_one now probe t =
     (let in_flight = data_before_cursor t; n = output_size probe t
      in arm now (advance (of_nat n)
           (tcb_send (ACK OR PSH) (snd_nxt t) (slice_of in_flight (in_flight + n) (send_buf t)) t)))"

fun output_loop :: "nat \<Rightarrow> nat \<Rightarrow> bool \<Rightarrow> Tcb \<Rightarrow> Tcb" where
  "output_loop 0 now probe t = t"
| "output_loop (Suc k) now probe t =
     (if output_size probe t = 0 then t else output_loop k now probe (output_one now probe t))"

definition output_fin :: "nat \<Rightarrow> Tcb \<Rightarrow> Tcb" where
  "output_fin now t =
     (if fin_queued t \<and> \<not> fin_acked t
         \<and> unat (snd_nxt t - snd_una t) = length (send_buf t)
         \<and> (case fin_seq t of None \<Rightarrow> True | Some fin \<Rightarrow> fin = snd_nxt t)
      then let t = t\<lparr>fin_seq := Some (snd_nxt t)\<rparr>;
               t = advance 1 (tcb_send (FIN OR ACK) (snd_nxt t) [] t);
               t = t\<lparr>state := (case state t of Established \<Rightarrow> FinWait1 | CloseWait \<Rightarrow> LastAck | s \<Rightarrow> s)\<rparr>
           in arm now t
      else t)"

definition tcb_output :: "nat \<Rightarrow> bool \<Rightarrow> Tcb \<Rightarrow> Tcb" where
  "tcb_output now probe t =
     (if state t = SynSent then
        (if snd_nxt t = iss t then arm now (advance 1 (tcb_send SYN (iss t) [] t)) else t)
      else if state t \<in> {Established, CloseWait, FinWait1, Closing, LastAck} then
        let t = output_loop (Suc (length (send_buf t))) now probe t;
            t = output_fin now t
        in if data_before_cursor t < length (send_buf t) then arm now t else t
      else t)"

definition on_syn_sent :: "Segment \<Rightarrow> nat \<Rightarrow> Tcb \<Rightarrow> Tcb" where
  "on_syn_sent seg now t =
     (if has (seg_flags seg) ACK \<and> seg_ack seg \<noteq> iss t + 1 then
        (if \<not> has (seg_flags seg) RST
         then emit \<lparr>x_port = local_port t, x_remote = remote t, x_seq = seg_ack seg, x_ack = 0,
                    x_flags = RST, x_window = 0, x_payload = []\<rparr> t
         else t)
      else if has (seg_flags seg) RST then
        (if has (seg_flags seg) ACK then tcb_fail ConnectionRefused t else t)
      else if seg_flags seg AND (SYN OR ACK) = SYN OR ACK then
        tcb_output now False (send_ack
          (t\<lparr>rcv_nxt := seg_seq seg + 1, snd_una := seg_ack seg, snd_wnd := seg_window seg,
             mss := min (case seg_mss seg of None \<Rightarrow> DEFAULT_PEER_MSS | Some m \<Rightarrow> m) MSS,
             state := Established, retries := 0, rto := INITIAL_RTO, deadline := None\<rparr>))
      else t)"

text \<open>
  A valid acknowledgement of new data: the positions it moves (lines 355 to 367) and
  the states it ends (lines 368 to 377).
\<close>

definition ack_advance :: "Segment \<Rightarrow> nat \<Rightarrow> Tcb \<Rightarrow> Tcb" where
  "ack_advance seg now t =
     (let acked = unat (seg_ack seg - snd_una t);
          fin_covered = (case fin_seq t of None \<Rightarrow> False | Some fin \<Rightarrow> seq_lt fin (seg_ack seg))
      in t\<lparr>send_buf := drop (min acked (length (send_buf t))) (send_buf t),
           fin_acked := fin_acked t \<or> fin_covered,
           snd_una := seg_ack seg,
           snd_nxt := (if seq_lt (snd_nxt t) (seg_ack seg) then seg_ack seg else snd_nxt t),
           retries := 0, rto := INITIAL_RTO,
           deadline := (if seg_ack seg \<noteq> snd_max t then Some (now + INITIAL_RTO) else None)\<rparr>)"

definition ack_states :: "nat \<Rightarrow> Tcb \<Rightarrow> Tcb" where
  "ack_states now t =
     (if fin_acked t then
        (case state t of
           FinWait1 \<Rightarrow> t\<lparr>state := FinWait2, deadline := Some (now + FIN_WAIT2_TIMEOUT)\<rparr>
         | Closing \<Rightarrow> t\<lparr>state := Closed\<rparr>
         | LastAck \<Rightarrow> t\<lparr>state := Closed\<rparr>
         | _ \<Rightarrow> t)
      else t)"

definition on_new_ack :: "Segment \<Rightarrow> nat \<Rightarrow> Tcb \<Rightarrow> Tcb" where
  "on_new_ack seg now t = ack_states now (ack_advance seg now t)"

text \<open>The payload and FIN of a segment (lines 387 to 421).\<close>

definition accept_data :: "Segment \<Rightarrow> Tcb \<Rightarrow> Tcb" where
  "accept_data seg t =
     (let accepts = state t \<in> {Established, FinWait1, FinWait2};
          taken = (if \<not> accepts then 0
                   else if user_closed t then length (seg_payload seg)
                   else min (length (seg_payload seg)) (RECV_CAP - length (recv_buf t)));
          t = (if accepts then
                 (let t = (if user_closed t then t
                           else t\<lparr>recv_buf := recv_buf t @ take taken (seg_payload seg)\<rparr>)
                  in t\<lparr>rcv_nxt := rcv_nxt t + of_nat taken\<rparr>)
               else t)
      in if has (seg_flags seg) FIN \<and> accepts \<and> taken = length (seg_payload seg) then
           let t = t\<lparr>rcv_nxt := rcv_nxt t + 1, peer_fin := True,
                     state := (case state t of Established \<Rightarrow> CloseWait | FinWait1 \<Rightarrow> Closing
                               | FinWait2 \<Rightarrow> Closed | s \<Rightarrow> s)\<rparr>
           in if state t = Closed then t\<lparr>deadline := None\<rparr> else t
         else t)"

definition on_payload :: "Segment \<Rightarrow> Tcb \<Rightarrow> Tcb" where
  "on_payload seg t =
     (if seg_payload seg \<noteq> [] \<or> has (seg_flags seg) FIN then
        send_ack (if seg_seq seg = rcv_nxt t then accept_data seg t else t)
      else t)"

definition on_segment :: "Segment \<Rightarrow> nat \<Rightarrow> Tcb \<Rightarrow> Tcb" where
  "on_segment seg now t =
     (if state t = Idle \<or> state t = Closed then t
      else if state t = SynSent then on_syn_sent seg now t
      else if has (seg_flags seg) RST then
        (let window = of_nat (max (RECV_CAP - length (recv_buf t)) 1) in
         if seq_le (rcv_nxt t) (seg_seq seg) \<and> seq_lt (seg_seq seg) (rcv_nxt t + window)
         then tcb_fail ConnectionReset t else t)
      else if has (seg_flags seg) SYN then send_ack t
      else if \<not> has (seg_flags seg) ACK then t
      else if seq_lt (snd_una t) (seg_ack seg) \<and> seq_le (seg_ack seg) (snd_max t) then
        tcb_output now False (on_payload seg ((on_new_ack seg now t)\<lparr>snd_wnd := seg_window seg\<rparr>))
      else if seq_lt (snd_max t) (seg_ack seg) then send_ack t
      else
        (let t = (if seg_ack seg = snd_una t \<and> seg_window seg = 0 then t\<lparr>retries := 0\<rparr> else t)
         in tcb_output now False (on_payload seg (t\<lparr>snd_wnd := seg_window seg\<rparr>))))"

definition tcb_on_timer :: "nat \<Rightarrow> Tcb \<Rightarrow> Tcb" where
  "tcb_on_timer now t =
     (case deadline t of
        None \<Rightarrow> t
      | Some dl \<Rightarrow>
          if now < dl then t
          else let t = t\<lparr>deadline := None\<rparr> in
            if state t = FinWait2 then t\<lparr>state := Closed\<rparr>
            else let t = t\<lparr>retries := retries t + 1\<rparr> in
              if MAX_RETRIES < retries t then tcb_fail TimedOut t
              else let t = t\<lparr>rto := min (rto t * 2) MAX_RTO\<rparr>;
                       t = t\<lparr>snd_nxt := (if state t = SynSent then iss t else snd_una t)\<rparr>
                   in arm now (tcb_output now True t))"

section \<open>The socket calls on a control block\<close>

text \<open>The critical sections of \<^verbatim>\<open>connect\<close>, \<^verbatim>\<open>read\<close>, \<^verbatim>\<open>write\<close> and \<^verbatim>\<open>drop\<close>.\<close>

definition tcb_connect :: "u16 \<Rightarrow> Endpoint \<Rightarrow> u32 \<Rightarrow> nat \<Rightarrow> Tcb \<Rightarrow> Tcb" where
  "tcb_connect p rem isn now t =
     tcb_output now False
       (t\<lparr>local_port := p, remote := rem, iss := isn, snd_una := isn, snd_nxt := isn,
          snd_max := isn, state := SynSent\<rparr>)"

definition tcb_connected :: "Tcb \<Rightarrow> (FsError + unit) option" where
  "tcb_connected t =
     (case state t of
        SynSent \<Rightarrow> None
      | Closed \<Rightarrow> Some (Inl (case error t of None \<Rightarrow> ConnectionReset | Some e \<Rightarrow> e))
      | _ \<Rightarrow> Some (Inr ()))"

text \<open>\<open>None\<close>: the caller waits for the next wakeup and tries again.\<close>

definition tcb_read :: "nat \<Rightarrow> Tcb \<Rightarrow> (FsError + bytes) option \<times> Tcb" where
  "tcb_read buf_len t =
     (if recv_buf t \<noteq> [] then
        let n = min buf_len (length (recv_buf t));
            bs = take n (recv_buf t);
            t = t\<lparr>recv_buf := drop n (recv_buf t)\<rparr>
        in (Some (Inr bs),
            if advertised t < RECV_CAP div 2 \<and> RECV_CAP div 2 \<le> RECV_CAP - length (recv_buf t)
               \<and> state t \<notin> {Idle, SynSent, Closed}
            then send_ack t else t)
      else if peer_fin t then (Some (Inr []), t)
      else case error t of
        Some e \<Rightarrow> (Some (Inl e), t)
      | None \<Rightarrow>
          (case state t of
             Idle \<Rightarrow> (Some (Inl NotConnected), t)
           | Closed \<Rightarrow> (Some (Inr []), t)
           | _ \<Rightarrow> (None, t)))"

text \<open>Why a write cannot be queued now, if it cannot.\<close>

definition write_error :: "Tcb \<Rightarrow> FsError option" where
  "write_error t =
     (case error t of
        Some e \<Rightarrow> Some e
      | None \<Rightarrow>
          if state t \<in> {Idle, SynSent} then Some NotConnected
          else if state t \<in> {Established, CloseWait} \<and> \<not> fin_queued t then None
          else Some BrokenPipe)"

datatype write_turn = WriteEnds "FsError + nat" | WriteQueues nat | WriteWaits

text \<open>One turn of the loop: \<open>data\<close> is the whole buffer and \<open>written\<close> bytes of it are queued.\<close>

definition tcb_write :: "nat \<Rightarrow> bytes \<Rightarrow> nat \<Rightarrow> Tcb \<Rightarrow> write_turn \<times> Tcb" where
  "tcb_write now data written t =
     (case write_error t of
        Some e \<Rightarrow> (WriteEnds (if 0 < written then Inr written else Inl e), t)
      | None \<Rightarrow>
          let n = min (SEND_CAP - length (send_buf t)) (length data - written) in
          if 0 < n then
            (WriteQueues (written + n),
             tcb_output now False
               (t\<lparr>send_buf := send_buf t @ slice_of written (written + n) data\<rparr>))
          else (WriteWaits, t))"

definition tcb_close :: "nat \<Rightarrow> Tcb \<Rightarrow> Tcb" where
  "tcb_close now t =
     (let t = t\<lparr>user_closed := True, recv_buf := []\<rparr>
      in if state t = SynSent then t\<lparr>state := Closed\<rparr>
         else if state t \<in> {Established, CloseWait} then tcb_output now False (t\<lparr>fin_queued := True\<rparr>)
         else t)"

end
