(* ===== verification/Tcp_Stream.thy ===== *)
theory Tcp_Stream
  imports Tcp "HOL-Library.Sublist"
begin

text \<open>
  Invariants of a TCP connection over every interleaving of segments, timer, reads,
  writes and close: the send side against the written stream, the receive side
  against the peer's stream, the timer, the bounds of the block.
\<close>

section \<open>Sequence numbers\<close>

lemma sint_neg_of_nat:
  assumes "d < 2 ^ 31"
  shows "sint (- (of_nat d) :: u32) = - int d" "sint (of_nat d :: u32) = int d"
proof -
  have "- (of_nat d) = (word_of_int (- int d) :: u32)" by simp
  then show "sint (- (of_nat d) :: u32) = - int d"
    using assms by (simp only: signed_of_int) (simp add: signed_take_bit_int_eq_self)
  have "of_nat d = (word_of_int (int d) :: u32)" by simp
  then show "sint (of_nat d :: u32) = int d"
    using assms by (simp only: signed_of_int) (simp add: signed_take_bit_int_eq_self)
qed

lemma seq_lt_of_nat:
  assumes "i \<le> j" "j - i < 2 ^ 31"
  shows "seq_lt (x + of_nat i) (x + of_nat j) \<longleftrightarrow> i < j" "\<not> seq_lt (x + of_nat j) (x + of_nat i)"
proof -
  have e: "(x + of_nat i) - (x + of_nat j) = - (of_nat (j - i) :: u32)"
    "(x + of_nat j) - (x + of_nat i) = (of_nat (j - i) :: u32)"
    using assms(1) by (simp_all add: of_nat_diff)
  show "seq_lt (x + of_nat i) (x + of_nat j) \<longleftrightarrow> i < j"
    unfolding seq_lt_def e sint_neg_of_nat [OF assms(2)] using assms(1) by auto
  show "\<not> seq_lt (x + of_nat j) (x + of_nat i)"
    unfolding seq_lt_def e sint_neg_of_nat [OF assms(2)] by auto
qed

text \<open>
  An acknowledgement that passes both comparisons of \<^verbatim>\<open>on_segment\<close> lies in the window
  of sent sequence numbers, unless it is exactly half the sequence space ahead.
\<close>

lemma ack_in_window:
  assumes lt: "seq_lt u k" and le: "seq_le k (u + of_nat l)" and l: "l < 2 ^ 31"
    and half: "k - u \<noteq> 0x80000000"
  obtains d where "k = u + of_nat d" "0 < d" "d \<le> l"
proof -
  define w where "w = k - u"
  have k: "k = u + of_nat (unat w)" by (simp add: w_def)
  have "sint (- w) < 0" using lt by (simp add: seq_lt_def w_def)
  have w0: "w \<noteq> 0" using \<open>sint (- w) < 0\<close> by auto
  have wh: "unat w \<noteq> 2 ^ 31" 
  proof
    assume "unat w = 2 ^ 31"
    then have "unat w = unat (0x80000000 :: u32)" by simp
    then show False using half unsigned_word_eqI unfolding w_def by blast
  qed
  have w31: "unat w < 2 ^ 31"
  proof (rule ccontr)
    assume "\<not> unat w < 2 ^ 31"
    moreover have "unat w < 2 ^ 32" using unsigned_less [of w] by simp
    ultimately have d: "2 ^ 32 - unat w < 2 ^ 31" using wh by auto
    have "- w = of_nat (2 ^ 32 - unat w)" using \<open>unat w < 2 ^ 32\<close> by (simp add: of_nat_diff)
    then show False using \<open>sint (- w) < 0\<close> sint_neg_of_nat(2) [OF d] by simp
  qed
  have "k - (u + of_nat l) = w - of_nat l" by (simp add: w_def)
  have "unat w \<le> l"
  proof (rule ccontr)
    assume "\<not> unat w \<le> l"
    then have "w - of_nat l = of_nat (unat w - l)" by (simp add: of_nat_diff)
    then have "sint (k - (u + of_nat l)) = int (unat w - l)"
      using w31 by (simp add: \<open>k - (u + of_nat l) = w - of_nat l\<close> sint_neg_of_nat(2))
    then show False using le \<open>\<not> unat w \<le> l\<close> unfolding seq_le_def by linarith
  qed
  moreover have "0 < unat w" using w0 by (simp add: unat_gt_0)
  ultimately show thesis using that k by blast
qed

lemma half_ack_in_window: "seq_lt u (u + 0x80000000) \<and> seq_le (u + 0x80000000) u"
  by (simp add: seq_lt_def seq_le_def)

lemma emit_fields [simp]:
  "state (emit x t) = state t" "iss (emit x t) = iss t" "snd_una (emit x t) = snd_una t"
  "snd_nxt (emit x t) = snd_nxt t" "snd_max (emit x t) = snd_max t" "snd_wnd (emit x t) = snd_wnd t"
  "mss (emit x t) = mss t" "send_buf (emit x t) = send_buf t" "fin_queued (emit x t) = fin_queued t"
  "fin_seq (emit x t) = fin_seq t" "fin_acked (emit x t) = fin_acked t" "rcv_nxt (emit x t) = rcv_nxt t"
  "recv_buf (emit x t) = recv_buf t" "peer_fin (emit x t) = peer_fin t"
  "user_closed (emit x t) = user_closed t" "error (emit x t) = error t" "rto (emit x t) = rto t"
  "retries (emit x t) = retries t" "deadline (emit x t) = deadline t"
  "outbox (emit x t) = outbox t @ [x]"
  by (simp_all add: emit_def)

lemma tcb_send_fields [simp]:
  "state (tcb_send f q d t) = state t" "iss (tcb_send f q d t) = iss t"
  "snd_una (tcb_send f q d t) = snd_una t" "snd_nxt (tcb_send f q d t) = snd_nxt t"
  "snd_max (tcb_send f q d t) = snd_max t" "snd_wnd (tcb_send f q d t) = snd_wnd t"
  "mss (tcb_send f q d t) = mss t" "send_buf (tcb_send f q d t) = send_buf t"
  "fin_queued (tcb_send f q d t) = fin_queued t" "fin_seq (tcb_send f q d t) = fin_seq t"
  "fin_acked (tcb_send f q d t) = fin_acked t" "rcv_nxt (tcb_send f q d t) = rcv_nxt t"
  "recv_buf (tcb_send f q d t) = recv_buf t" "peer_fin (tcb_send f q d t) = peer_fin t"
  "user_closed (tcb_send f q d t) = user_closed t" "error (tcb_send f q d t) = error t"
  "rto (tcb_send f q d t) = rto t" "retries (tcb_send f q d t) = retries t"
  "deadline (tcb_send f q d t) = deadline t"
  "outbox (tcb_send f q d t) = outbox t @
     [\<lparr>x_port = local_port t, x_remote = remote t, x_seq = q,
       x_ack = if has f 0x10 then rcv_nxt t else 0,
       x_flags = f, x_window = 16384 - length (recv_buf t), x_payload = d\<rparr>]"
  by (simp_all add: tcb_send_def Let_def)

lemma arm_fields [simp]:
  "state (arm now t) = state t" "iss (arm now t) = iss t" "snd_una (arm now t) = snd_una t"
  "snd_nxt (arm now t) = snd_nxt t" "snd_max (arm now t) = snd_max t" "snd_wnd (arm now t) = snd_wnd t"
  "mss (arm now t) = mss t" "send_buf (arm now t) = send_buf t" "fin_queued (arm now t) = fin_queued t"
  "fin_seq (arm now t) = fin_seq t" "fin_acked (arm now t) = fin_acked t" "rcv_nxt (arm now t) = rcv_nxt t"
  "recv_buf (arm now t) = recv_buf t" "peer_fin (arm now t) = peer_fin t"
  "user_closed (arm now t) = user_closed t" "error (arm now t) = error t" "rto (arm now t) = rto t"
  "retries (arm now t) = retries t" "outbox (arm now t) = outbox t"
  by (simp_all add: arm_def)

lemma advance_fields [simp]:
  "state (advance n t) = state t" "iss (advance n t) = iss t" "snd_una (advance n t) = snd_una t"
  "snd_nxt (advance n t) = snd_nxt t + n" "snd_wnd (advance n t) = snd_wnd t"
  "mss (advance n t) = mss t" "send_buf (advance n t) = send_buf t"
  "fin_queued (advance n t) = fin_queued t" "fin_seq (advance n t) = fin_seq t"
  "fin_acked (advance n t) = fin_acked t" "rcv_nxt (advance n t) = rcv_nxt t"
  "recv_buf (advance n t) = recv_buf t" "peer_fin (advance n t) = peer_fin t"
  "user_closed (advance n t) = user_closed t" "error (advance n t) = error t"
  "rto (advance n t) = rto t" "retries (advance n t) = retries t"
  "deadline (advance n t) = deadline t" "outbox (advance n t) = outbox t"
  "snd_max (advance n t) =
     (if seq_lt (snd_max t) (snd_nxt t + n) then snd_nxt t + n else snd_max t)"
  by (simp_all add: advance_def Let_def)

section \<open>The send side\<close>

text \<open>
  Sequence numbers counted from the initial one: 0 is the SYN, \<open>1 + k\<close> byte \<open>k\<close> of
  everything written, and \<open>1 + length W\<close> the FIN. \<open>a\<close>, \<open>nx\<close> and \<open>m\<close> are the
  positions of \<open>snd_una\<close>, \<open>snd_nxt\<close> and \<open>snd_max\<close>.
\<close>

definition snd_ok :: "bytes \<Rightarrow> Tcb \<Rightarrow> nat \<Rightarrow> nat \<Rightarrow> nat \<Rightarrow> bool" where
  "snd_ok W t a nx m \<longleftrightarrow>
     snd_una t = iss t + of_nat a \<and> snd_nxt t = iss t + of_nat nx \<and> snd_max t = iss t + of_nat m
     \<and> a \<le> nx \<and> nx \<le> m \<and> m \<le> 1 + length W + (if fin_seq t = None then 0 else 1)
     \<and> send_buf t = drop (a - 1) W \<and> length (send_buf t) \<le> SEND_CAP
     \<and> (\<forall>f. fin_seq t = Some f \<longrightarrow> fin_queued t \<and> f = iss t + of_nat (1 + length W))
     \<and> (fin_acked t \<longleftrightarrow> a = length W + 2)
     \<and> (state t = SynSent \<longrightarrow> a = 0 \<and> W = [] \<and> \<not> fin_queued t)
     \<and> (state t \<noteq> SynSent \<longrightarrow> 1 \<le> a)"

definition carried :: "u32 \<Rightarrow> bytes \<Rightarrow> Xmit \<Rightarrow> bool" where
  "carried isn W x \<longleftrightarrow>
     (\<exists>k. x_seq x = isn + 1 + of_nat k \<and> k + length (x_payload x) \<le> length W
          \<and> x_payload x = take (length (x_payload x)) (drop k W))"

definition out_ok :: "bytes \<Rightarrow> Tcb \<Rightarrow> bool" where
  "out_ok W t \<longleftrightarrow>
     (\<forall>x\<in>set (outbox t). (x_payload x = [] \<or> carried (iss t) W x)
        \<and> (has (x_flags x) FIN \<longrightarrow> fin_queued t \<and> x_seq x = iss t + 1 + of_nat (length W)))"

lemma snd_okD:
  assumes "snd_ok W t a nx m"
  shows "snd_una t = iss t + of_nat a" "snd_nxt t = iss t + of_nat nx" "snd_max t = iss t + of_nat m"
    "a \<le> nx" "nx \<le> m" "m \<le> 1 + length W + (if fin_seq t = None then 0 else 1)"
    "send_buf t = drop (a - 1) W" "length (send_buf t) \<le> 8192"
    "fin_seq t = Some f \<Longrightarrow> fin_queued t \<and> f = iss t + of_nat (1 + length W)"
    "fin_acked t \<longleftrightarrow> a = length W + 2"
    "state t = SynSent \<Longrightarrow> a = 0 \<and> W = [] \<and> \<not> fin_queued t" "state t \<noteq> SynSent \<Longrightarrow> 1 \<le> a"
  using assms unfolding snd_ok_def by blast+

lemma snd_okI:
  assumes "snd_una t = iss t + of_nat a" "snd_nxt t = iss t + of_nat nx" "snd_max t = iss t + of_nat m"
    "a \<le> nx" "nx \<le> m" "m \<le> 1 + length W + (if fin_seq t = None then 0 else 1)"
    "send_buf t = drop (a - 1) W" "length (send_buf t) \<le> 8192"
    "\<And>f. fin_seq t = Some f \<Longrightarrow> fin_queued t \<and> f = iss t + of_nat (1 + length W)"
    "fin_acked t \<longleftrightarrow> a = length W + 2"
    "state t = SynSent \<Longrightarrow> a = 0 \<and> W = [] \<and> \<not> fin_queued t" "state t \<noteq> SynSent \<Longrightarrow> 1 \<le> a"
  shows "snd_ok W t a nx m"
  using assms unfolding snd_ok_def by blast

lemma snd_ok_syn: "snd_ok W t a nx m \<Longrightarrow> state t = SynSent \<Longrightarrow> fin_seq t = None"
  using snd_okD(9,11) [of W t a nx m] by (cases "fin_seq t") auto

lemma snd_ok_span:
  assumes ok: "snd_ok W t a nx m"
  shows "m - a \<le> length (send_buf t) + 1" "m - a \<le> 8193" "a \<le> length W + 2"
proof -
  show le: "m - a \<le> length (send_buf t) + 1"
  proof (cases "state t = SynSent")
    case True
    then show ?thesis using snd_okD(6,11) [OF ok] snd_ok_syn [OF ok] by simp
  next
    case False
    have "m \<le> 2 + length W" using snd_okD(6) [OF ok] by (simp split: if_splits)
    then show ?thesis using snd_okD(7,12) [OF ok] False by simp
  qed
  then show "m - a \<le> 8193" using snd_okD(8) [OF ok] by linarith
  show "a \<le> length W + 2" using snd_okD(4,5,6) [OF ok] by (simp split: if_splits)
qed

lemma snd_ok_cursor:
  assumes ok: "snd_ok W t a nx m"
  shows "unat (snd_nxt t - snd_una t) = nx - a"
proof -
  have le: "a \<le> nx" "nx \<le> m" by (rule snd_okD [OF ok])+
  have "nx - a < 2 ^ 32" using snd_ok_span(2) [OF ok] le by simp
  moreover have "snd_nxt t - snd_una t = of_nat (nx - a)"
    using snd_okD(1,2) [OF ok] le by (simp add: of_nat_diff)
  ultimately show ?thesis by (simp only: unat_of_nat_small len_num1 len_bit0) (simp add: unat_of_nat_small)
qed

lemma snd_ok_advance:
  assumes ok: "snd_ok W t a nx m" and n: "nx + n \<le> 1 + length W + (if fin_seq t = None then 0 else 1)"
  shows "snd_ok W (advance (of_nat n) t) a (nx + n) (max m (nx + n))"
proof -
  have a: "a \<le> nx" "nx \<le> m" by (rule snd_okD [OF ok])+
  have span: "m - a \<le> 8193" by (rule snd_ok_span [OF ok])
  have "nx + n - a \<le> length (send_buf t) + 1"
  proof (cases "state t = SynSent")
    case True
    then show ?thesis using n snd_okD(11) [OF ok] snd_ok_syn [OF ok] by simp
  next
    case False
    have "nx + n \<le> 2 + length W" using n by (simp split: if_splits)
    then show ?thesis using snd_okD(7,12) [OF ok] False by simp
  qed
  then have s2: "nx + n - a \<le> 8193" using snd_okD(8) [OF ok] by linarith
  have nxt: "snd_nxt t + of_nat n = iss t + of_nat (nx + n)" using snd_okD(2) [OF ok] by simp
  have mx: "snd_max t = iss t + of_nat m" by (rule snd_okD(3) [OF ok])
  have "snd_max (advance (of_nat n) t) = iss t + of_nat (max m (nx + n))"
  proof (cases "m \<le> nx + n")
    case True
    moreover have "nx + n - m < 2 ^ 31" using True s2 a by simp
    ultimately show ?thesis
      unfolding advance_fields nxt mx seq_lt_of_nat(1) [OF True \<open>nx + n - m < 2 ^ 31\<close>]
      by (simp add: max_def)
  next
    case False
    moreover have "m - (nx + n) < 2 ^ 31" using span a by simp
    ultimately show ?thesis
      unfolding advance_fields nxt mx using seq_lt_of_nat(2) [of "nx + n" m "iss t"] by simp
  qed
  moreover have "max m (nx + n) \<le> 1 + length W + (if fin_seq t = None then 0 else 1)"
    using n snd_okD(6) [OF ok] by simp
  ultimately show ?thesis
    using a nxt snd_okD [OF ok] by (intro snd_okI) (simp_all del: of_nat_add of_nat_Suc)
qed

lemma snd_ok_cong:
  assumes "snd_ok W t a nx m"
    "state t' = state t \<or> state t \<noteq> SynSent \<and> state t' \<noteq> SynSent"
    "iss t' = iss t" "snd_una t' = snd_una t" "snd_nxt t' = snd_nxt t"
    "snd_max t' = snd_max t" "send_buf t' = send_buf t" "fin_queued t' = fin_queued t"
    "fin_seq t' = fin_seq t" "fin_acked t' = fin_acked t"
  shows "snd_ok W t' a nx m"
  using assms by (auto simp: snd_ok_def)

lemma carried_append: "carried isn W x \<Longrightarrow> carried isn (W @ d) x"
  unfolding carried_def by (elim exE) (rule_tac x = k in exI, simp)

lemma out_ok_empty: "out_ok W t \<Longrightarrow> x_payload x = [] \<Longrightarrow> \<not> has (x_flags x) 1 \<Longrightarrow> out_ok W (emit x t)"
  by (auto simp: out_ok_def)

lemma output_size_bounds:
  "output_size probe t \<le> length (send_buf t) - data_before_cursor t"
  "output_size probe t \<le> mss t"
  by (simp_all add: output_size_def Let_def)

lemma output_one_fields [simp]:
  "state (output_one now probe t) = state t" "iss (output_one now probe t) = iss t"
  "send_buf (output_one now probe t) = send_buf t" "fin_queued (output_one now probe t) = fin_queued t"
  "fin_seq (output_one now probe t) = fin_seq t" "snd_una (output_one now probe t) = snd_una t"
  "mss (output_one now probe t) = mss t" "recv_buf (output_one now probe t) = recv_buf t"
  "rcv_nxt (output_one now probe t) = rcv_nxt t" "peer_fin (output_one now probe t) = peer_fin t"
  "user_closed (output_one now probe t) = user_closed t" "error (output_one now probe t) = error t"
  "fin_acked (output_one now probe t) = fin_acked t" "rto (output_one now probe t) = rto t"
  "retries (output_one now probe t) = retries t" "snd_wnd (output_one now probe t) = snd_wnd t"
  by (simp_all add: output_one_def Let_def)

lemma output_one_ok:
  assumes ok: "snd_ok W t a nx m" and st: "state t \<noteq> SynSent" and n: "output_size probe t \<noteq> 0"
  shows "snd_ok W (output_one now probe t) a (nx + output_size probe t) (max m (nx + output_size probe t))"
    and "nx - a + output_size probe t \<le> length (send_buf t)"
    and "out_ok W t \<Longrightarrow> out_ok W (output_one now probe t)"
proof -
  let ?n = "output_size probe t" and ?L = "length (send_buf t)"
  have cur: "data_before_cursor t = min (nx - a) ?L"
    by (simp add: data_before_cursor_def snd_ok_cursor [OF ok])
  have lt: "nx - a < ?L" using output_size_bounds(1) [of probe t] n cur by (cases "nx - a < ?L") auto
  then have infl: "data_before_cursor t = nx - a" using cur by simp
  show le: "nx - a + ?n \<le> ?L" using output_size_bounds(1) [of probe t] infl lt by simp
  have a1: "1 \<le> a" "a \<le> nx" using snd_okD(4,12) [OF ok] st by auto
  have buf: "send_buf t = drop (a - 1) W" by (rule snd_okD(7) [OF ok])
  have W: "nx + ?n \<le> 1 + length W" using le a1 lt unfolding buf by simp
  have send: "snd_ok W (tcb_send f q d t) a nx m" for f q d by (rule snd_ok_cong [OF ok]) simp_all
  have "snd_ok W (advance (of_nat ?n) (tcb_send f q d t)) a (nx + ?n) (max m (nx + ?n))" for f q d
    by (rule snd_ok_advance [OF send]) (use W in simp)
  then show "snd_ok W (output_one now probe t) a (nx + ?n) (max m (nx + ?n))"
    unfolding output_one_def Let_def by (rule snd_ok_cong) simp_all
  let ?d = "slice_of (nx - a) (nx - a + ?n) (send_buf t)"
  have d: "?d = take ?n (drop (nx - 1) W)"
    using a1 by (simp add: slice_of_def buf)
  have seq: "snd_nxt t = iss t + 1 + of_nat (nx - 1)"
    using snd_okD(2) [OF ok] a1 by (simp add: of_nat_diff)
  have len: "length ?d = ?n" using le by simp
  have "carried (iss t) W \<lparr>x_port = p, x_remote = r, x_seq = snd_nxt t, x_ack = k, x_flags = f,
      x_window = w, x_payload = ?d\<rparr>" for p r k f w
    unfolding carried_def using seq W a1 d len by (intro exI [of _ "nx - 1"]) simp
  moreover have "\<not> has (0x10 OR 8) 1" by (simp add: has_def)
  ultimately show "out_ok W t \<Longrightarrow> out_ok W (output_one now probe t)"
    by (auto simp: out_ok_def output_one_def Let_def infl)
qed

lemma output_loop_fields [simp]:
  "state (output_loop k now probe t) = state t" "iss (output_loop k now probe t) = iss t"
  "send_buf (output_loop k now probe t) = send_buf t" "fin_queued (output_loop k now probe t) = fin_queued t"
  "fin_seq (output_loop k now probe t) = fin_seq t" "snd_una (output_loop k now probe t) = snd_una t"
  "mss (output_loop k now probe t) = mss t" "recv_buf (output_loop k now probe t) = recv_buf t"
  "rcv_nxt (output_loop k now probe t) = rcv_nxt t" "peer_fin (output_loop k now probe t) = peer_fin t"
  "user_closed (output_loop k now probe t) = user_closed t" "error (output_loop k now probe t) = error t"
  "fin_acked (output_loop k now probe t) = fin_acked t" "rto (output_loop k now probe t) = rto t"
  "retries (output_loop k now probe t) = retries t" "snd_wnd (output_loop k now probe t) = snd_wnd t"
  by (induction k now probe t rule: output_loop.induct; simp)+

lemma output_loop_ok:
  assumes "snd_ok W t a nx m" "state t \<noteq> SynSent" "out_ok W t"
  shows "\<exists>nx' m'. snd_ok W (output_loop k now probe t) a nx' m' \<and> out_ok W (output_loop k now probe t)"
  using assms
proof (induction k now probe t arbitrary: nx m rule: output_loop.induct)
  case (2 k now probe t)
  show ?case
  proof (cases "output_size probe t = 0")
    case False
    note one = output_one_ok [OF 2(2,3) False]
    show ?thesis using 2(1) [OF False one(1) _ one(3) [OF 2(4)]] 2(3) False by simp
  qed (use 2 in auto)
qed auto

text \<open>The fuel is enough: the loop ends because nothing more can be sent.\<close>

lemma output_loop_done:
  assumes "snd_ok W t a nx m" "state t \<noteq> SynSent" "length (send_buf t) - (nx - a) < k"
  shows "output_size probe (output_loop k now probe t) = 0"
  using assms
proof (induction k now probe t arbitrary: nx m rule: output_loop.induct)
  case (2 k now probe t)
  show ?case
  proof (cases "output_size probe t = 0")
    case False
    note one = output_one_ok [OF 2(2,3) False]
    have "a \<le> nx" by (rule snd_okD(4) [OF 2(2)])
    then have "length (send_buf t) - (nx + output_size probe t - a) < k"
      using 2(4) one(2) False by simp
    then show ?thesis using 2(1) [OF False one(1)] 2(3) False by simp
  qed simp
qed auto

lemma output_fin_ok:
  assumes ok: "snd_ok W t a nx m" and st: "state t \<noteq> SynSent" and out: "out_ok W t"
  shows "\<exists>nx' m'. snd_ok W (output_fin now t) a nx' m' \<and> out_ok W (output_fin now t)"
proof (cases "fin_queued t \<and> \<not> fin_acked t \<and> unat (snd_nxt t - snd_una t) = length (send_buf t)
         \<and> (case fin_seq t of None \<Rightarrow> True | Some fin \<Rightarrow> fin = snd_nxt t)")
  case False
  then show ?thesis using ok out by (auto simp: output_fin_def)
next
  case True
  have a1: "1 \<le> a" "a \<le> nx" using snd_okD(4,12) [OF ok] st by auto
  have "a \<le> length W + 1" using snd_ok_span(3) [OF ok] snd_okD(10) [OF ok] True by auto
  then have nx: "nx = 1 + length W"
    using True a1 snd_okD(7) [OF ok] by (auto simp: snd_ok_cursor [OF ok])
  define t1 where "t1 = t\<lparr>fin_seq := Some (snd_nxt t)\<rparr>"
  define t2 where "t2 = tcb_send (FIN OR ACK) (snd_nxt t) [] t1"
  have nxt: "snd_nxt t = iss t + of_nat (1 + length W)" using snd_okD(2) [OF ok] nx by simp
  have "snd_ok W t1 a nx m"
    using snd_okD [OF ok] True nxt unfolding t1_def
    by (intro snd_okI) (simp_all del: of_nat_add of_nat_Suc split: if_splits)
  then have "snd_ok W t2 a nx m" unfolding t2_def by (rule snd_ok_cong) simp_all
  from snd_ok_advance [OF this, of 1]
  have adv: "snd_ok W (advance 1 t2) a (nx + 1) (max m (nx + 1))"
    using nx by (simp add: t1_def t2_def)
  have f: "output_fin now t = arm now ((advance 1 t2)\<lparr>state :=
      (case state t of Established \<Rightarrow> FinWait1 | CloseWait \<Rightarrow> LastAck | s \<Rightarrow> s)\<rparr>)"
    using True by (simp add: output_fin_def Let_def t1_def t2_def)
  have "snd_ok W (output_fin now t) a (nx + 1) (max m (nx + 1))"
    unfolding f using st
    by (intro snd_ok_cong [OF adv]) (simp_all add: t1_def t2_def split: TcpState.split)
  moreover have "out_ok W (output_fin now t)"
    unfolding f using out True nxt by (auto simp: out_ok_def t1_def t2_def)
  ultimately show ?thesis by blast
qed

lemma tcb_output_ok:
  assumes ok: "snd_ok W t a nx m" and st: "state t \<noteq> SynSent" and out: "out_ok W t"
  shows "\<exists>nx' m'. snd_ok W (tcb_output now probe t) a nx' m' \<and> out_ok W (tcb_output now probe t)"
proof -
  define l where "l = output_loop (Suc (length (send_buf t))) now probe t"
  obtain n1 m1 where l: "snd_ok W l a n1 m1" "out_ok W l"
    using output_loop_ok [OF ok st out] unfolding l_def by blast
  have "state l \<noteq> SynSent" using st unfolding l_def by (simp only: output_loop_fields not_False_eq_True)
  then obtain n2 m2 where f: "snd_ok W (output_fin now l) a n2 m2" "out_ok W (output_fin now l)"
    using output_fin_ok [OF l(1) _ l(2)] by blast
  have "snd_ok W (arm now (output_fin now l)) a n2 m2" by (rule snd_ok_cong [OF f(1)]) simp_all
  moreover have "out_ok W (arm now (output_fin now l))" using f(2) by (simp add: out_ok_def)
  ultimately show ?thesis using f ok out st
    by (auto simp: tcb_output_def Let_def l_def [symmetric] simp del: output_loop.simps)
qed

lemma tcb_output_syn:
  assumes ok: "snd_ok W t 0 0 m" and st: "state t = SynSent" and out: "out_ok W t"
  shows "snd_ok W (tcb_output now probe t) 0 1 1 \<and> out_ok W (tcb_output now probe t)"
proof -
  have eq: "snd_nxt t = iss t" using snd_okD(2) [OF ok] by simp
  have "m \<le> 1" using snd_okD(6,11) [OF ok] snd_ok_syn [OF ok] st by simp
  have "snd_ok W (tcb_send SYN (iss t) [] t) 0 0 m" by (rule snd_ok_cong [OF ok]) simp_all
  from snd_ok_advance [OF this, of 1] \<open>m \<le> 1\<close>
  have "snd_ok W (advance 1 (tcb_send SYN (iss t) [] t)) 0 1 1" by (simp add: max_def split: if_splits)
  then have "snd_ok W (tcb_output now probe t) 0 1 1"
    using st eq by (auto simp: tcb_output_def intro: snd_ok_cong)
  moreover have "out_ok W (tcb_output now probe t)"
    using out st eq by (auto simp: tcb_output_def out_ok_def has_def)
  ultimately show ?thesis by blast
qed

text \<open>
  The invariant of the send side: a control block is closed or its positions are
  consistent with the written stream, with the SYN sent.
\<close>

definition tcb_inv :: "bytes \<Rightarrow> Tcb \<Rightarrow> bool" where
  "tcb_inv W t \<longleftrightarrow> out_ok W t \<and>
     (state t = Closed \<or> (\<exists>a nx m. snd_ok W t a nx m \<and> (state t = SynSent \<longrightarrow> nx = 1)))"

lemma tcb_invE:
  assumes "tcb_inv W t" "state t \<noteq> Closed" "state t \<noteq> SynSent"
  obtains a nx m where "snd_ok W t a nx m" "out_ok W t" "1 \<le> a"
  using assms snd_okD(12) unfolding tcb_inv_def by blast

lemma tcb_invI: "snd_ok W t a nx m \<Longrightarrow> out_ok W t \<Longrightarrow> state t \<noteq> SynSent \<Longrightarrow> tcb_inv W t"
  unfolding tcb_inv_def by blast

lemma tcb_inv_closed: "out_ok W t \<Longrightarrow> state t = Closed \<Longrightarrow> tcb_inv W t"
  by (simp add: tcb_inv_def)

lemma tcb_inv_out: "tcb_inv W t \<Longrightarrow> out_ok W t"
  by (simp add: tcb_inv_def)

lemma out_ok_cong:
  assumes "out_ok W t" "outbox t' = outbox t" "iss t' = iss t" "fin_queued t \<Longrightarrow> fin_queued t'"
  shows "out_ok W t'"
  using assms by (auto simp: out_ok_def)

lemma out_ok_send:
  "out_ok W t \<Longrightarrow> \<not> has f 1 \<Longrightarrow> out_ok W (tcb_send f q [] t)"
  by (auto simp: out_ok_def)

lemma send_ack_ok:
  assumes "out_ok W t" shows "out_ok W (send_ack t)"
  using assms by (simp add: send_ack_def out_ok_send has_def)

lemma send_ack_fields [simp]:
  "state (send_ack t) = state t" "iss (send_ack t) = iss t" "snd_una (send_ack t) = snd_una t"
  "snd_nxt (send_ack t) = snd_nxt t" "snd_max (send_ack t) = snd_max t" "snd_wnd (send_ack t) = snd_wnd t"
  "mss (send_ack t) = mss t" "send_buf (send_ack t) = send_buf t" "fin_queued (send_ack t) = fin_queued t"
  "fin_seq (send_ack t) = fin_seq t" "fin_acked (send_ack t) = fin_acked t" "rcv_nxt (send_ack t) = rcv_nxt t"
  "recv_buf (send_ack t) = recv_buf t" "peer_fin (send_ack t) = peer_fin t"
  "user_closed (send_ack t) = user_closed t" "error (send_ack t) = error t" "rto (send_ack t) = rto t"
  "retries (send_ack t) = retries t" "deadline (send_ack t) = deadline t"
  by (simp_all add: send_ack_def)

lemma tcb_inv_cong:
  assumes inv: "tcb_inv W t" and out: "out_ok W t'" and st: "state t' = state t"
    "iss t' = iss t" "snd_una t' = snd_una t" "snd_nxt t' = snd_nxt t"
    "snd_max t' = snd_max t" "send_buf t' = send_buf t" "fin_queued t' = fin_queued t"
    "fin_seq t' = fin_seq t" "fin_acked t' = fin_acked t"
  shows "tcb_inv W t'"
proof -
  have "snd_ok W t' a nx m" if "snd_ok W t a nx m" for a nx m
    by (rule snd_ok_cong [OF that]) (simp_all add: st)
  then show ?thesis using inv out st(1) unfolding tcb_inv_def by metis
qed

lemma send_ack_inv: "tcb_inv W t \<Longrightarrow> tcb_inv W (send_ack t)"
  by (rule tcb_inv_cong) (simp_all add: send_ack_ok tcb_inv_out)

lemma tcb_fail_fields [simp]:
  "state (tcb_fail e t) = Closed" "iss (tcb_fail e t) = iss t" "outbox (tcb_fail e t) = outbox t"
  "fin_queued (tcb_fail e t) = fin_queued t" "recv_buf (tcb_fail e t) = recv_buf t"
  "rcv_nxt (tcb_fail e t) = rcv_nxt t" "peer_fin (tcb_fail e t) = peer_fin t"
  "user_closed (tcb_fail e t) = user_closed t" "deadline (tcb_fail e t) = None"
  "error (tcb_fail e t) = Some e" "mss (tcb_fail e t) = mss t" "send_buf (tcb_fail e t) = []"
  "rto (tcb_fail e t) = rto t" "retries (tcb_fail e t) = retries t"
  by (simp_all add: tcb_fail_def)

lemma tcb_fail_inv: "tcb_inv W t \<Longrightarrow> tcb_inv W (tcb_fail e t)"
  by (rule tcb_inv_closed) (auto intro: out_ok_cong dest: tcb_inv_out)

lemma tcb_output_inv:
  assumes "snd_ok W t a nx m" "state t \<noteq> SynSent" "out_ok W t"
  shows "tcb_inv W (tcb_output now probe t)"
proof -
  obtain nx' m' where "snd_ok W (tcb_output now probe t) a nx' m'" "out_ok W (tcb_output now probe t)"
    using tcb_output_ok [OF assms] by blast
  moreover have "state (tcb_output now probe t) \<noteq> SynSent"
  proof
    assume "state (tcb_output now probe t) = SynSent"
    then have "a = 0" using snd_okD(11) [OF calculation(1)] by simp
    then show False using snd_okD(12) [OF assms(1,2)] by simp
  qed
  ultimately show ?thesis by (rule tcb_invI)
qed

lemma tcb_output_closed [simp]: "state t = Closed \<Longrightarrow> tcb_output now probe t = t"
  by (simp add: tcb_output_def)

text \<open>\<open>tcb_output\<close> on any control block of the invariant that is past the handshake.\<close>

lemma tcb_output_inv':
  assumes "tcb_inv W t" "state t \<noteq> SynSent"
  shows "tcb_inv W (tcb_output now probe t)"
  using assms by (cases "state t = Closed") (auto elim!: tcb_invE intro: tcb_output_inv)

section \<open>Segments keep the invariant\<close>

lemma both_flags:
  assumes f: "f AND (2 OR 0x10) = (2 OR 0x10 :: u8)"
  shows "has f 2" "has f 0x10"
proof -
  have "(f AND (2 OR 0x10)) AND 0x10 = f AND 0x10" "(f AND (2 OR 0x10)) AND 2 = f AND 2"
    by (simp_all add: and.assoc)
  then have "f AND 0x10 = (2 OR 0x10) AND 0x10" "f AND 2 = (2 OR 0x10) AND 2"
    unfolding f by (simp_all only:)
  then show "has f 2" "has f 0x10" by (simp_all add: has_def)
qed

lemma on_syn_sent_inv:
  assumes inv: "tcb_inv W t" and st: "state t = SynSent"
  shows "tcb_inv W (on_syn_sent seg now t)"
proof -
  obtain a nx m where ok: "snd_ok W t a nx m" and nx: "nx = 1" and out: "out_ok W t"
    using inv st unfolding tcb_inv_def by auto
  have a: "a = 0" "W = []" "\<not> fin_queued t" using snd_okD(11) [OF ok st] by auto
  have fs: "fin_seq t = None" by (rule snd_ok_syn [OF ok st])
  have m: "m = 1" using snd_okD(5,6) [OF ok] fs a nx by simp
  define t1 where "t1 = t\<lparr>rcv_nxt := seg_seq seg + 1, snd_una := seg_ack seg, snd_wnd := seg_window seg,
             mss := min (case seg_mss seg of None \<Rightarrow> DEFAULT_PEER_MSS | Some m \<Rightarrow> m) MSS,
             state := Established, retries := 0, rto := INITIAL_RTO, deadline := None\<rparr>"
  have syn_ack: "tcb_inv W (tcb_output now False (send_ack t1))" if "seg_ack seg = iss t + 1"
  proof (rule tcb_output_inv)
    have "snd_ok W t1 1 1 1"
      using snd_okD [OF ok] that a fs nx m unfolding t1_def by (intro snd_okI) simp_all
    then show "snd_ok W (send_ack t1) 1 1 1" by (rule snd_ok_cong) simp_all
    have "out_ok W t1" using out by (rule out_ok_cong) (simp_all add: t1_def)
    then show "out_ok W (send_ack t1)" by (rule send_ack_ok)
  qed (simp add: t1_def)
  have emit_inv: "tcb_inv W (emit \<lparr>x_port = local_port t, x_remote = remote t, x_seq = seg_ack seg,
      x_ack = 0, x_flags = RST, x_window = 0, x_payload = []\<rparr> t)"
    by (rule tcb_inv_cong [OF inv]) (simp_all add: out out_ok_empty has_def)
  have has_ack: "has f 0x10" if "f AND (2 OR 0x10) = (2 OR 0x10 :: u8)" for f
    by (rule both_flags(2) [OF that])
  show ?thesis
    using inv tcb_fail_inv [OF inv] emit_inv syn_ack has_ack [of "seg_flags seg"]
    unfolding on_syn_sent_def t1_def by (auto simp del: bit.conj_disj_distrib)
qed

lemma ack_states_fields [simp]:
  "iss (ack_states now t) = iss t" "snd_una (ack_states now t) = snd_una t"
  "snd_nxt (ack_states now t) = snd_nxt t" "snd_max (ack_states now t) = snd_max t"
  "snd_wnd (ack_states now t) = snd_wnd t" "mss (ack_states now t) = mss t"
  "send_buf (ack_states now t) = send_buf t" "fin_queued (ack_states now t) = fin_queued t"
  "fin_seq (ack_states now t) = fin_seq t" "fin_acked (ack_states now t) = fin_acked t"
  "rcv_nxt (ack_states now t) = rcv_nxt t" "recv_buf (ack_states now t) = recv_buf t"
  "peer_fin (ack_states now t) = peer_fin t" "user_closed (ack_states now t) = user_closed t"
  "error (ack_states now t) = error t" "rto (ack_states now t) = rto t"
  "retries (ack_states now t) = retries t" "outbox (ack_states now t) = outbox t"
  "advertised (ack_states now t) = advertised t"
  by (simp_all add: ack_states_def split: TcpState.split)

lemma ack_advance_fields [simp]:
  "state (ack_advance seg now t) = state t" "iss (ack_advance seg now t) = iss t"
  "snd_una (ack_advance seg now t) = seg_ack seg" "snd_max (ack_advance seg now t) = snd_max t"
  "snd_nxt (ack_advance seg now t) = (if seq_lt (snd_nxt t) (seg_ack seg) then seg_ack seg else snd_nxt t)"
  "send_buf (ack_advance seg now t) = drop (unat (seg_ack seg - snd_una t)) (send_buf t)"
  "fin_queued (ack_advance seg now t) = fin_queued t" "fin_seq (ack_advance seg now t) = fin_seq t"
  "fin_acked (ack_advance seg now t) \<longleftrightarrow>
     fin_acked t \<or> (case fin_seq t of None \<Rightarrow> False | Some f \<Rightarrow> seq_lt f (seg_ack seg))"
  "outbox (ack_advance seg now t) = outbox t" "rcv_nxt (ack_advance seg now t) = rcv_nxt t"
  "recv_buf (ack_advance seg now t) = recv_buf t" "peer_fin (ack_advance seg now t) = peer_fin t"
  "user_closed (ack_advance seg now t) = user_closed t" "mss (ack_advance seg now t) = mss t"
  "error (ack_advance seg now t) = error t" "retries (ack_advance seg now t) = 0"
  "rto (ack_advance seg now t) = 100" "advertised (ack_advance seg now t) = advertised t"
  by (simp_all add: ack_advance_def Let_def min_def)

lemma ack_states_state:
  "state (ack_states now t) =
     (if fin_acked t
      then (case state t of FinWait1 \<Rightarrow> FinWait2 | Closing \<Rightarrow> Closed | LastAck \<Rightarrow> Closed | s \<Rightarrow> s)
      else state t)"
  by (simp add: ack_states_def split: TcpState.split)

lemma on_new_ack_ok:
  assumes ok: "snd_ok W t a nx m" and out: "out_ok W t" and st: "state t \<noteq> SynSent"
    and d: "seg_ack seg = snd_una t + of_nat d" "0 < d" "d \<le> m - a"
  shows "\<exists>nx. snd_ok W (on_new_ack seg now t) (a + d) nx m" "out_ok W (on_new_ack seg now t)"
    "state (on_new_ack seg now t) \<noteq> SynSent"
proof -
  let ?t = "on_new_ack seg now t"
  have a1: "1 \<le> a" by (rule snd_okD(12) [OF ok st])
  have le: "a \<le> nx" "nx \<le> m" by (rule snd_okD [OF ok])+
  have span: "m - a \<le> 8193" by (rule snd_ok_span [OF ok])
  have ack: "seg_ack seg = iss t + of_nat (a + d)" using d snd_okD(1) [OF ok] by simp
  have "seg_ack seg - snd_una t = of_nat d" using d by simp
  then have ud: "unat (seg_ack seg - snd_una t) = d" using d span by (simp add: unat_of_nat_small)
  have nxt: "snd_nxt ?t = iss t + of_nat (max nx (a + d))"
  proof (cases "nx \<le> a + d")
    case True
    moreover have "a + d - nx < 2 ^ 31" using d le span by simp
    ultimately show ?thesis
      unfolding on_new_ack_def ack_states_fields ack_advance_fields ack snd_okD(2) [OF ok]
      by (simp add: seq_lt_of_nat(1) max_def del: of_nat_add)
  next
    case False
    moreover have "nx - (a + d) < 2 ^ 31" using le span by simp
    ultimately show ?thesis
      unfolding on_new_ack_def ack_states_fields ack_advance_fields ack snd_okD(2) [OF ok]
      using seq_lt_of_nat(2) [of "a + d" nx "iss t"] by (simp del: of_nat_add)
  qed
  have fa: "fin_acked ?t \<longleftrightarrow> a + d = length W + 2"
  proof (cases "fin_seq t")
    case None
    then have "a + d \<le> 1 + length W" using d snd_okD(6) [OF ok] le by simp
    moreover have "\<not> fin_acked t" using calculation d(2) snd_okD(10) [OF ok] by auto
    ultimately show ?thesis using None by (simp add: on_new_ack_def)
  next
    case (Some f)
    then have f: "f = iss t + of_nat (1 + length W)" using snd_okD(9) [OF ok] by auto
    have m: "a + d \<le> 2 + length W" using d snd_okD(6) [OF ok] le Some by simp
    have "\<not> fin_acked t" using m d(2) snd_okD(10) [OF ok] by auto
    moreover have "seq_lt f (seg_ack seg) \<longleftrightarrow> a + d = length W + 2"
    proof (cases "a + d \<le> 1 + length W")
      case True
      have "length (send_buf t) \<le> 8192" by (rule snd_okD(8) [OF ok])
      then have "1 + length W - (a + d) < 2 ^ 31" using snd_okD(7) [OF ok] a1 by simp
      from seq_lt_of_nat(2) [OF True this, of "iss t"] show ?thesis
        unfolding f ack using True by simp
    next
      case False
      then have "a + d = 2 + length W" using m by simp
      then show ?thesis unfolding f ack using seq_lt_of_nat(1) [of "1 + length W" "2 + length W" "iss t"]
        by simp
    qed
    ultimately show ?thesis using Some by (simp add: on_new_ack_def)
  qed
  show st': "state ?t \<noteq> SynSent" using st by (auto simp: on_new_ack_def ack_states_state split: TcpState.splits)
  have "snd_ok W ?t (a + d) (max nx (a + d)) m"
  proof (rule snd_okI)
    show "send_buf ?t = drop (a + d - 1) W"
      using a1 snd_okD(7) [OF ok] by (simp add: on_new_ack_def ud add.commute)
    show "length (send_buf ?t) \<le> 8192" using snd_okD(8) [OF ok] by (simp add: on_new_ack_def)
    show "snd_nxt ?t = iss ?t + of_nat (max nx (a + d))" using nxt by (simp add: on_new_ack_def)
    show "fin_acked ?t \<longleftrightarrow> a + d = length W + 2" by (rule fa)
    show "snd_una ?t = iss ?t + of_nat (a + d)" using ack by (simp add: on_new_ack_def)
    show "snd_max ?t = iss ?t + of_nat m" using snd_okD(3) [OF ok] by (simp add: on_new_ack_def)
    show "m \<le> 1 + length W + (if fin_seq ?t = None then 0 else 1)"
      using snd_okD(6) [OF ok] by (simp add: on_new_ack_def)
    show "fin_queued ?t \<and> f = iss ?t + of_nat (1 + length W)" if "fin_seq ?t = Some f" for f
      using snd_okD(9) [OF ok, of f] that by (simp add: on_new_ack_def)
  qed (use a1 d le st' in auto)
  then show "\<exists>nx. snd_ok W ?t (a + d) nx m" by blast
  show "out_ok W ?t" by (rule out_ok_cong [OF out]) (simp_all add: on_new_ack_def)
qed

lemma accept_data_send_fields [simp]:
  "iss (accept_data seg t) = iss t" "snd_una (accept_data seg t) = snd_una t"
  "snd_nxt (accept_data seg t) = snd_nxt t" "snd_max (accept_data seg t) = snd_max t"
  "snd_wnd (accept_data seg t) = snd_wnd t" "mss (accept_data seg t) = mss t"
  "send_buf (accept_data seg t) = send_buf t" "fin_queued (accept_data seg t) = fin_queued t"
  "fin_seq (accept_data seg t) = fin_seq t" "fin_acked (accept_data seg t) = fin_acked t"
  "error (accept_data seg t) = error t" "rto (accept_data seg t) = rto t"
  "retries (accept_data seg t) = retries t" "outbox (accept_data seg t) = outbox t"
  "user_closed (accept_data seg t) = user_closed t"
  by (simp_all add: accept_data_def Let_def)

lemma accept_data_state:
  "state t \<noteq> SynSent \<Longrightarrow> state (accept_data seg t) \<noteq> SynSent"
  "state t = Closed \<Longrightarrow> state (accept_data seg t) = Closed"
  by (auto simp: accept_data_def Let_def split: TcpState.splits)

lemma on_payload_inv:
  assumes inv: "tcb_inv W t" and st: "state t \<noteq> SynSent"
  shows "tcb_inv W (on_payload seg t)" "state (on_payload seg t) \<noteq> SynSent"
proof -
  have acc: "tcb_inv W (accept_data seg t)"
  proof (cases "state t = Closed")
    case True
    have "out_ok W (accept_data seg t)" by (rule out_ok_cong [OF tcb_inv_out [OF inv]]) simp_all
    then show ?thesis using accept_data_state(2) [OF True] by (rule tcb_inv_closed)
  next
    case False
    then obtain a nx m where ok: "snd_ok W t a nx m" "out_ok W t" using inv st by (elim tcb_invE)
    have "snd_ok W (accept_data seg t) a nx m"
      by (rule snd_ok_cong [OF ok(1)]) (simp_all add: st accept_data_state)
    moreover have "out_ok W (accept_data seg t)" by (rule out_ok_cong [OF ok(2)]) simp_all
    ultimately show ?thesis using accept_data_state(1) [OF st] by (rule tcb_invI)
  qed
  show "tcb_inv W (on_payload seg t)"
    using inv send_ack_inv [OF acc] send_ack_inv [OF inv] by (simp add: on_payload_def)
  show "state (on_payload seg t) \<noteq> SynSent"
    using st accept_data_state(1) [OF st] by (simp add: on_payload_def)
qed

lemma tcb_inv_same:
  assumes inv: "tcb_inv W t" and same: "outbox t' = outbox t" "state t' = state t"
    "iss t' = iss t" "snd_una t' = snd_una t" "snd_nxt t' = snd_nxt t"
    "snd_max t' = snd_max t" "send_buf t' = send_buf t" "fin_queued t' = fin_queued t"
    "fin_seq t' = fin_seq t" "fin_acked t' = fin_acked t"
  shows "tcb_inv W t'"
  using inv out_ok_cong [OF tcb_inv_out [OF inv]] by (rule tcb_inv_cong) (simp_all add: same)

lemma tcb_inv_upd:
  assumes inv: "tcb_inv W t"
  shows "tcb_inv W (t\<lparr>snd_wnd := w\<rparr>)" "tcb_inv W (t\<lparr>retries := r\<rparr>)"
    "tcb_inv W (t\<lparr>recv_buf := b\<rparr>)" "tcb_inv W (t\<lparr>user_closed := c\<rparr>)" "tcb_inv W (arm now t)"
  by (rule tcb_inv_same [OF inv]; simp)+

text \<open>An acknowledgement half the sequence space ahead of \<open>snd_una\<close> is not a sane one.\<close>

definition sane_ack :: "Segment \<Rightarrow> Tcb \<Rightarrow> bool" where
  "sane_ack seg t \<longleftrightarrow> seg_ack seg - snd_una t \<noteq> 0x80000000"

lemma new_ack_distance:
  assumes ok: "snd_ok W t a nx m"
    and n: "seq_lt (snd_una t) (seg_ack seg) \<and> seq_le (seg_ack seg) (snd_max t)" and sane: "sane_ack seg t"
  obtains d where "seg_ack seg = snd_una t + of_nat d" "0 < d" "d \<le> m - a"
proof -
  have "a \<le> m" using snd_okD(4,5) [OF ok] by simp
  then have mx: "snd_max t = snd_una t + of_nat (m - a)"
    using snd_okD(1,3) [OF ok] by (simp add: of_nat_diff)
  have "m - a < 2 ^ 31" using snd_ok_span(2) [OF ok] by simp
  then show thesis
    using that ack_in_window [of "snd_una t" "seg_ack seg" "m - a"] n sane mx
    unfolding sane_ack_def by metis
qed

lemma on_segment_inv:
  assumes inv: "tcb_inv W t" and sane: "sane_ack seg t"
  shows "tcb_inv W (on_segment seg now t)"
proof -
  let ?new = "seq_lt (snd_una t) (seg_ack seg) \<and> seq_le (seg_ack seg) (snd_max t)"
  have new: "tcb_inv W (tcb_output now False (on_payload seg ((on_new_ack seg now t)\<lparr>snd_wnd := seg_window seg\<rparr>)))"
    if st: "state t \<noteq> Closed" "state t \<noteq> SynSent" and n: ?new
  proof -
    obtain a nx m where ok: "snd_ok W t a nx m" and out: "out_ok W t" using inv st by (elim tcb_invE)
    obtain d where d: "seg_ack seg = snd_una t + of_nat d" "0 < d" "d \<le> m - a"
      using new_ack_distance [OF ok n sane] by blast
    note one = on_new_ack_ok [OF ok out st(2) d, of now]
    have "tcb_inv W (on_new_ack seg now t)" using one tcb_invI by blast
    then have "tcb_inv W ((on_new_ack seg now t)\<lparr>snd_wnd := seg_window seg\<rparr>)" by (rule tcb_inv_upd)
    from on_payload_inv [OF this, of seg] one(3) show ?thesis by (simp add: tcb_output_inv')
  qed
  have old: "tcb_inv W (tcb_output now False (on_payload seg (t'\<lparr>snd_wnd := seg_window seg\<rparr>)))"
    if st: "state t \<noteq> SynSent" and t': "t' = t \<or> t' = t\<lparr>retries := 0\<rparr>" for t'
  proof -
    have "tcb_inv W (t'\<lparr>snd_wnd := seg_window seg\<rparr>)" using t' inv by (auto intro: tcb_inv_upd)
    from on_payload_inv [OF this, of seg] st t' show ?thesis by (auto simp: tcb_output_inv')
  qed
  define x where "x = (let t = (if seg_ack seg = snd_una t \<and> seg_window seg = 0 then t\<lparr>retries := 0\<rparr> else t)
         in tcb_output now False (on_payload seg (t\<lparr>snd_wnd := seg_window seg\<rparr>)))"
  have "tcb_inv W x" if "state t \<noteq> SynSent"
    unfolding x_def Let_def by (rule old [OF that]) simp
  then show ?thesis
    using inv on_syn_sent_inv [OF inv] tcb_fail_inv [OF inv] send_ack_inv [OF inv] new
    unfolding on_segment_def x_def [symmetric] by (simp add: Let_def)
qed

section \<open>The timer and the user keep the invariant\<close>

lemma tcb_on_timer_inv:
  assumes inv: "tcb_inv W t"
  shows "tcb_inv W (tcb_on_timer now t)"
proof -
  have out: "out_ok W t" by (rule tcb_inv_out [OF inv])
  have out': "out_ok W t'" if "outbox t' = outbox t" "iss t' = iss t" "fin_queued t' = fin_queued t" for t'
    by (rule out_ok_cong [OF out]) (simp_all add: that)
  let ?t1 = "t\<lparr>deadline := None, retries := retries t + 1\<rparr>"
  let ?t2 = "?t1\<lparr>rto := min (rto t * 2) MAX_RTO,
                 snd_nxt := (if state t = SynSent then iss t else snd_una t)\<rparr>"
  have resend: "tcb_inv W (tcb_output now True ?t2)"
  proof (cases "state t = Closed")
    case True
    then show ?thesis by (simp add: tcb_inv_closed out')
  next
    case nc: False
    show ?thesis
    proof (cases "state t = SynSent")
      case True
      obtain a nx m where ok: "snd_ok W t a nx m" using inv nc unfolding tcb_inv_def by blast
      have a: "a = 0" "W = []" "\<not> fin_queued t" using snd_okD(11) [OF ok True] by auto
      have "snd_ok W ?t2 0 0 m"
        using snd_okD [OF ok] a True by (intro snd_okI) (simp_all del: of_nat_add of_nat_Suc)
      from tcb_output_syn [OF this _ out'] True have "snd_ok W (tcb_output now True ?t2) 0 1 1"
        "out_ok W (tcb_output now True ?t2)" by simp_all
      then show ?thesis unfolding tcb_inv_def by blast
    next
      case False
      then obtain a nx m where ok: "snd_ok W t a nx m" using inv nc by (elim tcb_invE)
      have "snd_ok W ?t2 a a m"
        using snd_okD [OF ok] False by (intro snd_okI) (simp_all del: of_nat_add of_nat_Suc)
      then show ?thesis by (rule tcb_output_inv) (use False out' in simp_all)
    qed
  qed
  have "tcb_inv W (t\<lparr>deadline := None, state := Closed\<rparr>)" by (rule tcb_inv_closed) (simp_all add: out')
  moreover have "tcb_inv W (tcb_fail TimedOut ?t1)" by (rule tcb_inv_closed) (simp_all add: out')
  ultimately show ?thesis
    using inv tcb_inv_upd(5) [OF resend, of now]
    by (cases "state t = SynSent") (simp_all add: tcb_on_timer_def Let_def split: option.split)
qed

lemma write_allowed:
  "write_error t = None \<Longrightarrow> state t \<in> {Established, CloseWait} \<and> \<not> fin_queued t"
  by (auto simp: write_error_def split: option.splits if_splits)

lemma queue_data_inv:
  assumes inv: "tcb_inv W t" and e: "write_error t = None"
    and len: "length (send_buf t) + length d \<le> SEND_CAP"
  shows "tcb_inv (W @ d) (t\<lparr>send_buf := send_buf t @ d\<rparr>)"
proof -
  have st: "state t \<in> {Established, CloseWait}" and fq: "\<not> fin_queued t"
    using write_allowed [OF e] by auto
  then obtain a nx m where ok: "snd_ok W t a nx m" and out: "out_ok W t" and a1: "1 \<le> a"
    using inv by (auto elim: tcb_invE)
  have fs: "fin_seq t = None" using snd_okD(9) [OF ok] fq by (cases "fin_seq t") auto
  have aW: "a \<le> 1 + length W" using snd_okD(4,5,6) [OF ok] fs by simp
  let ?t = "t\<lparr>send_buf := send_buf t @ d\<rparr>"
  have "snd_ok (W @ d) ?t a nx m"
  proof (rule snd_okI)
    show "send_buf ?t = drop (a - 1) (W @ d)" using snd_okD(7) [OF ok] aW by simp
    show "length (send_buf ?t) \<le> 8192" using len by simp
    show "fin_acked ?t \<longleftrightarrow> a = length (W @ d) + 2" using snd_okD(10) [OF ok] aW by auto
  qed (use snd_okD(1-6) [OF ok] fs st a1 in auto)
  moreover have "out_ok (W @ d) ?t" using out fq by (auto simp: out_ok_def carried_append)
  ultimately show ?thesis using st by (intro tcb_invI) auto
qed

lemma tcb_write_queues:
  assumes "tcb_write now data written t = (WriteQueues k, t')"
  obtains d where "d = slice_of written k data" "write_error t = None"
    "length (send_buf t) + length d \<le> SEND_CAP"
    "t' = tcb_output now False (t\<lparr>send_buf := send_buf t @ d\<rparr>)"
proof -
  let ?n = "min (SEND_CAP - length (send_buf t)) (length data - written)"
  have w: "write_error t = None" "0 < ?n" "k = written + ?n"
    "t' = tcb_output now False (t\<lparr>send_buf := send_buf t @ slice_of written (written + ?n) data\<rparr>)"
    using assms by (auto simp: tcb_write_def Let_def split: option.splits if_splits)
  have len: "length (slice_of written k data) = ?n" using w(2,3) by simp
  show thesis
    by (rule that [of "slice_of written k data"]) (use w len in auto)
qed

lemma tcb_write_inv:
  assumes inv: "tcb_inv W t" and w: "tcb_write now data written t = (WriteQueues k, t')"
  shows "tcb_inv (W @ slice_of written k data) t'"
  using w
proof (rule tcb_write_queues)
  fix d assume d: "d = slice_of written k data" "write_error t = None"
    "length (send_buf t) + length d \<le> SEND_CAP"
    and t': "t' = tcb_output now False (t\<lparr>send_buf := send_buf t @ d\<rparr>)"
  from queue_data_inv [OF inv d(2,3)] write_allowed [OF d(2)] show ?thesis
    unfolding t' d(1) [symmetric] by (intro tcb_output_inv') auto
qed

lemma queue_fin_inv:
  assumes inv: "tcb_inv W t" and st: "state t \<in> {Established, CloseWait}"
  shows "tcb_inv W (t\<lparr>fin_queued := True\<rparr>)"
proof -
  obtain a nx m where ok: "snd_ok W t a nx m" "out_ok W t" using inv st by (auto elim: tcb_invE)
  have "snd_ok W (t\<lparr>fin_queued := True\<rparr>) a nx m"
    using snd_okD [OF ok(1)] st by (intro snd_okI) (auto simp del: of_nat_add of_nat_Suc)
  moreover have "out_ok W (t\<lparr>fin_queued := True\<rparr>)" by (rule out_ok_cong [OF ok(2)]) simp_all
  ultimately show ?thesis using st by (intro tcb_invI) auto
qed

lemma tcb_close_inv:
  assumes inv: "tcb_inv W t"
  shows "tcb_inv W (tcb_close now t)"
proof -
  let ?t = "t\<lparr>user_closed := True, recv_buf := []\<rparr>"
  have t: "tcb_inv W ?t" using tcb_inv_upd(3) [OF tcb_inv_upd(4) [OF inv]] .
  have "out_ok W (?t\<lparr>state := Closed\<rparr>)" by (rule out_ok_cong [OF tcb_inv_out [OF inv]]) simp_all
  then have "tcb_inv W (?t\<lparr>state := Closed\<rparr>)" by (rule tcb_inv_closed) simp
  moreover have "tcb_inv W (tcb_output now False (?t\<lparr>fin_queued := True\<rparr>))"
    if "state t \<in> {Established, CloseWait}"
    by (rule tcb_output_inv' [OF queue_fin_inv [OF t]]) (use that in auto)
  ultimately show ?thesis using t by (simp add: tcb_close_def Let_def)
qed

lemma tcb_read_inv:
  assumes "tcb_inv W t" "tcb_read n t = (r, t')"
  shows "tcb_inv W t'"
  using assms by (auto simp: tcb_read_def Let_def split: if_splits option.splits TcpState.splits
      intro!: send_ack_inv tcb_inv_upd)

lemma tcb_connect_inv: "tcb_inv [] (tcb_connect p rem isn now tcb_new)"
proof -
  let ?t = "tcb_new\<lparr>local_port := p, remote := rem, iss := isn, snd_una := isn, snd_nxt := isn,
          snd_max := isn, state := SynSent\<rparr>"
  have "snd_ok [] ?t 0 0 0" by (rule snd_okI) (simp_all add: tcb_new_def)
  moreover have "out_ok [] ?t" by (simp add: out_ok_def tcb_new_def)
  ultimately show ?thesis
    using tcb_output_syn [of "[]" ?t 0 now False] unfolding tcb_connect_def tcb_inv_def by auto
qed

section \<open>Runs of a connection\<close>

text \<open>
  A connection from its SYN on. \<open>W\<close> is everything the user has queued with \<open>write\<close>,
  \<open>R\<close> everything \<open>read\<close> has returned; \<open>ok\<close> restricts the segments that arrive.
  The outbox accumulates the segments transmitted.
\<close>

inductive tcp_reach :: "(Segment \<Rightarrow> bool) \<Rightarrow> bytes \<Rightarrow> bytes \<Rightarrow> Tcb \<Rightarrow> bool" for ok where
  reach_connect: "tcp_reach ok [] [] (tcb_connect p rem isn now tcb_new)"
| reach_segment: "tcp_reach ok W R t \<Longrightarrow> ok seg \<Longrightarrow> sane_ack seg t \<Longrightarrow> tcp_reach ok W R (on_segment seg now t)"
| reach_timer: "tcp_reach ok W R t \<Longrightarrow> tcp_reach ok W R (tcb_on_timer now t)"
| reach_read: "tcp_reach ok W R t \<Longrightarrow> \<not> user_closed t \<Longrightarrow> tcb_read n t = (Some (Inr bs), t')
    \<Longrightarrow> tcp_reach ok W (R @ bs) t'"
| reach_write: "tcp_reach ok W R t \<Longrightarrow> \<not> user_closed t
    \<Longrightarrow> tcb_write now data written t = (WriteQueues k, t')
    \<Longrightarrow> tcp_reach ok (W @ slice_of written k data) R t'"
| reach_close: "tcp_reach ok W R t \<Longrightarrow> tcp_reach ok W R (tcb_close now t)"

lemma tcp_reach_inv: "tcp_reach ok W R t \<Longrightarrow> tcb_inv W t"
  by (induction rule: tcp_reach.induct)
    (auto intro: tcb_connect_inv on_segment_inv tcb_on_timer_inv tcb_write_inv tcb_close_inv
      dest: tcb_read_inv)

section \<open>What output leaves alone\<close>

lemma output_fin_fields [simp]:
  "iss (output_fin now t) = iss t" "snd_una (output_fin now t) = snd_una t"
  "send_buf (output_fin now t) = send_buf t" "fin_queued (output_fin now t) = fin_queued t"
  "mss (output_fin now t) = mss t" "recv_buf (output_fin now t) = recv_buf t"
  "rcv_nxt (output_fin now t) = rcv_nxt t" "peer_fin (output_fin now t) = peer_fin t"
  "user_closed (output_fin now t) = user_closed t" "error (output_fin now t) = error t"
  "fin_acked (output_fin now t) = fin_acked t" "rto (output_fin now t) = rto t"
  "retries (output_fin now t) = retries t" "snd_wnd (output_fin now t) = snd_wnd t"
  by (simp_all add: output_fin_def Let_def)

lemma tcb_output_fields [simp]:
  "iss (tcb_output now probe t) = iss t" "snd_una (tcb_output now probe t) = snd_una t"
  "send_buf (tcb_output now probe t) = send_buf t" "fin_queued (tcb_output now probe t) = fin_queued t"
  "mss (tcb_output now probe t) = mss t" "recv_buf (tcb_output now probe t) = recv_buf t"
  "rcv_nxt (tcb_output now probe t) = rcv_nxt t" "peer_fin (tcb_output now probe t) = peer_fin t"
  "user_closed (tcb_output now probe t) = user_closed t" "error (tcb_output now probe t) = error t"
  "fin_acked (tcb_output now probe t) = fin_acked t" "rto (tcb_output now probe t) = rto t"
  "retries (tcb_output now probe t) = retries t" "snd_wnd (tcb_output now probe t) = snd_wnd t"
  by (simp_all add: tcb_output_def Let_def del: output_loop.simps)

text \<open>Output moves \<open>Established\<close> and \<open>CloseWait\<close> on only when a close has queued the FIN.\<close>

lemma tcb_output_state:
  "state (tcb_output now probe t) = state t \<or>
     fin_queued t \<and> (state t = Established \<and> state (tcb_output now probe t) = FinWait1 \<or>
                     state t = CloseWait \<and> state (tcb_output now probe t) = LastAck)"
  by (auto simp: tcb_output_def output_fin_def Let_def split: TcpState.splits simp del: output_loop.simps)

section \<open>The receive side\<close>

text \<open>
  \<open>honest irs P seg\<close>: the segment is one that a peer with initial sequence number
  \<open>irs\<close> sending the stream \<open>P\<close> may produce: its payload is the part of \<open>P\<close> at its
  sequence number, and its FIN follows the last byte.
\<close>

definition honest :: "u32 \<Rightarrow> bytes \<Rightarrow> Segment \<Rightarrow> bool" where
  "honest irs P seg \<longleftrightarrow>
     (has (seg_flags seg) SYN \<longrightarrow> seg_seq seg = irs) \<and>
     (\<not> has (seg_flags seg) SYN \<and> (seg_payload seg \<noteq> [] \<or> has (seg_flags seg) FIN) \<longrightarrow>
       (\<exists>k. seg_seq seg = irs + 1 + of_nat k \<and> k + length (seg_payload seg) \<le> length P
          \<and> seg_payload seg = take (length (seg_payload seg)) (drop k P)
          \<and> (has (seg_flags seg) FIN \<longrightarrow> k + length (seg_payload seg) = length P)))"

definition fresh_rcv :: "bytes \<Rightarrow> Tcb \<Rightarrow> bool" where
  "fresh_rcv R t \<longleftrightarrow> state t \<in> {Idle, SynSent, Closed} \<and> R = [] \<and> recv_buf t = [] \<and> \<not> peer_fin t"

definition rcv_ok :: "u32 \<Rightarrow> bytes \<Rightarrow> bytes \<Rightarrow> Tcb \<Rightarrow> nat \<Rightarrow> bool" where
  "rcv_ok irs P R t c \<longleftrightarrow>
     state t \<notin> {Idle, SynSent} \<and> c \<le> length P
     \<and> rcv_nxt t = irs + 1 + of_nat (c + (if peer_fin t then 1 else 0))
     \<and> (peer_fin t \<longrightarrow> c = length P)
     \<and> prefix R P
     \<and> (user_closed t \<longrightarrow> recv_buf t = [])
     \<and> (\<not> user_closed t \<longrightarrow> R @ recv_buf t = take c P)
     \<and> (state t \<in> {Established, FinWait1, FinWait2} \<longrightarrow> \<not> peer_fin t)"

definition rcv_inv :: "u32 \<Rightarrow> bytes \<Rightarrow> bytes \<Rightarrow> Tcb \<Rightarrow> bool" where
  "rcv_inv irs P R t \<longleftrightarrow> fresh_rcv R t \<or> (\<exists>c. rcv_ok irs P R t c)"

lemma rcv_ok_cong:
  assumes "rcv_ok irs P R t c" "state t' = state t \<or> state t' \<notin> {Idle, SynSent, Established, FinWait1, FinWait2}
      \<or> state t \<in> {Established, FinWait1, FinWait2} \<and> state t' \<notin> {Idle, SynSent}"
    "rcv_nxt t' = rcv_nxt t" "recv_buf t' = recv_buf t" "peer_fin t' = peer_fin t"
    "user_closed t' = user_closed t"
  shows "rcv_ok irs P R t' c"
  using assms unfolding rcv_ok_def by auto

lemma rcv_inv_cong:
  assumes "rcv_inv irs P R t" "state t' = state t \<or> state t' = Closed
      \<or> state t' = LastAck \<and> state t = CloseWait
      \<or> state t \<in> {Established, FinWait1} \<and> state t' \<in> {FinWait1, FinWait2}"
    "rcv_nxt t' = rcv_nxt t" "recv_buf t' = recv_buf t" "peer_fin t' = peer_fin t"
    "user_closed t' = user_closed t"
  shows "rcv_inv irs P R t'"
  using assms(1) unfolding rcv_inv_def
proof (elim disjE exE)
  assume "fresh_rcv R t"
  then show "fresh_rcv R t' \<or> (\<exists>c. rcv_ok irs P R t' c)"
    using assms(2-) by (auto simp: fresh_rcv_def)
next
  fix c assume "rcv_ok irs P R t c"
  then have "rcv_ok irs P R t' c" by (rule rcv_ok_cong) (use assms(2-) in auto)
  then show "fresh_rcv R t' \<or> (\<exists>c. rcv_ok irs P R t' c)" by blast
qed

lemma rcv_output: "rcv_inv irs P R t \<Longrightarrow> rcv_inv irs P R (tcb_output now probe t)"
  using tcb_output_state [of now probe t] by (elim rcv_inv_cong) auto

lemma of_nat_pos_eq:
  assumes e: "(of_nat i :: u32) = of_nat j" and b: "i \<le> n" "j \<le> n" "n < 2 ^ 32"
  shows "i = j"
proof -
  have "i < 2 ^ LENGTH(32)" "j < 2 ^ LENGTH(32)" using b by (auto intro: le_less_trans)
  then have "unat (of_nat i :: u32) = i" "unat (of_nat j :: u32) = j"
    by (simp_all only: unat_of_nat_small)
  then show ?thesis using e by metis
qed

lemma rcv_okI:
  assumes "state t \<notin> {Idle, SynSent}" "c \<le> length P"
    "rcv_nxt t = irs + 1 + of_nat (c + (if peer_fin t then 1 else 0))"
    "peer_fin t \<Longrightarrow> c = length P" "prefix R P" "user_closed t \<Longrightarrow> recv_buf t = []"
    "\<not> user_closed t \<Longrightarrow> R @ recv_buf t = take c P"
    "state t \<in> {Established, FinWait1, FinWait2} \<Longrightarrow> \<not> peer_fin t"
  shows "rcv_ok irs P R t c"
  using assms unfolding rcv_ok_def by blast

lemma rcv_okD:
  assumes "rcv_ok irs P R t c"
  shows "state t \<notin> {Idle, SynSent}" "c \<le> length P"
    "rcv_nxt t = irs + 1 + of_nat (c + (if peer_fin t then 1 else 0))"
    "peer_fin t \<Longrightarrow> c = length P" "prefix R P" "user_closed t \<Longrightarrow> recv_buf t = []"
    "\<not> user_closed t \<Longrightarrow> R @ recv_buf t = take c P"
    "state t \<in> {Established, FinWait1, FinWait2} \<Longrightarrow> \<not> peer_fin t"
  using assms unfolding rcv_ok_def by blast+

text \<open>In-order data extends what has been received by the next part of the stream.\<close>

lemma accept_data_ok:
  assumes ok: "rcv_ok irs P R t c" and h: "honest irs P seg" and P: "length P < 2 ^ 32"
    and here: "seg_seq seg = rcv_nxt t" and syn: "\<not> has (seg_flags seg) SYN"
    and data: "seg_payload seg \<noteq> [] \<or> has (seg_flags seg) FIN"
  shows "\<exists>c. rcv_ok irs P R (accept_data seg t) c"
proof (cases "state t \<in> {Established, FinWait1, FinWait2}")
  case False
  then have "accept_data seg t = t" unfolding accept_data_def Let_def by (simp only: if_False simp_thms)
  then show ?thesis using ok by (simp only:) (rule exI)
next
  case acc: True
  obtain k where k: "seg_seq seg = irs + 1 + of_nat k" "k + length (seg_payload seg) \<le> length P"
    "seg_payload seg = take (length (seg_payload seg)) (drop k P)"
    "has (seg_flags seg) FIN \<longrightarrow> k + length (seg_payload seg) = length P"
    using h syn data unfolding honest_def by blast
  have pf: "\<not> peer_fin t" and c: "c \<le> length P" and nxt: "rcv_nxt t = irs + 1 + of_nat c"
    using rcv_okD [OF ok] acc by simp_all
  have "(of_nat k :: u32) = of_nat c" using k(1) here nxt by simp
  then have kc: "k = c" by (rule of_nat_pos_eq [of _ _ "length P"]) (use k(2) c P in simp_all)
  let ?l = "length (seg_payload seg)"
  define taken where "taken = (if user_closed t then ?l else min ?l (RECV_CAP - length (recv_buf t)))"
  have tl: "taken \<le> ?l" by (simp add: taken_def)
  have ext: "take c P @ take taken (seg_payload seg) = take (c + taken) P"
  proof -
    have "take taken (seg_payload seg) = take taken (drop c P)"
      by (subst k(3)) (simp add: kc tl min_absorb1 take_take)
    then show ?thesis by (simp add: take_add)
  qed
  define t1 where "t1 = t\<lparr>recv_buf := (if user_closed t then recv_buf t
                 else recv_buf t @ take taken (seg_payload seg)), rcv_nxt := rcv_nxt t + of_nat taken\<rparr>"
  have t1: "rcv_ok irs P R t1 (c + taken)"
  proof (rule rcv_okI)
    show "R @ recv_buf t1 = take (c + taken) P" if "\<not> user_closed t1"
      using that rcv_okD(7) [OF ok] ext by (simp add: t1_def flip: append_assoc)
    show "recv_buf t1 = []" if "user_closed t1" using that rcv_okD(6) [OF ok] by (simp add: t1_def)
  qed (use rcv_okD(1,5) [OF ok] pf kc k(2) tl nxt in \<open>simp_all add: t1_def\<close>)
  define t2 where "t2 = t1\<lparr>rcv_nxt := rcv_nxt t1 + 1, peer_fin := True,
                 state := (case state t1 of Established \<Rightarrow> CloseWait | FinWait1 \<Rightarrow> Closing
                               | FinWait2 \<Rightarrow> Closed | s \<Rightarrow> s)\<rparr>"
  have eq: "accept_data seg t =
      (if has (seg_flags seg) FIN \<and> taken = ?l
       then (if state t2 = Closed then t2\<lparr>deadline := None\<rparr> else t2) else t1)"
    using acc unfolding accept_data_def Let_def t2_def t1_def taken_def by simp
  have st1: "state t1 \<in> {Established, FinWait1, FinWait2}" using acc by (simp add: t1_def)
  have t2: "rcv_ok irs P R t2 (c + taken)" if "c + taken = length P"
  proof (rule rcv_okI)
    have "\<not> peer_fin t1" using rcv_okD(8) [OF t1 st1] .
    then show "rcv_nxt t2 = irs + 1 + of_nat (c + taken + (if peer_fin t2 then 1 else 0))"
      using rcv_okD(3) [OF t1] by (simp add: t2_def)
  qed (use that rcv_okD(2,5-7) [OF t1] st1 in \<open>auto simp: t2_def\<close>)
  have fin0: "rcv_ok irs P R (if state t2 = Closed then t2\<lparr>deadline := None\<rparr> else t2) (c + taken)"
    if "c + taken = length P"
    by (rule rcv_ok_cong [OF t2 [OF that]]) simp_all
  have fin: "rcv_ok irs P R (if state t2 = Closed then t2\<lparr>deadline := None\<rparr> else t2) (c + taken)"
    if f: "has (seg_flags seg) FIN \<and> taken = ?l"
  proof -
    have "k + ?l = length P" using k(4) f by (rule mp [OF _ conjunct1])
    then have "c + taken = length P" using conjunct2 [OF f] kc by (simp only:)
    then show ?thesis by (rule fin0)
  qed
  show ?thesis
  proof (cases "has (seg_flags seg) FIN \<and> taken = ?l")
    case True
    show ?thesis unfolding eq if_P [OF True] using fin [OF True] by (rule exI)
  next
    case False
    show ?thesis unfolding eq if_not_P [OF False] using t1 by (rule exI)
  qed
qed

lemma rcv_same:
  assumes "rcv_inv irs P R t" "state t' = state t" "rcv_nxt t' = rcv_nxt t" "recv_buf t' = recv_buf t"
    "peer_fin t' = peer_fin t" "user_closed t' = user_closed t"
  shows "rcv_inv irs P R t'"
  by (rule rcv_inv_cong [OF assms(1)]) (simp_all add: assms)

lemma rcv_send_ack: "rcv_inv irs P R t \<Longrightarrow> rcv_inv irs P R (send_ack t)"
  by (erule rcv_same) simp_all

lemma rcv_fail: "rcv_inv irs P R t \<Longrightarrow> rcv_inv irs P R (tcb_fail e t)"
  by (erule rcv_inv_cong) simp_all

lemma rcv_on_payload:
  assumes inv: "rcv_inv irs P R t" and st: "state t \<notin> {Idle, SynSent}" and h: "honest irs P seg"
    and P: "length P < 2 ^ 32" and syn: "\<not> has (seg_flags seg) SYN"
  shows "rcv_inv irs P R (on_payload seg t)"
proof (cases "seg_payload seg \<noteq> [] \<or> has (seg_flags seg) FIN")
  case False
  then show ?thesis using inv by (simp add: on_payload_def)
next
  case True
  have "rcv_inv irs P R (accept_data seg t)" if here: "seg_seq seg = rcv_nxt t"
    using inv unfolding rcv_inv_def
  proof (elim disjE exE)
    assume f: "fresh_rcv R t"
    then have "state t = Closed" using st by (simp add: fresh_rcv_def)
    then have "accept_data seg t = t" by (simp add: accept_data_def)
    then show "fresh_rcv R (accept_data seg t) \<or> (\<exists>c. rcv_ok irs P R (accept_data seg t) c)"
      using f by simp
  next
    fix c assume "rcv_ok irs P R t c"
    from accept_data_ok [OF this h P here syn True]
    show "fresh_rcv R (accept_data seg t) \<or> (\<exists>c. rcv_ok irs P R (accept_data seg t) c)" by blast
  qed
  then show ?thesis using True inv rcv_send_ack by (simp add: on_payload_def)
qed

lemma rcv_new_ack:
  assumes "rcv_inv irs P R t"
  shows "rcv_inv irs P R (on_new_ack seg now t)"
  by (rule rcv_inv_cong [OF assms])
    (simp_all add: on_new_ack_def ack_states_state split: TcpState.split)

lemma rcv_on_segment:
  assumes inv: "rcv_inv irs P R t" and h: "honest irs P seg" and P: "length P < 2 ^ 32"
  shows "rcv_inv irs P R (on_segment seg now t)"
proof (cases "state t \<in> {Idle, SynSent, Closed}")
  case True
  show ?thesis
  proof (cases "state t = SynSent")
    case st: True
    have fresh: "R = []" "recv_buf t = []" "\<not> peer_fin t"
      using inv st unfolding rcv_inv_def by (auto simp: fresh_rcv_def rcv_ok_def)
    define t1 where "t1 = t\<lparr>rcv_nxt := seg_seq seg + 1, snd_una := seg_ack seg, snd_wnd := seg_window seg,
             mss := min (case seg_mss seg of None \<Rightarrow> DEFAULT_PEER_MSS | Some m \<Rightarrow> m) MSS,
             state := Established, retries := 0, rto := INITIAL_RTO, deadline := None\<rparr>"
    have "rcv_inv irs P R (tcb_output now False (send_ack t1))"
      if "seg_flags seg AND (SYN OR ACK) = SYN OR ACK"
    proof -
      have "has (seg_flags seg) 2" by (rule both_flags(1) [OF that])
      then have "seg_seq seg = irs" using h by (simp add: honest_def)
      then have "rcv_ok irs P R t1 0" using fresh by (intro rcv_okI) (simp_all add: t1_def)
      then have "rcv_inv irs P R t1" unfolding rcv_inv_def by blast
      then show ?thesis by (intro rcv_output rcv_send_ack)
    qed
    moreover have "rcv_inv irs P R (emit x t)" for x by (rule rcv_same [OF inv]) simp_all
    ultimately show ?thesis
      using st inv rcv_fail [OF inv] unfolding t1_def
      by (simp add: on_segment_def on_syn_sent_def)
  qed (use True inv in \<open>auto simp: on_segment_def\<close>)
next
  case False
  have wnd: "rcv_inv irs P R (tcb_output now False (on_payload seg (t'\<lparr>snd_wnd := w\<rparr>)))"
    if t': "rcv_inv irs P R t'" "state t' \<notin> {Idle, SynSent}" and syn: "\<not> has (seg_flags seg) SYN" for t' w
  proof (rule rcv_output, rule rcv_on_payload [OF _ _ h P syn])
    show "rcv_inv irs P R (t'\<lparr>snd_wnd := w\<rparr>)" by (rule rcv_same [OF t'(1)]) simp_all
  qed (use t' in simp)
  have r0: "rcv_inv irs P R (t\<lparr>retries := 0\<rparr>)" by (rule rcv_same [OF inv]) simp_all
  have st: "state (on_new_ack seg now t) \<notin> {Idle, SynSent}"
    using False by (auto simp: on_new_ack_def ack_states_state split: TcpState.splits)
  define x where "x = (let t = (if seg_ack seg = snd_una t \<and> seg_window seg = 0 then t\<lparr>retries := 0\<rparr> else t)
         in tcb_output now False (on_payload seg (t\<lparr>snd_wnd := seg_window seg\<rparr>)))"
  have "rcv_inv irs P R x" if "\<not> has (seg_flags seg) SYN"
    unfolding x_def Let_def by (rule wnd [OF _ _ that]) (use inv r0 False in auto)
  moreover note wnd [OF rcv_new_ack [OF inv] st]
  ultimately show ?thesis
    using False inv rcv_fail [OF inv] rcv_send_ack [OF inv]
    unfolding on_segment_def x_def [symmetric] by (simp add: Let_def)
qed

lemma rcv_on_timer:
  assumes inv: "rcv_inv irs P R t"
  shows "rcv_inv irs P R (tcb_on_timer now t)"
proof -
  have same: "rcv_inv irs P R t'" if "state t' = state t \<or> state t' = Closed" "rcv_nxt t' = rcv_nxt t"
    "recv_buf t' = recv_buf t" "peer_fin t' = peer_fin t" "user_closed t' = user_closed t" for t'
    by (rule rcv_inv_cong [OF inv]) (use that in auto)
  have armed: "rcv_inv irs P R (arm now t')" if "rcv_inv irs P R t'" for t'
    by (rule rcv_same [OF that]) simp_all
  show ?thesis
    using inv by (auto simp: tcb_on_timer_def Let_def split: option.split
        intro!: armed rcv_output rcv_fail intro: same)
qed

lemma rcv_read:
  assumes inv: "rcv_inv irs P R t" and uc: "\<not> user_closed t"
    and r: "tcb_read n t = (Some (Inr bs), t')"
  shows "rcv_inv irs P (R @ bs) t'"
proof (cases "recv_buf t = []")
  case True
  then have "bs = []" "t' = t"
    using r by (auto simp: tcb_read_def split: if_splits option.splits TcpState.splits)
  then show ?thesis using inv by simp
next
  case False
  let ?k = "min n (length (recv_buf t))"
  let ?t = "t\<lparr>recv_buf := drop ?k (recv_buf t)\<rparr>"
  have bs: "bs = take ?k (recv_buf t)" and t': "t' = ?t \<or> t' = send_ack ?t"
    using r False by (auto simp: tcb_read_def Let_def split: if_splits)
  obtain c where ok: "rcv_ok irs P R t c" using inv False by (auto simp: rcv_inv_def fresh_rcv_def)
  have whole: "(R @ bs) @ recv_buf ?t = take c P" using rcv_okD(7) [OF ok uc] by (simp add: bs)
  have "rcv_ok irs P (R @ bs) ?t c"
  proof (rule rcv_okI)
    show "prefix (R @ bs) P" using whole by (metis prefixI take_is_prefix prefix_order.trans)
  qed (use whole uc rcv_okD [OF ok] in simp_all)
  then have "rcv_inv irs P (R @ bs) ?t" unfolding rcv_inv_def by blast
  then show ?thesis using t' rcv_send_ack by auto
qed

lemma rcv_write:
  assumes "rcv_inv irs P R t" "tcb_write now data written t = (r, t')"
  shows "rcv_inv irs P R t'"
proof -
  have "rcv_inv irs P R (t\<lparr>send_buf := b\<rparr>)" for b by (rule rcv_same [OF assms(1)]) simp_all
  then show ?thesis
    using assms by (auto simp: tcb_write_def Let_def split: option.splits if_splits intro: rcv_output)
qed

lemma rcv_close:
  assumes inv: "rcv_inv irs P R t"
  shows "rcv_inv irs P R (tcb_close now t)"
proof -
  let ?t = "t\<lparr>user_closed := True, recv_buf := []\<rparr>"
  have t: "rcv_inv irs P R ?t"
    using inv unfolding rcv_inv_def
  proof (elim disjE exE)
    fix c assume ok: "rcv_ok irs P R t c"
    have "rcv_ok irs P R ?t c" using rcv_okD [OF ok] by (intro rcv_okI) simp_all
    then show "fresh_rcv R ?t \<or> (\<exists>c. rcv_ok irs P R ?t c)" by blast
  qed (simp add: fresh_rcv_def)
  have "rcv_inv irs P R (?t\<lparr>state := Closed\<rparr>)" by (rule rcv_inv_cong [OF t]) simp_all
  moreover have "rcv_inv irs P R (?t\<lparr>fin_queued := True\<rparr>)" by (rule rcv_same [OF t]) simp_all
  ultimately show ?thesis using t rcv_output by (simp add: tcb_close_def Let_def)
qed

lemma rcv_connect: "rcv_inv irs P [] (tcb_connect p rem isn now tcb_new)"
  unfolding tcb_connect_def
  by (rule rcv_output) (simp add: rcv_inv_def fresh_rcv_def tcb_new_def)

lemma tcp_reach_rcv:
  assumes "tcp_reach ok W R t" "\<And>seg. ok seg \<Longrightarrow> honest irs P seg" "length P < 2 ^ 32"
  shows "rcv_inv irs P R t"
  using assms
  by (induction rule: tcp_reach.induct)
    (auto intro: rcv_connect rcv_on_segment rcv_on_timer rcv_close dest: rcv_read rcv_write)

section \<open>The retransmission timer\<close>

text \<open>\<open>timer_ok\<close> holds throughout; \<open>armed\<close> holds whenever an operation has ended.\<close>

abbreviation (input) sending :: "TcpState set" where
  "sending \<equiv> {Established, CloseWait, FinWait1, Closing, LastAck}"

definition timer_ok :: "Tcb \<Rightarrow> bool" where
  "timer_ok t \<longleftrightarrow>
     (state t = FinWait2 \<longrightarrow> fin_acked t) \<and>
     (state t \<notin> {Idle, Closed} \<and> (state t \<in> {SynSent, FinWait2} \<or> snd_una t \<noteq> snd_max t) \<longrightarrow>
       deadline t \<noteq> None)"

definition outstanding :: "Tcb \<Rightarrow> bool" where
  "outstanding t \<longleftrightarrow> state t \<in> {SynSent, FinWait2} \<or>
     state t \<in> sending \<and> (snd_una t \<noteq> snd_max t \<or> send_buf t \<noteq> [] \<or> fin_queued t \<and> \<not> fin_acked t)"

definition armed :: "Tcb \<Rightarrow> bool" where
  "armed t \<longleftrightarrow> timer_ok t \<and> (outstanding t \<longrightarrow> deadline t \<noteq> None)"

lemma arm_deadline [simp]: "deadline (arm now t) \<noteq> None"
  by (simp add: arm_def)

lemma output_loop_deadline:
  "output_loop k now probe t = t \<or> deadline (output_loop k now probe t) \<noteq> None"
proof (induction k now probe t rule: output_loop.induct)
  case (2 k now probe t)
  have "deadline (output_one now probe t) \<noteq> None" by (simp add: output_one_def Let_def)
  then show ?case using 2 by fastforce
qed simp

lemma tcb_output_idle:
  assumes ok: "snd_ok W t a nx m" and st: "state t \<in> sending" and tm: "timer_ok t"
    and none: "deadline (tcb_output now probe t) = None"
  shows "tcb_output now probe t = t \<and> \<not> outstanding t"
proof -
  define l where "l = output_loop (Suc (length (send_buf t))) now probe t"
  have out: "tcb_output now probe t =
      (let t = output_fin now l in if data_before_cursor t < length (send_buf t) then arm now t else t)"
    using st by (auto simp: tcb_output_def l_def Let_def simp del: output_loop.simps)
  have fin: "deadline (output_fin now l) = None" "\<not> data_before_cursor (output_fin now l) < length (send_buf t)"
    using none unfolding out Let_def
    by (auto simp: l_def split: if_splits simp del: output_loop.simps)
  have eq_fin: "output_fin now l = l" using fin(1) by (auto simp: output_fin_def Let_def split: if_splits)
  then have "deadline l = None" using fin(1) by simp
  then have l: "l = t" using output_loop_deadline unfolding l_def by blast
  have same: "tcb_output now probe t = t"
    using fin(2) l eq_fin unfolding out Let_def by simp
  have a1: "1 \<le> a" using snd_okD(12) [OF ok] st by auto
  have "snd_una t = snd_max t" using tm st same none by (auto simp: timer_ok_def)
  then have "(of_nat a :: u32) = of_nat m" using snd_okD(1,3) [OF ok] by simp
  then have "m = a"
  proof -
    have "of_nat (m - a) = (0 :: u32)"
      using \<open>(of_nat a :: u32) = of_nat m\<close> snd_okD(4,5) [OF ok] by (simp add: of_nat_diff)
    moreover have "unat (of_nat (m - a) :: u32) = m - a"
      by (rule unat_of_nat_small) (use snd_ok_span(2) [OF ok] in simp)
    ultimately show ?thesis using snd_okD(4,5) [OF ok] by simp
  qed
  then have nx: "nx = a" using snd_okD(4,5) [OF ok] by simp
  have cur: "unat (snd_nxt t - snd_una t) = 0" using snd_ok_cursor [OF ok] nx by simp
  have buf: "send_buf t = []" using fin(2) eq_fin l cur by (auto simp: data_before_cursor_def)
  have "fin_acked t" if fq: "fin_queued t"
  proof (rule ccontr)
    assume na: "\<not> fin_acked t"
    have "a = length W + 1"
      using buf snd_okD(7,10) [OF ok] na snd_ok_span(3) [OF ok] a1 by simp
    then have "snd_nxt t = iss t + of_nat (1 + length W)" using snd_okD(2) [OF ok] nx by simp
    then have "case fin_seq t of None \<Rightarrow> True | Some fin \<Rightarrow> fin = snd_nxt t"
      using snd_okD(9) [OF ok] by (auto split: option.split)
    then have "deadline (output_fin now t) \<noteq> None"
      using fq na cur buf by (simp add: output_fin_def Let_def)
    then show False using fin(1) l by simp
  qed
  then show ?thesis using same buf \<open>snd_una t = snd_max t\<close> st by (auto simp: outstanding_def)
qed

lemma tcb_output_armed:
  assumes ok: "snd_ok W t a nx m" and tm: "timer_ok t" and st: "state t \<noteq> SynSent"
  shows "armed (tcb_output now probe t)"
proof (cases "state t \<in> sending")
  case False
  then have "tcb_output now probe t = t" using st by (simp add: tcb_output_def)
  then show ?thesis using tm False st by (auto simp: armed_def timer_ok_def outstanding_def)
next
  case True
  show ?thesis
  proof (cases "deadline (tcb_output now probe t) = None")
    case none: True
    from tcb_output_idle [OF ok True tm none] show ?thesis using tm by (simp add: armed_def)
  next
    case False
    have "state (tcb_output now probe t) \<noteq> FinWait2" using True tcb_output_state [of now probe t] by auto
    then show ?thesis using False by (simp add: armed_def timer_ok_def)
  qed
qed

lemma timer_same:
  assumes "timer_ok t" "state t' = state t" "fin_acked t' = fin_acked t" "snd_una t' = snd_una t"
    "snd_max t' = snd_max t" "deadline t' = deadline t"
  shows "timer_ok t'"
  using assms by (simp add: timer_ok_def)

lemma armed_same:
  assumes "armed t" "state t' = state t" "fin_acked t' = fin_acked t" "snd_una t' = snd_una t"
    "snd_max t' = snd_max t" "deadline t' = deadline t" "send_buf t' = send_buf t"
    "fin_queued t' = fin_queued t"
  shows "armed t'"
  using assms by (simp add: armed_def timer_ok_def outstanding_def)

lemma armed_closed: "state t = Closed \<Longrightarrow> armed t"
  by (simp add: armed_def timer_ok_def outstanding_def)

lemma accept_data_timer:
  assumes "timer_ok t"
  shows "timer_ok (accept_data seg t)"
proof -
  have "state (accept_data seg t) = Closed \<or>
      deadline (accept_data seg t) = deadline t \<and>
      (state (accept_data seg t) = state t \<or>
       state t \<in> {Established, FinWait1} \<and> state (accept_data seg t) \<in> {CloseWait, Closing})"
    by (cases "state t") (simp_all add: accept_data_def Let_def)
  then show ?thesis using assms by (auto simp: timer_ok_def)
qed

lemma on_payload_timer: "timer_ok t \<Longrightarrow> timer_ok (on_payload seg t)"
  using accept_data_timer [of t seg] by (auto simp: on_payload_def intro: timer_same)

lemma on_new_ack_timer:
  assumes tm: "timer_ok t" and st: "state t \<notin> {Idle, SynSent, Closed, FinWait2}"
  shows "timer_ok (on_new_ack seg now t)"
proof -
  let ?s = "ack_advance seg now t"
  have d: "deadline ?s = (if seg_ack seg \<noteq> snd_max t then Some (now + 100) else None)"
    by (simp add: ack_advance_def Let_def)
  have "timer_ok (ack_states now ?s)"
    using st d by (cases "state t") (simp_all add: timer_ok_def ack_states_def)
  then show ?thesis by (simp add: on_new_ack_def)
qed

lemma armed_output':
  assumes "tcb_inv W t" "state t \<noteq> SynSent" "timer_ok t"
  shows "armed (tcb_output now probe t)"
proof (cases "state t = Closed")
  case False
  then obtain a nx m where "snd_ok W t a nx m" using assms(1,2) by (elim tcb_invE)
  then show ?thesis using assms(3,2) by (rule tcb_output_armed)
qed (simp add: armed_closed)

lemma on_syn_sent_armed:
  assumes inv: "tcb_inv W t" and st: "state t = SynSent" and ar: "armed t"
  shows "armed (on_syn_sent seg now t)"
proof -
  obtain a nx m where ok: "snd_ok W t a nx m" and nx: "nx = 1"
    using inv st unfolding tcb_inv_def by auto
  have a: "a = 0" "W = []" "\<not> fin_queued t" using snd_okD(11) [OF ok st] by auto
  have fs: "fin_seq t = None" by (rule snd_ok_syn [OF ok st])
  have m: "m = 1" using snd_okD(5,6) [OF ok] fs a nx by simp
  define t1 where "t1 = t\<lparr>rcv_nxt := seg_seq seg + 1, snd_una := seg_ack seg, snd_wnd := seg_window seg,
             mss := min (case seg_mss seg of None \<Rightarrow> DEFAULT_PEER_MSS | Some m \<Rightarrow> m) MSS,
             state := Established, retries := 0, rto := INITIAL_RTO, deadline := None\<rparr>"
  have "armed (tcb_output now False (send_ack t1))" if ack: "seg_ack seg = iss t + 1"
  proof -
    have "snd_ok W t1 1 1 1"
      using snd_okD [OF ok] ack a fs nx m unfolding t1_def by (intro snd_okI) simp_all
    then have "snd_ok W (send_ack t1) 1 1 1" by (rule snd_ok_cong) simp_all
    moreover have "timer_ok (send_ack t1)"
      using ack snd_okD(3) [OF ok] m by (simp add: timer_ok_def t1_def)
    ultimately show ?thesis by (rule tcb_output_armed) (simp add: t1_def)
  qed
  moreover have "armed (emit x t)" for x by (rule armed_same [OF ar]) simp_all
  moreover have "has (seg_flags seg) 0x10" if "seg_flags seg AND (2 OR 0x10) = (2 OR 0x10 :: u8)"
    by (rule both_flags(2) [OF that])
  ultimately show ?thesis
    using ar unfolding on_syn_sent_def t1_def by (auto simp: armed_closed)
qed

lemma on_segment_armed:
  assumes inv: "tcb_inv W t" and ar: "armed t" and sane: "sane_ack seg t"
  shows "armed (on_segment seg now t)"
proof -
  have tm: "timer_ok t" using ar by (simp add: armed_def)
  have sa: "armed (send_ack t)" by (rule armed_same [OF ar]) simp_all
  have fl: "armed (tcb_fail e t)" for e by (simp add: armed_closed)
  have old: "armed (tcb_output now False (on_payload seg (t'\<lparr>snd_wnd := w\<rparr>)))"
    if "tcb_inv W t'" "state t' \<noteq> SynSent" "timer_ok t'" for t' w
  proof (rule armed_output')
    show "tcb_inv W (on_payload seg (t'\<lparr>snd_wnd := w\<rparr>))"
      by (rule on_payload_inv) (use that in \<open>simp_all add: tcb_inv_upd\<close>)
    show "state (on_payload seg (t'\<lparr>snd_wnd := w\<rparr>)) \<noteq> SynSent"
      by (rule on_payload_inv(2) [of W]) (use that in \<open>simp_all add: tcb_inv_upd\<close>)
    show "timer_ok (on_payload seg (t'\<lparr>snd_wnd := w\<rparr>))"
      by (rule on_payload_timer, rule timer_same [OF that(3)]) simp_all
  qed
  have new: "armed (tcb_output now False (on_payload seg ((on_new_ack seg now t)\<lparr>snd_wnd := w\<rparr>)))"
    if st: "state t \<notin> {Idle, Closed, SynSent}"
      and n: "seq_lt (snd_una t) (seg_ack seg) \<and> seq_le (seg_ack seg) (snd_max t)" for w
  proof -
    obtain a nx m where ok: "snd_ok W t a nx m" and out: "out_ok W t" using inv st by (auto elim: tcb_invE)
    obtain d where d: "seg_ack seg = snd_una t + of_nat d" "0 < d" "d \<le> m - a"
      using new_ack_distance [OF ok n sane] by blast
    note one = on_new_ack_ok [OF ok out _ d, of now]
    have st2: "state t \<noteq> FinWait2"
    proof
      assume "state t = FinWait2"
      then have "a = length W + 2" using tm snd_okD(10) [OF ok] by (simp add: timer_ok_def)
      then have "m \<le> a" using snd_okD(6) [OF ok] by (simp split: if_splits)
      then show False using d by simp
    qed
    have "tcb_inv W (on_new_ack seg now t)" using one st tcb_invI by blast
    then show ?thesis using one st st2 by (intro old on_new_ack_timer tm) auto
  qed
  define x where "x = (let t = (if seg_ack seg = snd_una t \<and> seg_window seg = 0 then t\<lparr>retries := 0\<rparr> else t)
         in tcb_output now False (on_payload seg (t\<lparr>snd_wnd := seg_window seg\<rparr>)))"
  have tm0: "timer_ok (t\<lparr>retries := 0\<rparr>)" by (rule timer_same [OF tm]) simp_all
  have "armed x" if "state t \<noteq> SynSent"
    unfolding x_def Let_def by (rule old) (use inv tm tm0 that in \<open>auto simp: tcb_inv_upd\<close>)
  then show ?thesis
    using ar on_syn_sent_armed [OF inv _ ar] sa fl new
    unfolding on_segment_def x_def [symmetric] by (simp add: Let_def)
qed

lemma tcb_on_timer_armed:
  assumes ar: "armed t"
  shows "armed (tcb_on_timer now t)"
proof -
  have "armed (arm now (tcb_output now True t'))" if "state t' \<noteq> FinWait2" for t'
  proof -
    have "state (tcb_output now True t') \<noteq> FinWait2" using that tcb_output_state [of now True t'] by auto
    then show ?thesis by (simp add: armed_def timer_ok_def)
  qed
  then show ?thesis
    using ar by (auto simp: tcb_on_timer_def Let_def armed_closed split: option.split)
qed

lemma tcb_write_armed:
  assumes inv: "tcb_inv W t" and ar: "armed t" and w: "tcb_write now data written t = (WriteQueues k, t')"
  shows "armed t'"
  using w
proof (rule tcb_write_queues)
  fix d assume d: "write_error t = None" "length (send_buf t) + length d \<le> SEND_CAP"
    and t': "t' = tcb_output now False (t\<lparr>send_buf := send_buf t @ d\<rparr>)"
  have "timer_ok (t\<lparr>send_buf := send_buf t @ d\<rparr>)"
    using ar by (auto simp: armed_def intro: timer_same)
  with queue_data_inv [OF inv d] write_allowed [OF d(1)] show ?thesis
    unfolding t' by (intro armed_output') auto
qed

lemma tcb_close_armed:
  assumes inv: "tcb_inv W t" and ar: "armed t"
  shows "armed (tcb_close now t)"
proof -
  let ?t = "t\<lparr>user_closed := True, recv_buf := []\<rparr>"
  have t: "tcb_inv W ?t" using tcb_inv_upd(3) [OF tcb_inv_upd(4) [OF inv]] .
  have at: "armed ?t" by (rule armed_same [OF ar]) simp_all
  have "armed (tcb_output now False (?t\<lparr>fin_queued := True\<rparr>))" if st: "state t \<in> {Established, CloseWait}"
  proof (rule armed_output')
    show "tcb_inv W (?t\<lparr>fin_queued := True\<rparr>)" by (rule queue_fin_inv [OF t]) (use st in simp)
    show "timer_ok (?t\<lparr>fin_queued := True\<rparr>)"
      by (rule timer_same [of ?t]) (use at in \<open>simp_all add: armed_def\<close>)
  qed (use st in auto)
  then show ?thesis using at by (simp add: tcb_close_def Let_def armed_closed)
qed

lemma tcb_read_armed:
  assumes "armed t" "tcb_read n t = (r, t')"
  shows "armed t'"
proof (rule armed_same [OF assms(1)])
qed (use assms(2) in \<open>auto simp: tcb_read_def Let_def split: if_splits option.splits TcpState.splits\<close>)

lemma tcb_connect_armed: "armed (tcb_connect p rem isn now tcb_new)"
  by (simp add: tcb_connect_def tcb_output_def armed_def timer_ok_def)

lemma tcp_reach_armed: "tcp_reach ok W R t \<Longrightarrow> armed t"
proof (induction rule: tcp_reach.induct)
  case (reach_segment W R t seg now)
  then show ?case by (blast intro: on_segment_armed tcp_reach_inv)
next
  case (reach_write W R t now data written k t')
  then show ?case by (blast intro: tcb_write_armed tcp_reach_inv)
next
  case (reach_close W R t now)
  then show ?case by (blast intro: tcb_close_armed tcp_reach_inv)
qed (auto intro: tcb_connect_armed tcb_on_timer_armed tcb_read_armed)

section \<open>Giving up\<close>

text \<open>The timer running at the moment it is due, with nothing arriving in between.\<close>

definition expire :: "Tcb \<Rightarrow> Tcb" where
  "expire t = (case deadline t of None \<Rightarrow> t | Some dl \<Rightarrow> tcb_on_timer dl t)"

lemma expire_step:
  assumes "deadline t \<noteq> None" "state t \<in> insert SynSent sending"
  shows "state (expire t) = Closed \<or>
     deadline (expire t) \<noteq> None \<and> state (expire t) \<in> insert SynSent sending
     \<and> retries (expire t) = retries t + 1 \<and> retries t < 6"
proof -
  obtain dl where dl: "deadline t = Some dl" using assms by auto
  define t' where "t' = t\<lparr>deadline := None, retries := retries t + 1, rto := min (rto t * 2) MAX_RTO,
      snd_nxt := (if state t = SynSent then iss t else snd_una t)\<rparr>"
  have eq: "expire t = (if MAX_RETRIES < retries t + 1 then tcb_fail TimedOut (t\<lparr>deadline := None, retries := retries t + 1\<rparr>)
      else arm dl (tcb_output dl True t'))"
    using assms dl by (auto simp: expire_def tcb_on_timer_def Let_def t'_def)
  have "state (tcb_output dl True t') \<in> insert SynSent sending"
    using tcb_output_state [of dl True t'] assms(2) by (auto simp: t'_def)
  moreover have "retries t' = retries t + 1" by (simp add: t'_def)
  ultimately show ?thesis
    using arm_deadline [of dl "tcb_output dl True t'"] unfolding eq by (simp del: not_None_eq)
qed

lemma expire_gives_up:
  assumes "deadline t \<noteq> None" "state t \<in> insert SynSent sending" "7 - retries t \<le> k" "0 < k"
  shows "\<exists>i\<le>k. state ((expire ^^ i) t) = Closed"
  using assms
proof (induction k arbitrary: t)
  case (Suc k)
  from expire_step [OF Suc(2,3)] show ?case
  proof (elim disjE conjE)
    assume "state (expire t) = Closed"
    then show ?thesis by (intro exI [of _ 1]) simp
  next
    assume e: "deadline (expire t) \<noteq> None" "state (expire t) \<in> insert SynSent sending"
      "retries (expire t) = retries t + 1" "retries t < 6"
    then have "7 - retries (expire t) \<le> k" "0 < k" using Suc(4) by simp_all
    from Suc(1) [OF e(1,2) this] obtain i where "i \<le> k" "state ((expire ^^ i) (expire t)) = Closed" by blast
    then show ?thesis by (intro exI [of _ "Suc i"]) (simp add: funpow_swap1)
  qed
qed simp

section \<open>End of stream\<close>

text \<open>
  Until the user closes, a connection is in one of the open states, or it has
  failed with an error; only a close queues a FIN.
\<close>

definition open_ok :: "Tcb \<Rightarrow> bool" where
  "open_ok t \<longleftrightarrow> (fin_queued t \<longrightarrow> user_closed t) \<and>
     (\<not> user_closed t \<longrightarrow> state t \<in> {SynSent, Established, CloseWait} \<or> state t = Closed \<and> error t \<noteq> None)"

lemma open_closed: "user_closed t \<Longrightarrow> open_ok t"
  by (simp add: open_ok_def)

lemma open_same:
  assumes "open_ok t" "fin_queued t' = fin_queued t" "user_closed t' = user_closed t"
    "state t' = state t \<or> state t = Established \<and> state t' = CloseWait \<or> state t' = Closed \<and> error t' \<noteq> None"
    "error t \<noteq> None \<Longrightarrow> error t' \<noteq> None"
  shows "open_ok t'"
  using assms unfolding open_ok_def by auto

lemma open_output: "open_ok t \<Longrightarrow> open_ok (tcb_output now probe t)"
  using tcb_output_state [of now probe t] unfolding open_ok_def by auto

lemma open_on_payload:
  assumes o: "open_ok t"
  shows "open_ok (on_payload seg t)"
proof (cases "user_closed t")
  case True
  then show ?thesis by (simp add: on_payload_def open_closed)
next
  case False
  then have "state t \<in> {SynSent, Established, CloseWait, Closed}" using o by (auto simp: open_ok_def)
  then have "state (accept_data seg t) = state t \<or> state t = Established \<and> state (accept_data seg t) = CloseWait"
    by (auto simp: accept_data_def Let_def)
  then have "open_ok (accept_data seg t)" by (intro open_same [OF o]) auto
  then have "open_ok (send_ack (accept_data seg t))" by (rule open_same) simp_all
  moreover have "open_ok (send_ack t)" by (rule open_same [OF o]) simp_all
  ultimately show ?thesis using o by (simp add: on_payload_def)
qed

lemma open_new_ack:
  assumes o: "open_ok t"
  shows "open_ok (on_new_ack seg now t)"
proof (cases "user_closed t")
  case True
  then show ?thesis by (simp add: on_new_ack_def open_closed)
next
  case False
  then have "state t \<in> {SynSent, Established, CloseWait, Closed}" using o by (auto simp: open_ok_def)
  then have "state (on_new_ack seg now t) = state t" by (auto simp: on_new_ack_def ack_states_state)
  then show ?thesis by (intro open_same [OF o]) (simp_all add: on_new_ack_def)
qed

lemma open_on_segment:
  assumes o: "open_ok t"
  shows "open_ok (on_segment seg now t)"
proof -
  have wnd: "open_ok (tcb_output now False (on_payload seg (t'\<lparr>snd_wnd := w\<rparr>)))" if "open_ok t'" for t' w
    by (intro open_output open_on_payload open_same [OF that]) simp_all
  have r0: "open_ok (t\<lparr>retries := 0\<rparr>)" by (rule open_same [OF o]) simp_all
  define x where "x = (let t = (if seg_ack seg = snd_una t \<and> seg_window seg = 0 then t\<lparr>retries := 0\<rparr> else t)
         in tcb_output now False (on_payload seg (t\<lparr>snd_wnd := seg_window seg\<rparr>)))"
  have x: "open_ok x" unfolding x_def Let_def by (rule wnd) (use o r0 in simp)
  have sa: "open_ok (send_ack t)" by (rule open_same [OF o]) simp_all
  have fl: "open_ok (tcb_fail e t)" for e by (rule open_same [OF o]) simp_all
  have syn: "open_ok (on_syn_sent seg now t)" if "state t = SynSent"
  proof -
    have "open_ok (send_ack (t\<lparr>rcv_nxt := q, snd_una := u, snd_wnd := w, mss := m, state := Established,
        retries := r, rto := o', deadline := d\<rparr>))" for q u w m r o' d
      using o that by (simp add: open_ok_def)
    moreover have "open_ok (emit y t)" for y by (rule open_same [OF o]) simp_all
    ultimately show ?thesis using o fl by (simp add: on_syn_sent_def open_output)
  qed
  show ?thesis
    using o syn x sa fl wnd [OF open_new_ack [OF o]]
    unfolding on_segment_def x_def [symmetric] by (simp add: Let_def)
qed

lemma open_on_timer:
  assumes o: "open_ok t"
  shows "open_ok (tcb_on_timer now t)"
proof -
  have armed: "open_ok (arm now t')" if "open_ok t'" for t' by (rule open_same [OF that]) simp_all
  have same: "open_ok t'" if "state t' = state t" "fin_queued t' = fin_queued t"
    "user_closed t' = user_closed t" "error t' = error t" for t'
    by (rule open_same [OF o]) (simp_all add: that)
  have "open_ok (tcb_fail TimedOut t')" if "fin_queued t' = fin_queued t" "user_closed t' = user_closed t" for t'
    by (rule open_same [OF o]) (simp_all add: that)
  moreover have "user_closed t" if "state t = FinWait2" using o that by (auto simp: open_ok_def)
  ultimately show ?thesis
    using o by (auto simp: tcb_on_timer_def Let_def open_closed split: option.split
        intro!: armed open_output same)
qed

lemma tcp_reach_open: "tcp_reach ok W R t \<Longrightarrow> open_ok t"
proof (induction rule: tcp_reach.induct)
  case (reach_connect p rem isn now)
  then show ?case unfolding tcb_connect_def by (intro open_output) (simp add: open_ok_def tcb_new_def)
next
  case (reach_read W R t n bs t')
  show ?case by (rule open_same [OF reach_read(4)])
      (use reach_read(3) in \<open>auto simp: tcb_read_def Let_def split: if_splits option.splits TcpState.splits\<close>)
next
  case (reach_write W R t now data written k t')
  have "open_ok (t\<lparr>send_buf := b\<rparr>)" for b by (rule open_same [OF reach_write(4)]) simp_all
  then show ?case using reach_write(3) by (auto elim!: tcb_write_queues intro: open_output)
next
  case (reach_close W R t now)
  show ?case by (rule open_closed) (simp add: tcb_close_def Let_def)
qed (auto intro: open_on_segment open_on_timer)

section \<open>Bounds of a control block\<close>

definition xmit_typed :: "Xmit \<Rightarrow> bool" where
  "xmit_typed x \<longleftrightarrow> length (x_payload x) \<le> MSS \<and> x_window x \<le> RECV_CAP"

definition tcb_typed :: "Tcb \<Rightarrow> bool" where
  "tcb_typed t \<longleftrightarrow>
     length (send_buf t) \<le> SEND_CAP \<and> length (recv_buf t) \<le> RECV_CAP \<and> mss t \<le> MSS
     \<and> rto t \<le> MAX_RTO \<and> (\<forall>x\<in>set (outbox t). xmit_typed x)"

lemma typed_same:
  assumes "tcb_typed t" "length (send_buf t') \<le> length (send_buf t)"
    "length (recv_buf t') \<le> length (recv_buf t)" "mss t' = mss t" "rto t' \<le> MAX_RTO" "outbox t' = outbox t"
  shows "tcb_typed t'"
  using assms by (auto simp: tcb_typed_def)

lemma typed_emit: "tcb_typed t \<Longrightarrow> xmit_typed x \<Longrightarrow> tcb_typed (emit x t)"
  by (auto simp: tcb_typed_def)

lemma typed_send: "tcb_typed t \<Longrightarrow> length d \<le> MSS \<Longrightarrow> tcb_typed (tcb_send f q d t)"
  by (auto simp: tcb_typed_def xmit_typed_def)

lemma typed_rto: "tcb_typed t \<Longrightarrow> rto t \<le> 1600"
  by (simp add: tcb_typed_def)

lemma typed_ack: "tcb_typed t \<Longrightarrow> tcb_typed (send_ack t)"
  by (simp add: send_ack_def typed_send)

lemma typed_helpers:
  assumes "tcb_typed t"
  shows "tcb_typed (arm now t)" "tcb_typed (advance n t)" "tcb_typed (tcb_fail e t)"
    "tcb_typed (ack_states now t)" "tcb_typed (ack_advance seg now t)"
  by (rule typed_same [OF assms]; simp add: typed_rto [OF assms])+

lemma typed_output_one: "tcb_typed t \<Longrightarrow> tcb_typed (output_one now probe t)"
  unfolding output_one_def Let_def
  using output_size_bounds(2) [of probe t]
  by (intro typed_helpers typed_send) (auto simp: tcb_typed_def)

lemma typed_output_loop: "tcb_typed t \<Longrightarrow> tcb_typed (output_loop k now probe t)"
  by (induction k now probe t rule: output_loop.induct) (simp_all add: typed_output_one)

lemma typed_output:
  assumes t: "tcb_typed t"
  shows "tcb_typed (tcb_output now probe t)"
proof -
  have fin: "tcb_typed (output_fin now t')" if "tcb_typed t'" for t'
  proof -
    have "tcb_typed (t'\<lparr>fin_seq := f\<rparr>)" for f
      by (rule typed_same [OF that]) (simp_all add: typed_rto [OF that])
    then have "tcb_typed (advance 1 (tcb_send g q [] (t'\<lparr>fin_seq := f\<rparr>)))" for f g q
      by (simp add: typed_helpers typed_send)
    then have "tcb_typed ((advance 1 (tcb_send g q [] (t'\<lparr>fin_seq := f\<rparr>)))\<lparr>state := s\<rparr>)" for f g q s
      by (simp add: tcb_typed_def)
    then show ?thesis using that by (simp add: output_fin_def Let_def typed_helpers)
  qed
  show ?thesis
    using t fin [OF typed_output_loop [OF t]]
    by (simp add: tcb_output_def Let_def typed_helpers typed_send del: output_loop.simps)
qed

lemma typed_accept: "tcb_typed t \<Longrightarrow> tcb_typed (accept_data seg t)"
proof -
  assume t: "tcb_typed t"
  have "length (recv_buf (accept_data seg t)) \<le> 16384"
    using t by (auto simp: accept_data_def Let_def tcb_typed_def)
  then show ?thesis using t by (simp add: tcb_typed_def)
qed

lemma typed_on_payload: "tcb_typed t \<Longrightarrow> tcb_typed (on_payload seg t)"
  by (simp add: on_payload_def typed_ack typed_accept)

lemma typed_on_segment:
  assumes t: "tcb_typed t"
  shows "tcb_typed (on_segment seg now t)"
proof -
  have upd: "tcb_typed (t'\<lparr>snd_wnd := w\<rparr>)" "tcb_typed (t'\<lparr>retries := r\<rparr>)" if "tcb_typed t'" for t' w r
    by (rule typed_same [OF that]; simp add: typed_rto [OF that])+
  have est: "tcb_typed (t\<lparr>rcv_nxt := q, snd_una := u, snd_wnd := w, mss := min k MSS, state := Established,
        retries := r, rto := INITIAL_RTO, deadline := d\<rparr>)" for q u w k r d
    using t by (simp add: tcb_typed_def)
  have em: "tcb_typed (emit \<lparr>x_port = p, x_remote = e, x_seq = q, x_ack = a, x_flags = f, x_window = 0,
      x_payload = []\<rparr> t)" for p e q a f
    by (rule typed_emit [OF t]) (simp add: xmit_typed_def)
  have syn: "tcb_typed (on_syn_sent seg now t)"
    using t est em by (simp add: on_syn_sent_def typed_helpers typed_output typed_ack)
  have new: "tcb_typed (on_new_ack seg now t)" using t by (simp add: on_new_ack_def typed_helpers)
  define x where "x = (let t = (if seg_ack seg = snd_una t \<and> seg_window seg = 0 then t\<lparr>retries := 0\<rparr> else t)
         in tcb_output now False (on_payload seg (t\<lparr>snd_wnd := seg_window seg\<rparr>)))"
  have x: "tcb_typed x" unfolding x_def Let_def
    by (intro typed_output typed_on_payload upd) (use t upd in simp)
  show ?thesis
    using t syn x typed_ack [OF t] typed_helpers(3) [OF t] typed_output [OF typed_on_payload [OF upd(1) [OF new]]]
    unfolding on_segment_def x_def [symmetric] by (simp add: Let_def)
qed

lemma typed_on_timer:
  assumes t: "tcb_typed t"
  shows "tcb_typed (tcb_on_timer now t)"
proof -
  have same: "tcb_typed t'" if "send_buf t' = send_buf t" "recv_buf t' = recv_buf t" "mss t' = mss t"
    "rto t' \<le> 1600" "outbox t' = outbox t" for t'
    by (rule typed_same [OF t]) (simp_all add: that)
  show ?thesis
    using t typed_rto [OF t]
    by (auto simp: tcb_on_timer_def Let_def split: option.split intro!: typed_helpers typed_output same)
qed

lemma tcp_reach_typed: "tcp_reach ok W R t \<Longrightarrow> tcb_typed t"
proof (induction rule: tcp_reach.induct)
  case (reach_connect p rem isn now)
  then show ?case unfolding tcb_connect_def
    by (intro typed_output) (simp add: tcb_typed_def tcb_new_def)
next
  case (reach_read W R t n bs t')
  have "tcb_typed (t\<lparr>recv_buf := drop k (recv_buf t)\<rparr>)" for k
    by (rule typed_same [OF reach_read(4)]) (simp_all add: typed_rto [OF reach_read(4)])
  then show ?case using reach_read(3,4)
    by (auto simp: tcb_read_def Let_def typed_ack split: if_splits option.splits TcpState.splits)
next
  case (reach_write W R t now data written k t')
  have "tcb_typed (t\<lparr>send_buf := send_buf t @ d\<rparr>)" if "length (send_buf t) + length d \<le> SEND_CAP" for d
    using reach_write(4) that by (simp add: tcb_typed_def)
  then show ?case using reach_write(3) by (auto elim!: tcb_write_queues intro: typed_output)
next
  case (reach_close W R t now)
  have "tcb_typed (t\<lparr>user_closed := True, recv_buf := []\<rparr>)"
    "tcb_typed (t\<lparr>user_closed := True, recv_buf := [], state := s\<rparr>)"
    "tcb_typed (t\<lparr>user_closed := True, recv_buf := [], fin_queued := True\<rparr>)" for s
    by (rule typed_same [OF reach_close(2)]; simp add: typed_rto [OF reach_close(2)])+
  then show ?case by (simp add: tcb_close_def Let_def typed_output)
qed (auto intro: typed_on_segment typed_on_timer)

end
