(* ===== verification/Tcp_Properties.thy ===== *)
theory Tcp_Properties
  imports Tcp_Stream
begin

text \<open>
  The properties of the TCP connection and a concrete connection that witnesses them.
\<close>

lemma length2E: assumes "length xs = 2" obtains a b where "xs = [a, b]"
  using assms by (auto simp: numeral_eq_Suc length_Suc_conv)

lemma length4E: assumes "length xs = 4" obtains a b c d where "xs = [a, b, c, d]"
  using assms by (auto simp: numeral_eq_Suc length_Suc_conv)

lemma header_offset: "unat (drop_bit 4 (push_bit 4 5 :: u8)) * 4 = 20" "unat (drop_bit 4 (push_bit 4 6 :: u8)) * 4 = 24"
  by simp_all

lemma tcp_parse_bytes:
  assumes w: "x_window x \<le> 65535"
  shows "tcp_parse (tcp_bytes a x) =
    Some \<lparr>seg_src = x_port x, seg_dst = ep_port (x_remote x), seg_seq = x_seq x, seg_ack = x_ack x,
          seg_flags = x_flags x, seg_window = x_window x,
          seg_mss = (if has (x_flags x) SYN then Some MSS else None), seg_payload = x_payload x\<rparr>"
proof -
  obtain p0 p1 where p: "be_bytes 2 (x_port x) = [p0, p1]" by (rule length2E [OF length_be_bytes])
  obtain q0 q1 where q: "be_bytes 2 (ep_port (x_remote x)) = [q0, q1]" by (rule length2E [OF length_be_bytes])
  obtain s0 s1 s2 s3 where s: "be_bytes 4 (x_seq x) = [s0, s1, s2, s3]" by (rule length4E [OF length_be_bytes])
  obtain k0 k1 k2 k3 where k: "be_bytes 4 (x_ack x) = [k0, k1, k2, k3]" by (rule length4E [OF length_be_bytes])
  define win :: u16 where "win = of_nat (min (x_window x) 65535)"
  obtain w0 w1 where ww: "be_bytes 2 win = [w0, w1]" by (rule length2E [OF length_be_bytes])
  obtain c0 c1 where c: "be_bytes 2 (transport_checksum a (ep_ip (x_remote x)) 6 (tcp_header0 x @ x_payload x)) = [c0, c1]"
    by (rule length2E [OF length_be_bytes])
  have "unat win = x_window x" using w by (simp add: win_def unat_of_nat_small)
  moreover have "from_be [p0, p1] = x_port x" "from_be [q0, q1] = ep_port (x_remote x)"
    "from_be [s0, s1, s2, s3] = x_seq x" "from_be [k0, k1, k2, k3] = x_ack x" "from_be [w0, w1] = win"
    unfolding p [symmetric] q [symmetric] s [symmetric] k [symmetric] ww [symmetric] by simp_all
  moreover have "from_be [5, 1460 :: u8] = (1460 :: u16)" by (simp add: from_be_def from_le.simps)
  ultimately show ?thesis
    by (cases "has (x_flags x) 2")
      (simp_all add: tcp_bytes_def Let_def c tcp_header0_def p q s k ww win_def [symmetric] blit_def
        tcp_parse_def u16_at_def u32_at_def slice_of_def)
qed

lemma tcp_bytes_checksum:
  assumes "length (x_payload x) \<le> 1460"
  shows "transport_checksum a (ep_ip (x_remote x)) 6 (tcp_bytes a x) = 0"
proof -
  have l: "length (tcp_header0 x) = (if has (x_flags x) 2 then 24 else 20)"
    by (simp add: tcp_header0_def)
  obtain h t where "tcp_header0 x = h @ [0, 0] @ t" "length h = 16"
  proof -
    let ?h = "be_bytes 2 (x_port x) @ be_bytes 2 (ep_port (x_remote x)) @ be_bytes 4 (x_seq x)
         @ be_bytes 4 (x_ack x) @ [push_bit 4 (of_nat ((if has (x_flags x) 2 then 24 else 20) div 4)), x_flags x]
         @ be_bytes 2 (of_nat (min (x_window x) 65535) :: u16)"
    show thesis by (rule that [of ?h "[0, 0] @ (if has (x_flags x) 2 then [2, 4, of_nat (1460 div 256), of_nat 1460] else [])"])
      (simp_all add: tcp_header0_def Let_def)
  qed
  then have "(tcp_header0 x @ x_payload x) ! 16 = 0" "(tcp_header0 x @ x_payload x) ! Suc 16 = 0"
    by (simp_all add: nth_append)
  then show ?thesis
    unfolding tcp_bytes_def Let_def using l assms by (intro transport_checksum_stored) auto
qed

definition demo_remote :: Endpoint where
  "demo_remote = \<lparr>ep_ip = Ip 10 0 2 2, ep_port = 80\<rparr>"

definition demo_syn :: Tcb where
  "demo_syn = tcb_connect 50000 demo_remote 1000 0 tcb_new"

definition demo_seg :: "u32 \<Rightarrow> u32 \<Rightarrow> u8 \<Rightarrow> bytes \<Rightarrow> Segment" where
  "demo_seg seq ack flags data =
     \<lparr>seg_src = 80, seg_dst = 50000, seg_seq = seq, seg_ack = ack, seg_flags = flags,
      seg_window = 4096, seg_mss = None, seg_payload = data\<rparr>"

definition demo_est :: Tcb where
  "demo_est = on_segment (demo_seg 5000 1001 0x12 []) 1 demo_syn"

definition demo_sent :: Tcb where
  "demo_sent = snd (tcb_write 2 [1, 2, 3] 0 demo_est)"


lemmas tcb_eval = tcb_connect_def tcb_new_def tcb_output_def tcb_send_def emit_def advance_def arm_def
  on_segment_def on_syn_sent_def send_ack_def output_fin_def data_before_cursor_def output_size_def
  output_one_def seq_lt_def seq_le_def has_def Let_def slice_of_def on_payload_def accept_data_def
  on_new_ack_def ack_states_def ack_advance_def tcb_write_def write_error_def tcb_fail_def
  demo_remote_def demo_seg_def

lemma demo_syn_eq:
  "demo_syn = tcb_new\<lparr>state := SynSent, local_port := 50000, remote := demo_remote, iss := 1000,
     snd_una := 1000, snd_nxt := 1001, snd_max := 1001, advertised := 16384, deadline := Some 100,
     outbox := [\<lparr>x_port = 50000, x_remote = demo_remote, x_seq = 1000, x_ack = 0, x_flags = 2,
                 x_window = 16384, x_payload = []\<rparr>]\<rparr>"
  by (simp add: demo_syn_def tcb_eval)

lemma demo_est_eq:
  "demo_est = demo_syn\<lparr>state := Established, snd_una := 1001, snd_wnd := 4096, rcv_nxt := 5001,
     deadline := None,
     outbox := outbox demo_syn @ [\<lparr>x_port = 50000, x_remote = demo_remote, x_seq = 1001, x_ack = 5001,
                 x_flags = 0x10, x_window = 16384, x_payload = []\<rparr>]\<rparr>"
  by (simp add: demo_est_def demo_syn_eq tcb_eval)

lemma demo_write:
  "tcb_write 2 [1, 2, 3] 0 demo_est =
     (WriteQueues 3, demo_est\<lparr>snd_nxt := 1004, snd_max := 1004, send_buf := [1, 2, 3], deadline := Some 102,
     outbox := outbox demo_est @ [\<lparr>x_port = 50000, x_remote = demo_remote, x_seq = 1001, x_ack = 5001,
                 x_flags = 0x18, x_window = 16384, x_payload = [1, 2, 3]\<rparr>]\<rparr>)"
  by (simp add: demo_est_eq demo_syn_eq tcb_eval)

lemma demo_sent_eq:
  "demo_sent = demo_est\<lparr>snd_nxt := 1004, snd_max := 1004, send_buf := [1, 2, 3], deadline := Some 102,
     outbox := outbox demo_est @ [\<lparr>x_port = 50000, x_remote = demo_remote, x_seq = 1001, x_ack = 5001,
                 x_flags = 0x18, x_window = 16384, x_payload = [1, 2, 3]\<rparr>]\<rparr>"
  by (simp add: demo_sent_def demo_write)

lemmas demo_eqs = demo_sent_eq demo_est_eq demo_syn_eq tcb_new_def

definition demo_jump :: Tcb where
  "demo_jump = on_segment (demo_seg 5001 (1001 + 0x80000000) 0x10 []) 2 demo_est"

lemma demo_jump_eq:
  "demo_jump = demo_est\<lparr>snd_una := 0x800003E9, snd_nxt := 0x800003E9, deadline := Some 102\<rparr>"
  by (simp add: demo_jump_def demo_est_eq demo_syn_eq tcb_eval)

definition demo_wrote :: Tcb where
  "demo_wrote = snd (tcb_write 3 [7] 0 demo_jump)"

lemma demo_wrote_eq:
  "demo_wrote = demo_jump\<lparr>snd_nxt := 0x800003EA, send_buf := [7],
     outbox := outbox demo_jump @ [\<lparr>x_port = 50000, x_remote = demo_remote, x_seq = 0x800003E9,
                 x_ack = 5001, x_flags = 0x18, x_window = 16384, x_payload = [7]\<rparr>]\<rparr>"
  by (simp add: demo_wrote_def demo_jump_eq demo_est_eq demo_syn_eq tcb_eval)

definition demo_lost :: Tcb where
  "demo_lost = on_segment (demo_seg 5001 1001 0x10 []) 4 demo_wrote"

definition demo_got :: Tcb where
  "demo_got = on_segment (demo_seg 5001 1001 0x19 [9, 8]) 2 demo_est"

lemma demo_got_eq:
  "demo_got = demo_est\<lparr>state := CloseWait, rcv_nxt := 5004, recv_buf := [9, 8], peer_fin := True,
     advertised := 16382,
     outbox := outbox demo_est @ [\<lparr>x_port = 50000, x_remote = demo_remote, x_seq = 1001, x_ack = 5004,
                 x_flags = 0x10, x_window = 16382, x_payload = []\<rparr>]\<rparr>"
  by (simp add: demo_got_def demo_est_eq demo_syn_eq tcb_eval)

definition demo_read :: Tcb where
  "demo_read = demo_got\<lparr>recv_buf := []\<rparr>"

lemma demo_read_step: "tcb_read 10 demo_got = (Some (Inr [9, 8]), demo_read)"
  by (simp add: demo_read_def demo_got_eq demo_est_eq demo_syn_eq tcb_new_def tcb_read_def Let_def)

lemma demo_reach_sent: "tcp_reach (\<lambda>_. True) [1, 2, 3] [] demo_sent"
proof -
  have "tcp_reach (\<lambda>_. True) [] [] demo_syn" unfolding demo_syn_def by (rule reach_connect)
  then have "tcp_reach (\<lambda>_. True) [] [] demo_est" unfolding demo_est_def
    by (rule reach_segment) (simp_all add: sane_ack_def demo_syn_eq demo_seg_def)
  then have "tcp_reach (\<lambda>_. True) ([] @ slice_of 0 3 [1, 2, 3]) [] demo_sent"
  proof (rule reach_write)
    show "\<not> user_closed demo_est" by (simp add: demo_eqs)
    show "tcb_write 2 [1, 2, 3] 0 demo_est = (WriteQueues 3, demo_sent)"
      unfolding demo_write demo_sent_eq by (rule refl)
  qed
  then show ?thesis by (simp add: slice_of_def)
qed

lemma demo_reach_read: "tcp_reach (honest 5000 [9, 8]) [] [9, 8] demo_read"
proof -
  let ?ok = "honest 5000 [9, 8]"
  have h1: "?ok (demo_seg 5000 1001 0x12 [])" by (simp add: honest_def demo_seg_def has_def)
  have h2: "?ok (demo_seg 5001 1001 0x19 [9, 8])"
    unfolding honest_def by (intro conjI impI exI [of _ 0]) (simp_all add: demo_seg_def has_def)
  have "tcp_reach ?ok [] [] demo_syn" unfolding demo_syn_def by (rule reach_connect)
  then have "tcp_reach ?ok [] [] demo_est" unfolding demo_est_def
    by (rule reach_segment [where ok = ?ok, OF _ h1]) (simp add: sane_ack_def demo_syn_eq demo_seg_def)
  then have "tcp_reach ?ok [] [] demo_got" unfolding demo_got_def
    by (rule reach_segment [where ok = ?ok, OF _ h2])
      (simp add: sane_ack_def demo_est_eq demo_syn_eq demo_seg_def)
  moreover have "\<not> user_closed demo_got" by (simp add: demo_got_eq demo_eqs)
  ultimately have "tcp_reach ?ok [] ([] @ [9, 8]) demo_read" using demo_read_step by (rule reach_read)
  then show ?thesis by simp
qed

section \<open>Properties\<close>



text \<open>C30. Against a peer whose segments carry the parts of one stream at their sequence
  numbers, in any order and any number of times, the bytes read are a prefix of the
  peer's stream, and a read that reports the end has returned all of it.
\<close>

theorem tcp_recv_stream:
  assumes reach: "tcp_reach ok W R t" and honest: "\<And>seg. ok seg \<Longrightarrow> honest irs P seg"
    and size: "length P < 2 ^ 32"
  shows "prefix R P \<and>
    (\<forall>n t'. 0 < n \<and> \<not> user_closed t \<and> tcb_read n t = (Some (Inr []), t') \<longrightarrow> R = P)"
proof (intro conjI allI impI)
  have inv: "rcv_inv irs P R t" by (rule tcp_reach_rcv [OF reach honest size])
  then show "prefix R P" by (auto simp: rcv_inv_def fresh_rcv_def rcv_ok_def)
  fix n t' assume a: "0 < n \<and> \<not> user_closed t \<and> tcb_read n t = (Some (Inr []), t')"
  have "open_ok t" by (rule tcp_reach_open [OF reach])
  then have closed: "state t = Closed \<longrightarrow> error t \<noteq> None" using a by (auto simp: open_ok_def)
  have "recv_buf t = [] \<and> peer_fin t"
    using a closed
    by (cases "recv_buf t = []")
      (auto simp: tcb_read_def Let_def min_def split: if_splits option.splits TcpState.splits)
  then obtain c where "rcv_ok irs P R t c" "recv_buf t = []" "peer_fin t"
    using inv by (auto simp: rcv_inv_def fresh_rcv_def)
  then show "R = P" using rcv_okD(4,7) [of irs P R t c] a by simp
qed

theorem tcp_recv_stream_witness:
  "prefix [9, 8] [9, 8 :: u8] \<and> \<not> user_closed demo_read \<and> fst (tcb_read 4 demo_read) = Some (Inr [])"
  using tcp_recv_stream [OF demo_reach_read, of 5000 "[9, 8]"]
  by (simp add: demo_read_def demo_got_eq demo_eqs tcb_read_def)

text \<open>C31. A connection never stalls silently: whenever something is outstanding (the SYN,
  unsent or unacknowledged data, a FIN, or the wait for the peer's FIN) the timer
  is armed, and if nothing arrives any more at most seven expirations close it.
\<close>

theorem tcp_gives_up:
  assumes "tcp_reach ok W R t" "outstanding t"
  shows "deadline t \<noteq> None \<and> (\<exists>i\<le>7. state ((expire ^^ i) t) = Closed)"
proof -
  have dl: "deadline t \<noteq> None" using tcp_reach_armed [OF assms(1)] assms(2) by (simp add: armed_def)
  show ?thesis
  proof (cases "state t = FinWait2")
    case True
    obtain d where d: "deadline t = Some d" using dl by blast
    have "state (expire t) = Closed" using True d by (simp add: expire_def tcb_on_timer_def Let_def)
    then have "state ((expire ^^ 1) t) = Closed" by simp
    then show ?thesis using dl by (intro conjI exI [of _ 1]) simp_all
  next
    case False
    then have "state t \<in> insert SynSent sending" using assms(2) by (auto simp: outstanding_def)
    from expire_gives_up [OF dl this, of 7] show ?thesis using dl by simp
  qed
qed

theorem tcp_gives_up_witness:
  "outstanding demo_sent \<and> (\<exists>i\<le>7. state ((expire ^^ i) demo_sent) = Closed)"
proof -
  have "outstanding demo_sent"
    by (simp add: outstanding_def demo_eqs)
  then show ?thesis using tcp_gives_up [OF demo_reach_sent] by blast
qed

text \<open>C32. Every reachable control block keeps its buffers within their capacities, so the
  window subtractions never underflow, its segment size within the transmit buffer
  and its timeout within the maximum; every segment transmitted fits the buffer.
\<close>

theorem tcp_block_typed:
  assumes "tcp_reach ok W R t"
  shows "length (send_buf t) \<le> SEND_CAP \<and> length (recv_buf t) \<le> RECV_CAP \<and> mss t \<le> MSS \<and> rto t \<le> MAX_RTO
    \<and> (\<forall>x\<in>set (outbox t). length (x_payload x) \<le> MSS \<and> x_window x \<le> RECV_CAP)"
  using tcp_reach_typed [OF assms] by (auto simp: tcb_typed_def xmit_typed_def)

theorem tcp_block_typed_witness: "length (send_buf demo_sent) \<le> SEND_CAP \<and> mss demo_sent \<le> MSS"
  using tcp_block_typed [OF demo_reach_sent] by simp

text \<open>C33. Parsing a transmitted segment gives back its ports, sequence and
  acknowledgement numbers, flags, window, maximum segment size and payload, and its
  checksum verifies.
\<close>

theorem tcp_segment_roundtrip:
  assumes "length (x_payload x) \<le> MSS" "x_window x \<le> RECV_CAP"
  shows "tcp_parse (tcp_bytes a x) =
      Some \<lparr>seg_src = x_port x, seg_dst = ep_port (x_remote x), seg_seq = x_seq x, seg_ack = x_ack x,
            seg_flags = x_flags x, seg_window = x_window x,
            seg_mss = (if has (x_flags x) SYN then Some MSS else None), seg_payload = x_payload x\<rparr>
    \<and> transport_checksum a (ep_ip (x_remote x)) TCP_PROTOCOL (tcp_bytes a x) = 0"
  using tcp_parse_bytes [of x a] tcp_bytes_checksum [OF assms(1), of a] assms(2) by simp

theorem tcp_segment_roundtrip_witness:
  "\<exists>seg. tcp_parse (tcp_bytes (Ip 10 0 2 15) (last (outbox demo_sent))) = Some seg
     \<and> seg_payload seg = [1, 2, 3]"
  using tcp_segment_roundtrip [of "last (outbox demo_sent)" "Ip 10 0 2 15"]
  by (simp add: demo_eqs)


end
