(* ===== verification/Dns.thy ===== *)
theory Dns
  imports Net_Base
begin

text \<open>
  The DNS client of \<^verbatim>\<open>drivers/net/dns.rs\<close>: the query, the parser of replies and the
  delivery of the result. The lemmas: parsing never panics, and the reply to a query
  parses to the address it carries.
\<close>

unbundle bit_operations_syntax

section \<open>DNS\<close>

abbreviation (input) DNS_SERVER :: ip4 where "DNS_SERVER \<equiv> Ip 10 0 2 3"
abbreviation (input) DNS_PORT :: u16 where "DNS_PORT \<equiv> 53"
abbreviation (input) DNS_SRC_PORT :: u16 where "DNS_SRC_PORT \<equiv> 49152"
abbreviation (input) TXID :: u16 where "TXID \<equiv> 0x4b47"
abbreviation (input) DNS_WAIT_KEY :: u64 where "DNS_WAIT_KEY \<equiv> - 1 - 1"

definition dns_take_result :: "'a net_scheme \<Rightarrow> ip4 option \<times> 'a net_scheme" where
  "dns_take_result n = (dns_result n, n\<lparr>dns_result := None\<rparr>)"

text \<open>\<^verbatim>\<open>name.split('.')\<close> on the bytes of the name.\<close>

fun split_dots :: "bytes \<Rightarrow> bytes list" where
  "split_dots [] = [[]]"
| "split_dots (c # cs) =
     (if c = 0x2E then [] # split_dots cs
      else case split_dots cs of [] \<Rightarrow> [[c]] | l # ls \<Rightarrow> (c # l) # ls)"

text \<open>The loop over the labels: \<open>q\<close> holds the bytes written, so \<open>p\<close> is its length.\<close>

fun dns_labels :: "bytes \<Rightarrow> bytes list \<Rightarrow> bytes option" where
  "dns_labels q [] = Some q"
| "dns_labels q (label # ls) =
     (if label = [] \<or> 63 < length label \<or> 256 < length q + 1 + length label + 5 then None
      else dns_labels (q @ [of_nat (length label)] @ label) ls)"

definition dns_query :: "bytes \<Rightarrow> bytes option" where
  "dns_query name =
     (if name = [] \<or> 253 < length name then None
      else map_option (\<lambda>q. q @ [0] @ be_bytes 2 (1 :: u16) @ be_bytes 2 (1 :: u16))
        (dns_labels (be_bytes 2 TXID @ be_bytes 2 (0x0100 :: u16) @ be_bytes 2 (1 :: u16) @ [0, 0, 0, 0, 0, 0])
          (split_dots name)))"

definition dns_send_query ::
  "('a net_scheme \<Rightarrow> 'a net_scheme) \<Rightarrow> bytes \<Rightarrow> 'a net_scheme \<Rightarrow> bool \<times> 'a net_scheme" where
  "dns_send_query env name n =
     (case dns_query name of
        None \<Rightarrow> (False, n)
      | Some q \<Rightarrow>
          let udp = be_bytes 2 DNS_SRC_PORT @ be_bytes 2 DNS_PORT @ be_bytes 2 (of_nat (8 + length q) :: u16)
                @ [0, 0] @ q
          in transmit_ipv4 env DNS_SERVER 17 udp (n\<lparr>dns_result := None\<rparr>))"

function skip_name :: "bytes \<Rightarrow> nat \<Rightarrow> nat option" where
  "skip_name d p =
     (if length d \<le> p then None
      else if d ! p AND 0xc0 = 0xc0 then (if p + 1 < length d then Some (p + 2) else None)
      else if d ! p = 0 then Some (p + 1)
      else if length d < p + 1 + unat (d ! p) then None
      else skip_name d (p + 1 + unat (d ! p)))"
  by pat_completeness auto
termination
  by (relation "measure (\<lambda>(d, p). length d - p)") auto

declare skip_name.simps [simp del]

text \<open>
  A slice index that is out of range panics: \<open>byte_at\<close> and \<open>be16_at\<close> are the indexing
  expressions of the parser, \<open>None\<close> where they would panic.
\<close>

definition byte_at :: "nat \<Rightarrow> bytes \<Rightarrow> u8 option" where
  "byte_at p d = (if p < length d then Some (d ! p) else None)"

definition be16_at :: "nat \<Rightarrow> bytes \<Rightarrow> u16 option" where
  "be16_at p d = (if p + 1 < length d then Some (u16_at p d) else None)"

text \<open>The questions: \<open>Some None\<close> is the early return.\<close>

fun dns_questions :: "nat \<Rightarrow> bytes \<Rightarrow> nat \<Rightarrow> nat option" where
  "dns_questions 0 d p = Some p"
| "dns_questions (Suc k) d p =
     (case skip_name d p of
        None \<Rightarrow> None
      | Some p \<Rightarrow> if length d < p + 4 then None else dns_questions k d (p + 4))"

fun dns_answers :: "nat \<Rightarrow> bytes \<Rightarrow> nat \<Rightarrow> ip4 option option" where
  "dns_answers 0 d p = Some None"
| "dns_answers (Suc k) d p =
     (case skip_name d p of
        None \<Rightarrow> Some None
      | Some p \<Rightarrow>
          if length d < p + 10 then Some None
          else case (be16_at p d, be16_at (p + 2) d, be16_at (p + 8) d) of
            (Some typ, Some cls, Some l) \<Rightarrow>
              (let len = unat l; p = p + 10 in
               if length d < p + len then Some None
               else if typ = 1 \<and> cls = 1 \<and> len = 4 then
                 (case (byte_at p d, byte_at (p + 1) d, byte_at (p + 2) d, byte_at (p + 3) d) of
                    (Some a, Some b, Some c, Some e) \<Rightarrow> Some (Some (Ip a b c e))
                  | _ \<Rightarrow> None)
               else dns_answers k d (p + len))
          | _ \<Rightarrow> None)"

text \<open>The answer in a UDP segment: \<open>None\<close> is a panic, \<open>Some None\<close> no answer.\<close>

definition dns_answer :: "ip4 \<Rightarrow> bytes \<Rightarrow> ip4 option option" where
  "dns_answer src data =
     (if src \<noteq> DNS_SERVER \<or> length data < 20 then Some None
      else case (be16_at 0 data, be16_at 2 data) of
        (Some sp, Some dp) \<Rightarrow>
          if sp \<noteq> DNS_PORT \<or> dp \<noteq> DNS_SRC_PORT then Some None
          else let d = drop 8 data in
            if length d < 12 then Some None
            else (case (be16_at 0 d, byte_at 3 d, be16_at 4 d, be16_at 6 d) of
              (Some txid, Some rcode, Some qd, Some an) \<Rightarrow>
                if txid \<noteq> TXID \<or> rcode AND 0x0f \<noteq> 0 then Some None
                else (case dns_questions (unat qd) d 12 of
                        None \<Rightarrow> Some None
                      | Some p \<Rightarrow> dns_answers (unat an) d p)
            | _ \<Rightarrow> None)
      | _ \<Rightarrow> None)"

definition dns_handle_udp :: "ip4 \<Rightarrow> bytes \<Rightarrow> 'a net_scheme \<Rightarrow> 'a net_scheme option" where
  "dns_handle_udp src data n =
     (case dns_answer src data of
        None \<Rightarrow> None
      | Some None \<Rightarrow> Some n
      | Some (Some a) \<Rightarrow> Some (net_wake DNS_WAIT_KEY (n\<lparr>dns_result := Some a\<rparr>)))"

lemma dns_answers_no_panic: "dns_answers k d p \<noteq> None"
  by (induction k d p rule: dns_answers.induct)
    (auto simp: be16_at_def byte_at_def Let_def split: option.split)

lemma dns_answer_no_panic: "dns_answer src data \<noteq> None"
  using dns_answers_no_panic
  by (auto simp: dns_answer_def be16_at_def byte_at_def Let_def split: option.split)

lemma skip_name_bound: "skip_name d p = Some q \<Longrightarrow> p < q \<and> q \<le> length d"
proof (induction d p rule: skip_name.induct)
  case (1 d p)
  then show ?case by (subst (asm) (2) skip_name.simps) (auto split: if_splits)
qed

text \<open>A query's name is skipped exactly, whatever follows it.\<close>

lemma skip_name_label:
  assumes "0 < length l" "length l \<le> 63" "length q = p"
  shows "skip_name (q @ [of_nat (length l)] @ l @ r) p = skip_name (q @ [of_nat (length l)] @ l @ r) (p + 1 + length l)"
proof -
  have u: "unat (of_nat (length l) :: u8) = length l" using assms by (simp add: unat_of_nat_small)
  have "(of_nat (length l) :: u8) AND 0xc0 = 0"
  proof -
    have "(of_nat (length l) :: u8) = take_bit 6 (of_nat (length l))"
      using assms(2) by (simp add: take_bit_of_nat take_bit_nat_eq_self)
    then have "(of_nat (length l) :: u8) AND 0xc0 = take_bit 6 (of_nat (length l)) AND 0xc0" by simp
    also have "\<dots> = of_nat (length l) AND (0x3f AND 0xc0)"
      by (simp add: take_bit_eq_mask mask_eq_exp_minus_1 and.assoc)
    finally show ?thesis by simp
  qed
  moreover have "(of_nat (length l) :: u8) \<noteq> 0" using u assms(1) by (metis unat_0 neq0_conv)
  ultimately show ?thesis
    using assms u by (subst skip_name.simps) (simp add: nth_append)
qed

lemma skip_name_end: "length q = p \<Longrightarrow> skip_name (q @ 0 # r) p = Some (p + 1)"
  by (subst skip_name.simps) (simp add: nth_append)

lemma dns_labels_skip:
  "dns_labels q ls = Some q' \<Longrightarrow>
     \<exists>m. q' = q @ m \<and> (\<forall>q2 r. length q2 = length q \<longrightarrow>
       skip_name (q2 @ m @ 0 # r) (length q) = Some (length q' + 1))"
proof (induction q ls arbitrary: q' rule: dns_labels.induct)
  case (1 q)
  then show ?case by (simp add: skip_name_end)
next
  case (2 q label ls)
  let ?b = "[of_nat (length label)] @ label :: bytes"
  have c: "label \<noteq> []" "length label \<le> 63" and r: "dns_labels (q @ ?b) ls = Some q'"
    and nc: "\<not> (label = [] \<or> 63 < length label \<or> 256 < length q + 1 + length label + 5)"
    using 2(2) by (auto split: if_splits)
  obtain m where m: "q' = (q @ ?b) @ m"
    "\<And>q2 r. length q2 = length (q @ ?b) \<Longrightarrow>
       skip_name (q2 @ m @ 0 # r) (length (q @ ?b)) = Some (length q' + 1)"
    using 2(1) [OF nc] r by auto
  have "skip_name (q2 @ (?b @ m) @ 0 # r) (length q) = Some (length q' + 1)" if "length q2 = length q" for q2 r
    using skip_name_label [of label q2 "length q" "m @ 0 # r"] m(2) [of "q2 @ ?b" r] c that by simp
  then show ?case using m(1) by (intro exI [of _ "?b @ m"]) simp
qed

text \<open>The reply of a name server that answers the question of \<open>q\<close> with one address.\<close>

definition dns_reply :: "bytes \<Rightarrow> ip4 \<Rightarrow> bytes" where
  "dns_reply q a =
     be_bytes 2 DNS_PORT @ be_bytes 2 DNS_SRC_PORT @ be_bytes 2 (of_nat (8 + length q + 16) :: u16) @ [0, 0]
     @ take 2 q @ [0x81, 0x80, 0, 1, 0, 1, 0, 0, 0, 0] @ drop 12 q
     @ [0xc0, 0x0c, 0, 1, 0, 1, 0, 0, 0, 60, 0, 4] @ ip_bytes a"

lemma be2: "be_bytes 2 (w :: u16) = [ucast (drop_bit 8 w), ucast w]"
  by (simp add: be_bytes_def le_bytes_def numeral_2_eq_2)

lemma from_be_two: "from_be [ucast (drop_bit 8 w), ucast w] = (w :: u16)"
  using be16 [of w] by (simp add: be2)

lemma dns_query_shape:
  assumes "dns_query name = Some q"
  obtains m where "q = [0x4b, 0x47, 1, 0, 0, 1, 0, 0, 0, 0, 0, 0] @ m @ [0, 0, 1, 0, 1]"
    "\<And>q2 r. length q2 = 12 \<Longrightarrow> skip_name (q2 @ m @ 0 # r) 12 = Some (12 + length m + 1)"
proof -
  let ?h = "be_bytes 2 TXID @ be_bytes 2 (0x0100 :: u16) @ be_bytes 2 (1 :: u16) @ [0, 0, 0, 0, 0, 0]"
  obtain q0 where q0: "dns_labels ?h (split_dots name) = Some q0"
    and q: "q = q0 @ [0] @ be_bytes 2 (1 :: u16) @ be_bytes 2 (1 :: u16)"
    using assms by (auto simp: dns_query_def split: if_splits)
  obtain m where m: "q0 = ?h @ m"
    "\<And>q2 r. length q2 = length ?h \<Longrightarrow> skip_name (q2 @ m @ 0 # r) (length ?h) = Some (length q0 + 1)"
    using dns_labels_skip [OF q0] by blast
  show thesis
  proof (rule that [of m])
    show "q = [0x4b, 0x47, 1, 0, 0, 1, 0, 0, 0, 0, 0, 0] @ m @ [0, 0, 1, 0, 1]"
      by (simp add: q m(1) be2)
    show "skip_name (q2 @ m @ 0 # r) 12 = Some (12 + length m + 1)" if "length q2 = 12" for q2 r
      using m(2) [of q2 r] that by (simp add: m(1))
  qed
qed

lemma from_be_small: "from_be [0, b] = (ucast b :: u16)"
  by (simp add: from_be_def from_le.simps)

lemma dns_reply_answer:
  assumes "dns_query name = Some q"
  shows "dns_answer DNS_SERVER (dns_reply q a) = Some (Some a)"
proof -
  obtain m where q: "q = [0x4b, 0x47, 1, 0, 0, 1, 0, 0, 0, 0, 0, 0] @ m @ [0, 0, 1, 0, 1]"
    and skip: "\<And>q2 r. length q2 = 12 \<Longrightarrow> skip_name (q2 @ m @ 0 # r) 12 = Some (12 + length m + 1)"
    using assms by (rule dns_query_shape) blast
  obtain a0 a1 a2 a3 where a: "a = Ip a0 a1 a2 a3" by (cases a)
  define ans where "ans = [0xc0, 0x0c, 0, 1, 0, 1, 0, 0, 0, 60, 0, 4, a0, a1, a2, a3 :: u8]"
  define d where "d = [0x4b, 0x47, 0x81, 0x80, 0, 1, 0, 1, 0, 0, 0, 0] @ m @ 0 # [0, 1, 0, 1] @ ans"
  have len: "length d = length m + 33" by (simp add: d_def ans_def)
  have dq: "drop 8 (dns_reply q a) = d" by (simp add: dns_reply_def q a be2 d_def ans_def)
  have q1: "dns_questions 1 d 12 = Some (length m + 17)"
    using skip [of "[0x4b, 0x47, 0x81, 0x80, 0, 1, 0, 1, 0, 0, 0, 0]" "[0, 1, 0, 1] @ ans"] len
    by (simp add: d_def ans_def)
  have nth: "d ! (length m + 17 + i) = ans ! i" for i
    by (simp add: d_def nth_append)
  have sk: "skip_name d (length m + 17) = Some (length m + 19)"
    using nth [of 0] len by (subst skip_name.simps) (simp add: ans_def)
  have by1: "byte_at (length m + 17 + i) d = Some (ans ! i)" if "i < 16" for i
    using nth [of i] that len by (simp add: byte_at_def)
  have by2: "be16_at (length m + 17 + i) d = Some (from_be [ans ! i, ans ! (i + 1)])" if "i < 15" for i
    using nth [of i] nth [of "i + 1"] that len by (simp add: be16_at_def u16_at_def)
  have an: "dns_answers 1 d (length m + 17) = Some (Some a)"
  proof -
    have g: "be16_at (length m + 19) d = Some 1" "be16_at (length m + 19 + 2) d = Some 1"
      "be16_at (length m + 19 + 8) d = Some 4" "byte_at (length m + 19 + 10) d = Some a0"
      "byte_at (length m + 19 + 10 + 1) d = Some a1" "byte_at (length m + 19 + 10 + 2) d = Some a2"
      "byte_at (length m + 19 + 10 + 3) d = Some a3"
      using by2 [of 2] by2 [of 4] by2 [of 10] by1 [of 12] by1 [of 13] by1 [of 14] by1 [of 15]
      by (simp_all add: ans_def from_be_small add.commute [of "length m"])
    have "\<not> length d < length m + 19 + 10" "\<not> length d < length m + 19 + 10 + 4" using len by simp_all
    then show ?thesis unfolding One_nat_def dns_answers.simps sk option.case Let_def if_not_P g prod.case a
      using by1 [of 13] by (simp add: g ans_def)
  qed
  have hd: "be16_at 0 d = Some TXID" "byte_at 3 d = Some 0x80" "be16_at 4 d = Some 1" "be16_at 6 d = Some 1"
    by (simp_all add: be16_at_def byte_at_def d_def u16_at_def from_be_small)
      (simp add: from_be_def from_le.simps)
  have pre: "be16_at 0 (dns_reply q a) = Some 53" "be16_at 2 (dns_reply q a) = Some 49152"
    "20 \<le> length (dns_reply q a)"
    by (simp_all add: be16_at_def u16_at_def dns_reply_def be2 from_be_def from_le.simps q a)
  show ?thesis
    unfolding dns_answer_def using pre dq hd q1 an len by (simp add: Let_def)
qed

end
