(* ===== verification/Net_Sockets.thy ===== *)
theory Net_Sockets
  imports Dns Tcp
begin

text \<open>
  UDP sockets (\<^verbatim>\<open>drivers/net/udp.rs\<close>), the TCP connection table and the socket calls
  (\<^verbatim>\<open>drivers/net/tcp.rs\<close>), the dispatch of received frames (\<^verbatim>\<open>drivers/net/arp.rs\<close>) and
  \<^verbatim>\<open>net::poll\<close>. A socket is named by its address, which is also its wait key.
\<close>

unbundle bit_operations_syntax

section \<open>Sockets\<close>

abbreviation (input) UDP_PROTOCOL :: u8 where "UDP_PROTOCOL \<equiv> 17"
abbreviation (input) UDP_HEADER_LEN :: nat where "UDP_HEADER_LEN \<equiv> 8"
abbreviation (input) MAX_PAYLOAD :: nat where "MAX_PAYLOAD \<equiv> 1472"
abbreviation (input) QUEUE_DATAGRAMS :: nat where "QUEUE_DATAGRAMS \<equiv> 16"

record Datagram =
  dg_from :: Endpoint
  dg_data :: bytes

text \<open>
  The state behind the spinlock of a \<^verbatim>\<open>UdpSocket\<close>. \<open>udp_strong\<close> says that an \<^verbatim>\<open>Arc\<close> to
  the socket is still held, which is what \<^verbatim>\<open>strong_count\<close> and \<^verbatim>\<open>upgrade\<close> of a weak
  reference observe; a socket is named by its address, the wait key.
\<close>

record UdpState =
  udp_port :: u16
  udp_peer :: "Endpoint option"
  udp_queue :: "Datagram list"
  udp_strong :: bool

record Entry =
  en_port :: u16
  en_remote :: Endpoint
  en_conn :: u64

text \<open>
  The whole network state: \<open>udp_ports\<close> and \<open>tcp_conns\<close> are the tables \<^verbatim>\<open>PORTS\<close> and
  \<^verbatim>\<open>CONNS\<close>, \<open>udp_next\<close> and \<open>tcp_next\<close> the two \<^verbatim>\<open>NEXT_EPHEMERAL\<close> cursors.
\<close>

record stack = net +
  udp_ports :: "(u16 \<times> u64) list"
  udp_next :: u16
  udp_sockets :: "u64 \<Rightarrow> UdpState"
  tcp_conns :: "Entry list"
  tcp_next :: u16
  tcbs :: "u64 \<Rightarrow> Tcb"
  forgotten :: "u64 list"

definition net_forget_wait_key :: "u64 \<Rightarrow> stack \<Rightarrow> stack" where
  "net_forget_wait_key k n = n\<lparr>forgotten := forgotten n @ [k]\<rparr>"

subsection \<open>UDP\<close>

definition set_udp :: "u64 \<Rightarrow> UdpState \<Rightarrow> stack \<Rightarrow> stack" where
  "set_udp k s n = n\<lparr>udp_sockets := (udp_sockets n)(k := s)\<rparr>"

definition udp_new :: "u64 \<Rightarrow> stack \<Rightarrow> stack" where
  "udp_new k n = set_udp k \<lparr>udp_port = 0, udp_peer = None, udp_queue = [], udp_strong = True\<rparr> n"

definition udp_in_use :: "stack \<Rightarrow> u16 \<Rightarrow> bool" where
  "udp_in_use n p \<longleftrightarrow> p = DNS_SRC_PORT \<or> p \<in> fst ` set (udp_ports n)"

definition udp_register :: "u64 \<Rightarrow> u16 \<Rightarrow> stack \<Rightarrow> stack" where
  "udp_register k p n =
     set_udp k ((udp_sockets n k)\<lparr>udp_port := p\<rparr>) (n\<lparr>udp_ports := udp_ports n @ [(p, k)]\<rparr>)"

definition udp_bind_port :: "u64 \<Rightarrow> u16 \<Rightarrow> bool \<Rightarrow> stack \<Rightarrow> (FsError + u16) \<times> stack" where
  "udp_bind_port k p implicit n =
     (let n = n\<lparr>udp_ports := filter (\<lambda>(_, s). udp_strong (udp_sockets n s)) (udp_ports n)\<rparr> in
      if udp_port (udp_sockets n k) \<noteq> 0 then
        (if implicit then Inr (udp_port (udp_sockets n k)) else Inl InvalidArgument, n)
      else if p \<noteq> 0 then
        (if udp_in_use n p then (Inl AddressInUse, n) else (Inr p, udp_register k p n))
      else
        (case pick_ephemeral ephemeral_span (udp_in_use n) (udp_next n) of
           (None, next) \<Rightarrow> (Inl AddressInUse, n\<lparr>udp_next := next\<rparr>)
         | (Some c, next) \<Rightarrow> (Inr c, udp_register k c (n\<lparr>udp_next := next\<rparr>))))"

definition udp_bind :: "u64 \<Rightarrow> u16 \<Rightarrow> stack \<Rightarrow> (FsError + u16) \<times> stack" where
  "udp_bind k p n = udp_bind_port k p False n"

definition udp_ensure_bound :: "u64 \<Rightarrow> stack \<Rightarrow> (FsError + u16) \<times> stack" where
  "udp_ensure_bound k n =
     (let p = udp_port (udp_sockets n k) in if p \<noteq> 0 then (Inr p, n) else udp_bind_port k 0 True n)"

definition udp_connect :: "u64 \<Rightarrow> Endpoint \<Rightarrow> stack \<Rightarrow> (FsError + unit) \<times> stack" where
  "udp_connect k peer n =
     (if ep_port peer = 0 then (Inl InvalidArgument, n)
      else case udp_ensure_bound k n of
        (Inl e, n) \<Rightarrow> (Inl e, n)
      | (Inr _, n) \<Rightarrow>
          let s = udp_sockets n k in
          (Inr (), set_udp k (s\<lparr>udp_peer := Some peer,
                                 udp_queue := filter (\<lambda>d. dg_from d = peer) (udp_queue s)\<rparr>) n))"

text \<open>The segment with a zero checksum field and with the checksum stored.\<close>

definition udp_segment0 :: "u16 \<Rightarrow> u16 \<Rightarrow> bytes \<Rightarrow> bytes" where
  "udp_segment0 sport dport data =
     be_bytes 2 sport @ be_bytes 2 dport
     @ be_bytes 2 (of_nat (UDP_HEADER_LEN + length data) :: u16) @ [0, 0] @ data"

definition udp_segment :: "ip4 \<Rightarrow> u16 \<Rightarrow> Endpoint \<Rightarrow> bytes \<Rightarrow> bytes" where
  "udp_segment src_ip sport dest data =
     (let segment = udp_segment0 sport (ep_port dest) data;
          sum = transport_checksum src_ip (ep_ip dest) UDP_PROTOCOL segment;
          checksum = if sum = 0 then 0xFFFF else sum
      in blit 6 (be_bytes 2 checksum) segment)"

text \<open>
  \<open>env\<close> is again what happens to the state while \<^verbatim>\<open>arp_resolve\<close> waits.
\<close>

definition udp_send_to ::
  "(stack \<Rightarrow> stack) \<Rightarrow> u64 \<Rightarrow> Endpoint option \<Rightarrow> bytes \<Rightarrow> stack \<Rightarrow> (FsError + nat) \<times> stack" where
  "udp_send_to env k dest data n =
     (if MAX_PAYLOAD < length data then (Inl InvalidArgument, n)
      else case (case dest of Some d \<Rightarrow> Some d | None \<Rightarrow> udp_peer (udp_sockets n k)) of
        None \<Rightarrow> (Inl NotConnected, n)
      | Some dest \<Rightarrow>
          if ep_port dest = 0 then (Inl InvalidArgument, n)
          else case udp_ensure_bound k n of
            (Inl e, n) \<Rightarrow> (Inl e, n)
          | (Inr lport, n) \<Rightarrow>
             (case get_ip_address n of
                None \<Rightarrow> (Inl NetworkUnreachable, n)
              | Some src_ip \<Rightarrow>
                  let (ok, n) = transmit_ipv4 env (ep_ip dest) UDP_PROTOCOL (udp_segment src_ip lport dest data) n
                  in (if ok then Inr (length data) else Inl NetworkUnreachable, n)))"

text \<open>
  One turn of the loop of \<^verbatim>\<open>recv_from\<close> at time \<open>now\<close>; \<open>None\<close> is the wait. The whole
  call runs over the turns it takes: the time of each, and what happens to the
  state before it.
\<close>

definition udp_recv_turn ::
  "nat \<Rightarrow> nat option \<Rightarrow> u64 \<Rightarrow> nat \<Rightarrow> stack \<Rightarrow> (FsError + bytes \<times> Endpoint) option \<times> stack" where
  "udp_recv_turn now limit k buf_len n =
     (let s = udp_sockets n k in
      if udp_port s = 0 then (Some (Inl NotConnected), n)
      else case udp_queue s of
        d # q \<Rightarrow> (Some (Inr (take (min (length (dg_data d)) buf_len) (dg_data d), dg_from d)),
                  set_udp k (s\<lparr>udp_queue := q\<rparr>) n)
      | [] \<Rightarrow> ((case limit of Some dl \<Rightarrow> if dl \<le> now then Some (Inl TimedOut) else None
                 | None \<Rightarrow> None), n))"

fun udp_recv_loop ::
  "(nat \<times> (stack \<Rightarrow> stack)) list \<Rightarrow> nat option \<Rightarrow> u64 \<Rightarrow> nat \<Rightarrow> stack \<Rightarrow>
   (FsError + bytes \<times> Endpoint) option \<times> stack" where
  "udp_recv_loop [] limit k buf_len n = (None, n)"
| "udp_recv_loop ((now, env) # turns) limit k buf_len n =
     (case udp_recv_turn now limit k buf_len (env n) of
        (None, n) \<Rightarrow> udp_recv_loop turns limit k buf_len n
      | (Some r, n) \<Rightarrow> (Some r, n))"

definition udp_recv_from ::
  "nat \<Rightarrow> (nat \<times> (stack \<Rightarrow> stack)) list \<Rightarrow> u64 \<Rightarrow> nat \<Rightarrow> nat option \<Rightarrow> stack \<Rightarrow>
   (FsError + bytes \<times> Endpoint) option \<times> stack" where
  "udp_recv_from now turns k buf_len timeout n =
     udp_recv_loop turns (map_option (\<lambda>ticks. now + max ticks 1) timeout) k buf_len n"

definition udp_local_port :: "u64 \<Rightarrow> stack \<Rightarrow> u16" where
  "udp_local_port k n = udp_port (udp_sockets n k)"

text \<open>
  The last handle goes away in two steps: the strong count reaches zero, then the
  destructor runs.
\<close>

definition udp_release :: "u64 \<Rightarrow> stack \<Rightarrow> stack" where
  "udp_release k n = set_udp k ((udp_sockets n k)\<lparr>udp_strong := False\<rparr>) n"

definition udp_drop :: "u64 \<Rightarrow> stack \<Rightarrow> stack" where
  "udp_drop k n = net_forget_wait_key k (n\<lparr>udp_ports := filter (\<lambda>(_, s). s \<noteq> k) (udp_ports n)\<rparr>)"

definition udp_deliver :: "Endpoint \<Rightarrow> bytes \<Rightarrow> u64 \<Rightarrow> stack \<Rightarrow> stack" where
  "udp_deliver from data k n =
     (let s = udp_sockets n k in
      if (case udp_peer s of None \<Rightarrow> False | Some peer \<Rightarrow> peer \<noteq> from) \<or> QUEUE_DATAGRAMS \<le> length (udp_queue s)
      then n
      else net_wake k (set_udp k (s\<lparr>udp_queue := udp_queue s @ [\<lparr>dg_from = from, dg_data = data\<rparr>]\<rparr>) n))"

text \<open>\<open>None\<close> is a panic.\<close>

definition udp_handle_incoming :: "ip4 \<Rightarrow> ip4 \<Rightarrow> bytes \<Rightarrow> stack \<Rightarrow> stack option" where
  "udp_handle_incoming src_ip dst_ip segment n =
     (if length segment < UDP_HEADER_LEN then Some n
      else let src_port = u16_at 0 segment; dst_port = u16_at 2 segment; len = unat (u16_at 4 segment) in
        if len < UDP_HEADER_LEN \<or> length segment < len then Some n
        else let segment = take len segment in
          if slice_of 6 8 segment \<noteq> [0, 0] \<and> transport_checksum src_ip dst_ip UDP_PROTOCOL segment \<noteq> 0
          then Some n
          else if dst_port = DNS_SRC_PORT then dns_handle_udp src_ip segment n
          else case find (\<lambda>(p, _). p = dst_port) (udp_ports n) of
            None \<Rightarrow> Some n
          | Some (_, k) \<Rightarrow>
              Some (if udp_strong (udp_sockets n k)
                    then udp_deliver \<lparr>ep_ip = src_ip, ep_port = src_port\<rparr> (drop UDP_HEADER_LEN segment) k n
                    else n))"

subsection \<open>TCP connections\<close>

text \<open>
  The block's \<open>outbox\<close> is the log of its \<^verbatim>\<open>transmit\<close> calls: what an operation on the
  block appends to it is transmitted, in order.
\<close>

definition tcp_update :: "u64 \<Rightarrow> Tcb \<Rightarrow> stack \<Rightarrow> stack" where
  "tcp_update k t n =
     fold (\<lambda>x n. snd (tcp_transmit x n)) (drop (length (outbox (tcbs n k))) (outbox t))
       (n\<lparr>tcbs := (tcbs n)(k := t)\<rparr>)"

definition tcp_new :: "u64 \<Rightarrow> stack \<Rightarrow> stack" where
  "tcp_new k n = n\<lparr>tcbs := (tcbs n)(k := tcb_new)\<rparr>"

text \<open>The destructor of a connection that neither a handle nor the table refers to.\<close>

definition conn_drop :: "u64 \<Rightarrow> stack \<Rightarrow> stack" where
  "conn_drop k n = net_forget_wait_key k n"

definition tcp_remove :: "u64 \<Rightarrow> stack \<Rightarrow> stack" where
  "tcp_remove k n = n\<lparr>tcp_conns := filter (\<lambda>en. en_conn en \<noteq> k) (tcp_conns n)\<rparr>"

text \<open>Take a block that has closed out of the table.\<close>

definition tcp_reap :: "u64 \<Rightarrow> stack \<Rightarrow> stack" where
  "tcp_reap k n = (if state (tcbs n k) = Closed then tcp_remove k n else n)"

definition tcp_open :: "nat \<Rightarrow> u32 \<Rightarrow> u64 \<Rightarrow> Endpoint \<Rightarrow> stack \<Rightarrow> (FsError + unit) \<times> stack" where
  "tcp_open now isn k rem n =
     (if state (tcbs n k) \<noteq> Idle then (Inl InvalidArgument, n)
      else case pick_ephemeral ephemeral_span (\<lambda>c. c \<in> en_port ` set (tcp_conns n)) (tcp_next n) of
        (None, next) \<Rightarrow> (Inl AddressInUse, n\<lparr>tcp_next := next\<rparr>)
      | (Some p, next) \<Rightarrow>
          let n = tcp_update k (tcb_connect p rem isn now (tcbs n k)) (n\<lparr>tcp_next := next\<rparr>)
          in (Inr (), n\<lparr>tcp_conns := tcp_conns n @ [\<lparr>en_port = p, en_remote = rem, en_conn = k\<rparr>]\<rparr>))"

definition tcp_begin ::
  "(stack \<Rightarrow> stack) \<Rightarrow> nat \<Rightarrow> u32 \<Rightarrow> u64 \<Rightarrow> Endpoint \<Rightarrow> stack \<Rightarrow> (FsError + unit) \<times> stack" where
  "tcp_begin env now isn k rem n =
     (if ep_port rem = 0 \<or> ep_ip rem = Ip 0 0 0 0 then (Inl InvalidArgument, n)
      else case next_hop (ep_ip rem) n of
        None \<Rightarrow> (Inl NetworkUnreachable, n)
      | Some hop \<Rightarrow>
         (case arp_resolve env hop n of
            (None, n) \<Rightarrow> (Inl NetworkUnreachable, n)
          | (Some _, n) \<Rightarrow> tcp_open now isn k rem n))"

text \<open>The blocking loops take the turns they run, as for UDP.\<close>

fun tcp_connect_wait :: "(stack \<Rightarrow> stack) list \<Rightarrow> u64 \<Rightarrow> stack \<Rightarrow> (FsError + unit) option \<times> stack" where
  "tcp_connect_wait [] k n = (None, n)"
| "tcp_connect_wait (env # turns) k n =
     (let n = env n in
      case tcb_connected (tcbs n k) of
        Some r \<Rightarrow> (Some r, n)
      | None \<Rightarrow> tcp_connect_wait turns k n)"

definition tcp_connect ::
  "(stack \<Rightarrow> stack) \<Rightarrow> nat \<Rightarrow> u32 \<Rightarrow> (stack \<Rightarrow> stack) list \<Rightarrow> u64 \<Rightarrow> Endpoint \<Rightarrow> stack \<Rightarrow>
   (FsError + unit) option \<times> stack" where
  "tcp_connect env now isn turns k rem n =
     (case tcp_begin env now isn k rem n of
        (Inl e, n) \<Rightarrow> (Some (Inl e), n)
      | (Inr _, n) \<Rightarrow> tcp_connect_wait turns k n)"

definition tcp_read_turn :: "u64 \<Rightarrow> nat \<Rightarrow> stack \<Rightarrow> (FsError + bytes) option \<times> stack" where
  "tcp_read_turn k buf_len n = (let (r, t) = tcb_read buf_len (tcbs n k) in (r, tcp_update k t n))"

fun tcp_read_loop :: "(stack \<Rightarrow> stack) list \<Rightarrow> u64 \<Rightarrow> nat \<Rightarrow> stack \<Rightarrow> (FsError + bytes) option \<times> stack" where
  "tcp_read_loop [] k buf_len n = (None, n)"
| "tcp_read_loop (env # turns) k buf_len n =
     (case tcp_read_turn k buf_len (env n) of
        (None, n) \<Rightarrow> tcp_read_loop turns k buf_len n
      | (Some r, n) \<Rightarrow> (Some r, n))"

definition tcp_read :: "(stack \<Rightarrow> stack) list \<Rightarrow> u64 \<Rightarrow> nat \<Rightarrow> stack \<Rightarrow> (FsError + bytes) option \<times> stack" where
  "tcp_read turns k buf_len n =
     (if buf_len = 0 then (Some (Inr []), n) else tcp_read_loop turns k buf_len n)"

definition tcp_write_turn :: "nat \<Rightarrow> u64 \<Rightarrow> bytes \<Rightarrow> nat \<Rightarrow> stack \<Rightarrow> write_turn \<times> stack" where
  "tcp_write_turn now k data written n =
     (let (r, t) = tcb_write now data written (tcbs n k) in (r, tcp_update k t n))"

fun tcp_write ::
  "(nat \<times> (stack \<Rightarrow> stack)) list \<Rightarrow> u64 \<Rightarrow> bytes \<Rightarrow> nat \<Rightarrow> stack \<Rightarrow> (FsError + nat) option \<times> stack" where
  "tcp_write turns k data written n =
     (if length data \<le> written then (Some (Inr written), n)
      else case turns of
        [] \<Rightarrow> (None, n)
      | (now, env) # turns \<Rightarrow>
         (case tcp_write_turn now k data written (env n) of
            (WriteEnds r, n) \<Rightarrow> (Some r, n)
          | (WriteQueues w, n) \<Rightarrow> tcp_write turns k data w n
          | (WriteWaits, n) \<Rightarrow> tcp_write turns k data written n))"

definition tcp_drop :: "nat \<Rightarrow> u64 \<Rightarrow> stack \<Rightarrow> stack" where
  "tcp_drop now k n = tcp_reap k (tcp_update k (tcb_close now (tcbs n k)) n)"

text \<open>The reset that answers a segment of no connection.\<close>

definition tcp_refuse :: "Endpoint \<Rightarrow> Segment \<Rightarrow> stack \<Rightarrow> stack" where
  "tcp_refuse rem seg n =
     (if has (seg_flags seg) RST then n
      else let fin_syn = if has (seg_flags seg) (SYN OR FIN) then 1 else 0 in
        snd (tcp_transmit
          (if has (seg_flags seg) ACK
           then \<lparr>x_port = seg_dst seg, x_remote = rem, x_seq = seg_ack seg, x_ack = 0,
                 x_flags = RST, x_window = 0, x_payload = []\<rparr>
           else \<lparr>x_port = seg_dst seg, x_remote = rem, x_seq = 0,
                 x_ack = seg_seq seg + of_nat (length (seg_payload seg)) + fin_syn,
                 x_flags = RST OR ACK, x_window = 0, x_payload = []\<rparr>) n))"

definition tcp_handle_incoming :: "nat \<Rightarrow> ip4 \<Rightarrow> ip4 \<Rightarrow> bytes \<Rightarrow> stack \<Rightarrow> stack" where
  "tcp_handle_incoming now src_ip dst_ip segment n =
     (if transport_checksum src_ip dst_ip TCP_PROTOCOL segment \<noteq> 0 then n
      else case tcp_parse segment of
        None \<Rightarrow> n
      | Some seg \<Rightarrow>
          let rem = \<lparr>ep_ip = src_ip, ep_port = seg_src seg\<rparr> in
          case find (\<lambda>en. en_port en = seg_dst seg \<and> en_remote en = rem) (tcp_conns n) of
            None \<Rightarrow> tcp_refuse rem seg n
          | Some en \<Rightarrow>
              let k = en_conn en
              in tcp_reap k (net_wake k (tcp_update k (on_segment seg now (tcbs n k)) n)))"

definition tcp_timer_one :: "nat \<Rightarrow> u64 \<Rightarrow> stack \<Rightarrow> stack" where
  "tcp_timer_one now k n =
     (let fired = (case deadline (tcbs n k) of None \<Rightarrow> False | Some dl \<Rightarrow> dl \<le> now);
          n = (if fired then net_wake k (tcp_update k (tcb_on_timer now (tcbs n k)) n) else n)
      in tcp_reap k n)"

definition tcp_on_timer :: "nat \<Rightarrow> stack \<Rightarrow> stack" where
  "tcp_on_timer now n = fold (tcp_timer_one now) (map en_conn (tcp_conns n)) n"


section \<open>Received frames\<close>

text \<open>
  \<open>rx_buffer\<close> is the 1514-byte buffer on the stack, zero where nothing was received.
  Offsets: Ethernet header 0 (destination 0, source 6, type 12); ARP packet 14 (opcode
  20, sender MAC 22, sender IP 28, target IP 38); IPv4 header 14 (length 16, protocol
  23, checksum 24, source 26, destination 30).
\<close>

definition rx_buffer :: "bytes \<Rightarrow> bytes" where
  "rx_buffer bs = bs @ replicate (1514 - length bs) 0"

definition rx_arp :: "ip4 \<Rightarrow> mac6 \<Rightarrow> bytes \<Rightarrow> stack \<Rightarrow> stack" where
  "rx_arp my_ip my_mac buf n =
     (let opcode = u16_at 20 buf; sender_mac = mac_at 22 buf; sender_ip = ip_at 28 buf in
      if opcode = 1 \<and> ip_at 38 buf = my_ip then
        snd (net_transmit (arp_frame sender_mac my_mac 2 my_mac my_ip sender_mac sender_ip)
               (arp_cache_insert sender_ip sender_mac n))
      else if opcode = 2 then wake_arp_waiters sender_ip (arp_cache_insert sender_ip sender_mac n)
      else n)"

definition ip_ihl :: "bytes \<Rightarrow> nat" where
  "ip_ihl buf = unat (buf ! 14 AND 0x0F) * 4"

definition ip_total :: "bytes \<Rightarrow> nat" where
  "ip_total buf = unat (u16_at 16 buf)"

text \<open>
  The echo reply built in place in the buffer; \<open>None\<close> is a panic or an access outside
  the buffer.
\<close>

definition echo_checksum :: "bytes \<Rightarrow> (nat \<times> bytes) option" where
  "echo_checksum buf =
     (let ihl = ip_ihl buf; off = 14 + ihl;
          buf = blit off [0] buf;
          buf = blit (off + 2) [0, 0] buf;
          tot = ip_total buf
      in if tot < ihl \<or> 1514 < 14 + tot then None
         else map_option (\<lambda>c. (tot, blit (off + 2) (be_bytes 2 c) buf))
                (calculate_checksum (slice_of off (14 + tot) buf)))"

definition echo_addresses :: "ip4 \<Rightarrow> mac6 \<Rightarrow> nat \<Rightarrow> bytes \<Rightarrow> bytes option" where
  "echo_addresses my_ip my_mac ihl buf =
     (let temp_ip = ip_at 26 buf;
          buf = blit 26 (ip_bytes my_ip) buf;
          buf = blit 30 (ip_bytes temp_ip) buf;
          buf = blit 24 [0, 0] buf
      in map_option
           (\<lambda>c. let buf = blit 24 (be_bytes 2 c) buf;
                    buf = blit 0 (mac_bytes (mac_at 6 buf)) buf
                in blit 6 (mac_bytes my_mac) buf)
           (calculate_checksum (slice_of 14 (14 + ihl) buf)))"

definition echo_reply :: "ip4 \<Rightarrow> mac6 \<Rightarrow> bytes \<Rightarrow> bytes option" where
  "echo_reply my_ip my_mac buf =
     (case echo_checksum buf of
        None \<Rightarrow> None
      | Some (tot, buf') \<Rightarrow> map_option (take (14 + tot)) (echo_addresses my_ip my_mac (ip_ihl buf) buf'))"

text \<open>
  \<open>chk\<close>: the build checks arithmetic overflow (the development profile), so that a
  total length shorter than the header panics; otherwise the difference wraps.
\<close>

definition echo_payload_len :: "bool \<Rightarrow> bytes \<Rightarrow> nat option" where
  "echo_payload_len chk buf =
     (if ip_total buf < ip_ihl buf then (if chk then None else Some 64)
      else let icmp_len = ip_total buf - ip_ihl buf
           in Some (if 8 < icmp_len then min (icmp_len - 8) 64 else 0))"

definition rx_echo_reply :: "bytes \<Rightarrow> nat \<Rightarrow> IcmpEchoReply" where
  "rx_echo_reply buf len =
     (let off = 14 + ip_ihl buf in
      \<lparr>reply_ip = ip_at 26 buf, reply_id = u16_at (off + 4) buf, reply_seq = u16_at (off + 6) buf,
       reply_len = of_nat len,
       reply_payload = slice_of (off + 8) (off + 8 + len) buf @ replicate (64 - len) 0\<rparr>)"

definition rx_icmp :: "bool \<Rightarrow> ip4 \<Rightarrow> mac6 \<Rightarrow> nat \<Rightarrow> bytes \<Rightarrow> stack \<Rightarrow> stack option" where
  "rx_icmp chk my_ip my_mac received buf n =
     (let off = 14 + ip_ihl buf in
      if received < off + 8 then Some n
      else if buf ! off = 8 then map_option (\<lambda>f. snd (net_transmit f n)) (echo_reply my_ip my_mac buf)
      else if buf ! off = 0 then
        map_option (\<lambda>len. push_icmp_reply (rx_echo_reply buf len) n) (echo_payload_len chk buf)
      else Some n)"

definition rx_ipv4 :: "bool \<Rightarrow> nat \<Rightarrow> ip4 \<Rightarrow> mac6 \<Rightarrow> nat \<Rightarrow> bytes \<Rightarrow> stack \<Rightarrow> stack option" where
  "rx_ipv4 chk now my_ip my_mac received buf n =
     (if received < 14 + 20 \<or> ip_at 30 buf \<noteq> my_ip then Some n
      else let ihl = ip_ihl buf; tot = ip_total buf; src = ip_at 26 buf; dst = ip_at 30 buf in
        if buf ! 23 = UDP_PROTOCOL then
          (if ihl + 8 \<le> tot \<and> 14 + tot \<le> received
           then udp_handle_incoming src dst (slice_of (14 + ihl) (14 + tot) buf) n else Some n)
        else if buf ! 23 = TCP_PROTOCOL then
          Some (if ihl + 20 \<le> tot \<and> 14 + tot \<le> received
                then tcp_handle_incoming now src dst (slice_of (14 + ihl) (14 + tot) buf) n else n)
        else if buf ! 23 = 1 then rx_icmp chk my_ip my_mac received buf n
        else Some n)"

definition rx_frame :: "bool \<Rightarrow> nat \<Rightarrow> ip4 \<Rightarrow> mac6 \<Rightarrow> bytes \<Rightarrow> stack \<Rightarrow> (bool \<times> stack) option" where
  "rx_frame chk now my_ip my_mac bs n =
     (if length bs < 14 then Some (False, n)
      else let buf = rx_buffer bs; ethertype = u16_at 12 buf in
        map_option (Pair True)
          (if ethertype = 0x0806 then Some (rx_arp my_ip my_mac buf n)
           else if ethertype = 0x0800 then rx_ipv4 chk now my_ip my_mac (length bs) buf n
           else Some n))"

definition handle_incoming_packets ::
  "bool \<Rightarrow> nat \<Rightarrow> ip4 \<Rightarrow> mac6 \<Rightarrow> stack \<Rightarrow> (bool \<times> stack) option" where
  "handle_incoming_packets chk now my_ip my_mac n =
     (let (bs, n) = net_poll_rx 1514 n in rx_frame chk now my_ip my_mac bs n)"

text \<open>The bounded drain: the number of frames handled.\<close>

abbreviation (input) RX_DRAIN_BUDGET :: nat where "RX_DRAIN_BUDGET \<equiv> 8"

fun rx_drain :: "nat \<Rightarrow> bool \<Rightarrow> nat \<Rightarrow> ip4 \<Rightarrow> mac6 \<Rightarrow> stack \<Rightarrow> (nat \<times> stack) option" where
  "rx_drain 0 chk now my_ip my_mac n = Some (0, n)"
| "rx_drain (Suc b) chk now my_ip my_mac n =
     (case handle_incoming_packets chk now my_ip my_mac n of
        None \<Rightarrow> None
      | Some (False, n) \<Rightarrow> Some (0, n)
      | Some (True, n) \<Rightarrow> map_option (\<lambda>(d, n). (d + 1, n)) (rx_drain b chk now my_ip my_mac n))"

definition mark_rx_work_pending :: "stack \<Rightarrow> stack" where
  "mark_rx_work_pending n = n\<lparr>rx_work_pending := True\<rparr>"

definition take_rx_work_pending :: "stack \<Rightarrow> bool \<times> stack" where
  "take_rx_work_pending n = (rx_work_pending n, n\<lparr>rx_work_pending := False\<rparr>)"

definition net_poll :: "bool \<Rightarrow> nat \<Rightarrow> stack \<Rightarrow> stack option" where
  "net_poll chk now n =
     (let (irq_work, n) = take_rx_work_pending n;
          n = (if irq_work then n\<lparr>rx_irq_reported := True\<rparr> else n)
      in if \<not> net_is_ready n then Some n
         else let n = tcp_on_timer now n in
           case (get_ip_address n, get_mac_address n) of
             (Some my_ip, Some my_mac) \<Rightarrow>
               if \<not> irq_work then Some n
               else map_option (\<lambda>(drained, n). if drained = RX_DRAIN_BUDGET then mark_rx_work_pending n else n)
                      (rx_drain RX_DRAIN_BUDGET chk now my_ip my_mac n)
           | _ \<Rightarrow> Some n)"

end
