(* ===== verification/Net_Safety.thy ===== *)
theory Net_Safety
  imports Net_Sockets Tcp_Stream
begin

text \<open>
  The lemmas behind the properties of the network stack: which frames fault, the
  echo reply, UDP checksums, and the invariant of the socket tables with its
  preservation by every operation.
\<close>

unbundle bit_operations_syntax

lemma length_rx_buffer [simp]: "length bs \<le> 1514 \<Longrightarrow> length (rx_buffer bs) = 1514"
  by (simp add: rx_buffer_def)

lemma ip_ihl_le: "ip_ihl buf \<le> 60"
proof -
  have "buf ! 14 AND 0x0F = take_bit 4 (buf ! 14)" by (simp add: take_bit_eq_mask mask_eq_exp_minus_1)
  then have "unat (buf ! 14 AND 0x0F) < 16"
    by (simp add: unat_mod take_bit_eq_mod)
  then show ?thesis by (simp add: ip_ihl_def)
qed

lemma slice_blit_in:
  assumes "a \<le> p" "p + length ys \<le> b" "b \<le> length xs"
  shows "slice_of a b (blit p ys xs) = blit (p - a) ys (slice_of a b xs)"
  using assms by (intro nth_equalityI) (auto simp: nth_slice nth_blit add.commute)

lemma slice_blit_out:
  assumes "p + length ys \<le> a \<or> b \<le> p" "p + length ys \<le> length xs" "b \<le> length xs"
  shows "slice_of a b (blit p ys xs) = slice_of a b xs"
  using assms by (intro nth_equalityI) (auto simp: nth_slice nth_blit)

lemma echo_ihl: "buf ! (14 + ip_ihl buf) = 8 \<Longrightarrow> 4 \<le> ip_ihl buf"
proof (rule ccontr)
  assume a: "buf ! (14 + ip_ihl buf) = 8" "\<not> 4 \<le> ip_ihl buf"
  then have "unat (buf ! 14 AND 0x0F) = 0" by (simp add: ip_ihl_def)
  then have z: "buf ! 14 AND 0x0F = 0" by (simp only: unsigned_eq_0_iff)
  then have "buf ! 14 = 8" using a by (simp add: ip_ihl_def)
  then show False using z by simp
qed

lemma checksum_some: "bs \<noteq> [] \<Longrightarrow> \<exists>c. calculate_checksum bs = Some c"
  by (simp add: calculate_checksum_def)

lemma checksum_none: "calculate_checksum bs = None \<longleftrightarrow> bs = []"
  by (simp add: calculate_checksum_def)

lemma ip_total_zeroed:
  assumes "length buf = 1514" "4 \<le> ip_ihl buf"
  shows "ip_total (blit (16 + ip_ihl buf) [0, 0] (blit (14 + ip_ihl buf) [0] buf)) = ip_total buf"
  using assms ip_ihl_le [of buf] by (simp add: ip_total_def u16_at_def nth_blit)

definition echo_fault :: "bytes \<Rightarrow> bool" where
  "echo_fault buf \<longleftrightarrow> ip_total buf \<le> ip_ihl buf \<or> 1500 < ip_total buf"

lemma echo_checksum_none:
  assumes "length buf = 1514" "buf ! (14 + ip_ihl buf) = 8"
  shows "echo_checksum buf = None \<longleftrightarrow> echo_fault buf"
  using assms ip_total_zeroed [OF assms(1) echo_ihl [OF assms(2)]] ip_ihl_le [of buf]
  by (auto simp: echo_checksum_def echo_fault_def Let_def checksum_none slice_of_def)

lemma echo_checksum_length:
  "echo_checksum buf = Some (tot, buf') \<Longrightarrow> length buf = 1514 \<Longrightarrow> length buf' = 1514"
  using ip_ihl_le [of buf] by (auto simp: echo_checksum_def Let_def split: if_splits)

lemma echo_reply_none:
  assumes "length buf = 1514" "buf ! (14 + ip_ihl buf) = 8"
  shows "echo_reply my_ip my_mac buf = None \<longleftrightarrow> echo_fault buf"
proof (cases "echo_checksum buf")
  case None
  then show ?thesis using echo_checksum_none [OF assms] by (simp add: echo_reply_def)
next
  case (Some r)
  obtain tot buf' where r: "r = (tot, buf')" by (cases r)
  have l: "length buf' = 1514" using Some assms(1) r by (auto dest: echo_checksum_length)
  have "echo_addresses my_ip my_mac (ip_ihl buf) buf' \<noteq> None"
    using l echo_ihl [OF assms(2)]
    by (simp add: echo_addresses_def Let_def checksum_none slice_of_def del: not_None_eq)
  then show ?thesis using Some r echo_checksum_none [OF assms] by (simp add: echo_reply_def)
qed

text \<open>The frames whose handling faults: echo requests for this host with a bad length.\<close>

definition bad_echo :: "bool \<Rightarrow> ip4 \<Rightarrow> bytes \<Rightarrow> bool" where
  "bad_echo chk my_ip bs \<longleftrightarrow>
     (let buf = rx_buffer bs; off = 14 + ip_ihl buf in
      34 \<le> length bs \<and> off + 8 \<le> length bs \<and> u16_at 12 buf = 0x0800 \<and> ip_at 30 buf = my_ip \<and> buf ! 23 = 1 \<and>
      (buf ! off = 8 \<and> (ip_total buf \<le> ip_ihl buf \<or> 1500 < ip_total buf)
       \<or> buf ! off = 0 \<and> chk \<and> ip_total buf < ip_ihl buf))"

lemma udp_no_panic: "udp_handle_incoming src dst seg n \<noteq> None"
  by (auto simp: udp_handle_incoming_def dns_handle_udp_def Let_def dns_answer_no_panic
      split: option.split)

lemma rx_fault_iff:
  assumes "length bs \<le> 1514"
  shows "rx_frame chk now my_ip my_mac bs n = None \<longleftrightarrow> bad_echo chk my_ip bs"
proof -
  have icmp: "rx_icmp chk my_ip my_mac (length bs) (rx_buffer bs) n = None \<longleftrightarrow>
    (let buf = rx_buffer bs; off = 14 + ip_ihl buf in off + 8 \<le> length bs \<and>
      (buf ! off = 8 \<and> echo_fault buf \<or> buf ! off = 0 \<and> chk \<and> ip_total buf < ip_ihl buf))"
    using echo_reply_none [of "rx_buffer bs"] assms
    by (auto simp: rx_icmp_def Let_def echo_payload_len_def)
  then show ?thesis
    using assms udp_no_panic
    by (auto simp: rx_frame_def rx_ipv4_def bad_echo_def echo_fault_def Let_def)
qed

text \<open>What the reply to a well-formed echo request looks like.\<close>

definition echo_request :: "ip4 \<Rightarrow> bytes \<Rightarrow> bool" where
  "echo_request my_ip bs \<longleftrightarrow>
     42 \<le> length bs \<and> length bs \<le> 1514 \<and> u16_at 12 bs = 0x0800 \<and> bs ! 14 = 0x45 \<and>
     ip_total bs = length bs - 14 \<and> bs ! 23 = 1 \<and> ip_at 30 bs = my_ip \<and> bs ! 34 = 8"

definition echo_answer :: "ip4 \<Rightarrow> mac6 \<Rightarrow> bytes \<Rightarrow> bytes \<Rightarrow> bool" where
  "echo_answer my_ip my_mac bs f \<longleftrightarrow>
     length f = length bs \<and>
     mac_at 0 f = mac_at 6 bs \<and> mac_at 6 f = my_mac \<and> slice_of 12 24 f = slice_of 12 24 bs \<and>
     ip_at 26 f = my_ip \<and> ip_at 30 f = ip_at 26 bs \<and> calculate_checksum (slice_of 14 34 f) = Some 0 \<and>
     f ! 34 = 0 \<and> calculate_checksum (drop 34 f) = Some 0 \<and> drop 38 f = drop 38 bs"

lemma echo_checksum_ok:
  assumes "length buf = 1514" "ip_ihl buf = 20" "28 \<le> ip_total buf" "ip_total buf \<le> 1500"
  obtains c :: u16 where
    "echo_checksum buf = Some (ip_total buf, blit 36 (be_bytes 2 c) (blit 36 [0, 0] (blit 34 [0] buf)))"
    "calculate_checksum (slice_of 34 (14 + ip_total buf) (blit 36 (be_bytes 2 c) (blit 36 [0, 0] (blit 34 [0] buf)))) = Some 0"
proof -
  define b where "b = blit 36 [0, 0] (blit 34 [0] buf)"
  have tot: "ip_total b = ip_total buf" using assms by (simp add: b_def ip_total_def u16_at_def nth_blit)
  have l: "length b = 1514" using assms by (simp add: b_def)
  let ?sl = "slice_of 34 (14 + ip_total buf) b"
  have "?sl \<noteq> []" using assms l by (simp add: slice_of_def)
  then obtain c where c: "calculate_checksum ?sl = Some c" using checksum_some by blast
  have z: "?sl ! 2 = 0" "?sl ! Suc 2 = 0"
    using assms by (simp_all add: nth_slice b_def nth_blit)
  have "calculate_checksum (blit 2 (be_bytes 2 c) ?sl) = Some 0"
    using assms l z c by (intro calculate_checksum_stored) auto
  then have "calculate_checksum (slice_of 34 (14 + ip_total buf) (blit 36 (be_bytes 2 c) b)) = Some 0"
    using assms l by (subst slice_blit_in) auto
  moreover have "echo_checksum buf = Some (ip_total buf, blit 36 (be_bytes 2 c) b)"
    using assms c tot by (simp add: echo_checksum_def Let_def b_def [symmetric])
  ultimately show thesis using that [of c] by (simp add: b_def)
qed

text \<open>The rewriting of the headers around any contents from byte 34 on.\<close>

lemma echo_addresses_ok:
  assumes "length buf = 1514"
  obtains f where "echo_addresses my_ip my_mac 20 buf = Some f" "length f = 1514"
    "mac_at 0 f = mac_at 6 buf" "mac_at 6 f = my_mac" "slice_of 12 24 f = slice_of 12 24 buf"
    "ip_at 26 f = my_ip" "ip_at 30 f = ip_at 26 buf" "calculate_checksum (slice_of 14 34 f) = Some 0"
    "drop 34 f = drop 34 buf"
proof -
  obtain i0 i1 i2 i3 where ip: "my_ip = Ip i0 i1 i2 i3" by (cases my_ip)
  obtain m0 m1 m2 m3 m4 m5 where mac: "my_mac = Mac m0 m1 m2 m3 m4 m5" by (cases my_mac)
  define b where "b = blit 24 [0, 0] (blit 30 (ip_bytes (ip_at 26 buf)) (blit 26 (ip_bytes my_ip) buf))"
  have l: "length b = 1514" using assms by (simp add: b_def)
  obtain c where c: "calculate_checksum (slice_of 14 34 b) = Some c"
    using checksum_some [of "slice_of 14 34 b"] l by (auto simp: slice_of_def)
  define g where "g = blit 24 (be_bytes 2 c) b"
  define f where "f = blit 6 (mac_bytes my_mac) (blit 0 (mac_bytes (mac_at 6 g)) g)"
  have lg: "length g = 1514" using l by (simp add: g_def)
  have "slice_of 14 34 b ! 10 = 0" "slice_of 14 34 b ! Suc 10 = 0"
    using assms by (simp_all add: nth_slice b_def nth_blit)
  then have "calculate_checksum (blit 10 (be_bytes 2 c) (slice_of 14 34 b)) = Some 0"
    using l c by (intro calculate_checksum_stored) auto
  then have g: "calculate_checksum (slice_of 14 34 g) = Some 0"
    using l by (simp add: g_def slice_blit_in)
  have lf: "length f = 1514" using lg by (simp add: f_def)
  have nth: "f ! i = (if 6 \<le> i \<and> i < 12 then mac_bytes my_mac ! (i - 6) else
    if i < 6 then mac_bytes (mac_at 6 g) ! i else g ! i)" if "i < 1514" for i
    using that lg by (auto simp: f_def nth_blit)
  have gi: "g ! i = buf ! i" if "i < 24 \<or> 34 \<le> i" "i < 1514" for i
    using that assms l by (auto simp: g_def b_def nth_blit)
  have "echo_addresses my_ip my_mac 20 buf = Some f"
    using c by (simp add: echo_addresses_def Let_def b_def [symmetric] g_def [symmetric] f_def)
  moreover have "mac_at 0 f = mac_at 6 buf" by (simp add: mac_at_def nth gi)
  moreover have "mac_at 6 f = my_mac" by (simp add: mac_at_def nth mac)
  moreover have "slice_of 12 24 f = slice_of 12 24 buf"
    using lf assms by (intro nth_equalityI) (auto simp: nth_slice nth gi)
  moreover have "ip_at 26 f = my_ip" using assms l
    by (simp add: ip_at_def nth g_def b_def nth_blit ip)
  moreover have "ip_at 30 f = ip_at 26 buf" using assms l
    by (simp add: ip_at_def nth g_def b_def nth_blit)
  moreover have "slice_of 14 34 f = slice_of 14 34 g"
    using lf lg by (intro nth_equalityI) (auto simp: nth_slice nth)
  moreover have "drop 34 f = drop 34 buf"
    using lf assms by (intro nth_equalityI) (auto simp: nth gi)
  ultimately show thesis using that [of f] lf g by simp
qed

lemma rx_echo:
  assumes "echo_request my_ip bs"
  obtains f where "rx_frame chk now my_ip my_mac bs n = Some (True, snd (net_transmit f n))"
    "echo_answer my_ip my_mac bs f"
proof -
  define buf where "buf = rx_buffer bs"
  have r: "42 \<le> length bs" "length bs \<le> 1514" using assms by (auto simp: echo_request_def)
  have nth: "buf ! i = bs ! i" if "i < length bs" for i
    using that by (simp add: buf_def rx_buffer_def nth_append)
  have lb: "length buf = 1514" using r by (simp add: buf_def)
  have tot: "ip_total buf = length bs - 14" "ip_ihl buf = 20" "u16_at 12 buf = 0x0800" "buf ! 23 = 1"
    "ip_at 30 buf = my_ip" "buf ! 34 = 8"
    using assms r by (simp_all add: echo_request_def ip_total_def ip_ihl_def u16_at_def ip_at_def nth)
  obtain c where c: "echo_checksum buf = Some (ip_total buf, blit 36 (be_bytes 2 c) (blit 36 [0, 0] (blit 34 [0] buf)))"
    "calculate_checksum (slice_of 34 (14 + ip_total buf) (blit 36 (be_bytes 2 (c :: u16)) (blit 36 [0, 0] (blit 34 [0] buf)))) = Some 0"
    by (rule echo_checksum_ok [OF lb]) (use tot r in auto)
  define b where "b = blit 36 (be_bytes 2 c) (blit 36 [0, 0] (blit 34 [0] buf))"
  have l: "length b = 1514" using lb by (simp add: b_def)
  obtain f where f: "echo_addresses my_ip my_mac 20 b = Some f" "length f = 1514"
    "mac_at 0 f = mac_at 6 b" "mac_at 6 f = my_mac" "slice_of 12 24 f = slice_of 12 24 b"
    "ip_at 26 f = my_ip" "ip_at 30 f = ip_at 26 b" "calculate_checksum (slice_of 14 34 f) = Some 0"
    "drop 34 f = drop 34 b"
    by (rule echo_addresses_ok [OF l])
  have bi: "b ! i = bs ! i" if "i < 34 \<or> 38 \<le> i" "i < length bs" for i
    using that r lb by (auto simp: b_def nth_blit nth)
  have d34: "drop 34 (take (length bs) f) = slice_of 34 (14 + ip_total buf) b"
    using f(9) r tot by (simp add: slice_of_def drop_take)
  have f34: "f ! i = b ! i" if "34 \<le> i" "i < 1514" for i
    using arg_cong [OF f(9), of "\<lambda>xs. xs ! (i - 34)"] that l f(2) by simp
  have "rx_frame chk now my_ip my_mac bs n = Some (True, snd (net_transmit (take (length bs) f) n))"
    using r tot c(1) f(1)
    by (simp add: rx_frame_def buf_def [symmetric] rx_ipv4_def rx_icmp_def echo_reply_def b_def [symmetric])
  moreover have "echo_answer my_ip my_mac bs (take (length bs) f)"
    unfolding echo_answer_def
  proof (intro conjI)
    have ne: "bs \<noteq> []" using r by auto
    show "length (take (length bs) f) = length bs" using r f(2) by simp
    show "mac_at 0 (take (length bs) f) = mac_at 6 bs" "mac_at 6 (take (length bs) f) = my_mac"
      "ip_at 26 (take (length bs) f) = my_ip" "ip_at 30 (take (length bs) f) = ip_at 26 bs"
      using r f(3,4,6,7) ne by (simp_all add: mac_at_def ip_at_def bi)
    show "slice_of 12 24 (take (length bs) f) = slice_of 12 24 bs"
      using r f(5) l by (simp add: slice_of_def drop_take) (auto intro!: nth_equalityI simp: bi)
    show "calculate_checksum (slice_of 14 34 (take (length bs) f)) = Some 0"
      using r f(8) by (simp add: slice_of_def drop_take)
    show "take (length bs) f ! 34 = 0" using r f34 [of 34] lb by (simp add: b_def nth_blit)
    show "calculate_checksum (drop 34 (take (length bs) f)) = Some 0"
      using c(2) by (simp add: d34 b_def)
    show "drop 38 (take (length bs) f) = drop 38 bs"
      using r f(2) by (auto intro!: nth_equalityI simp: f34 bi)
  qed
  ultimately show thesis by (rule that)
qed


lemma udp_segment_fields:
  assumes "length data \<le> 1472"
  shows "length (udp_segment a sp d data) = 8 + length data" "u16_at 0 (udp_segment a sp d data) = sp"
    "u16_at 2 (udp_segment a sp d data) = ep_port d"
    "unat (u16_at 4 (udp_segment a sp d data)) = 8 + length data"
    "drop 8 (udp_segment a sp d data) = data"
proof -
  have f: "from_be [ucast (drop_bit 8 w), ucast w] = (w :: u16)" for w by (rule from_be_two)
  obtain c :: u16 where seg: "udp_segment a sp d data = be_bytes 2 sp @ be_bytes 2 (ep_port d)
      @ be_bytes 2 (of_nat (8 + length data) :: u16) @ be_bytes 2 c @ data"
    by (simp add: udp_segment_def udp_segment0_def Let_def blit_def)
  show "length (udp_segment a sp d data) = 8 + length data" "u16_at 0 (udp_segment a sp d data) = sp"
    "u16_at 2 (udp_segment a sp d data) = ep_port d" "drop 8 (udp_segment a sp d data) = data"
    by (simp_all add: seg be2 u16_at_def f)
  have "u16_at 4 (udp_segment a sp d data) = of_nat (8 + length data)"
    by (simp only: seg be2 u16_at_def append.simps) (simp add: f)
  then show "unat (u16_at 4 (udp_segment a sp d data)) = 8 + length data"
    using assms by (simp only: unat_of_nat) simp
qed

lemma udp_segment_checksum:
  assumes "length data \<le> 1472"
  shows "transport_checksum a (ep_ip d) UDP_PROTOCOL (udp_segment a sp d data) = 0"
proof -
  let ?s = "udp_segment0 sp (ep_port d) data"
  have z: "6 + 2 \<le> length ?s" "?s ! 6 = 0" "?s ! Suc 6 = 0" "length ?s \<le> 65535"
    using assms by (simp_all add: udp_segment0_def be2)
  then show ?thesis
    using transport_checksum_stored [of 6 ?s a "ep_ip d" 17] transport_checksum_ones [of 6 ?s a "ep_ip d" 17]
    by (simp add: udp_segment_def Let_def)
qed


section \<open>What the lower layers leave alone\<close>

text \<open>
  The operations below the sockets are polymorphic in the extension of the state
  record, and keep it: they never touch a socket table.
\<close>

lemma more_ops [simp]:
  "net.more (snd (net_transmit d n)) = net.more n"
  "net.more (snd (net_poll_rx l n)) = net.more n"
  "net.more (net_wake k n) = net.more n"
  "net.more (arp_cache_insert a m n) = net.more n"
  "net.more (wake_arp_waiters a n) = net.more n"
  "net.more (send_arp_request a b m n) = net.more n"
  "net.more (push_icmp_reply r n) = net.more n"
  by (simp_all add: net_transmit_def net_poll_rx_def net_wake_def arp_cache_insert_def wake_arp_waiters_def
      send_arp_request_def push_icmp_reply_def Let_def split: option.split prod.split)

lemma more_transmit [simp]:
  "net.more (snd (transmit_to m a p d n)) = net.more n"
  "net.more (snd (transmit_ipv4_cached a p d n)) = net.more n"
  "net.more (snd (tcp_transmit x n)) = net.more n"
  by (simp_all add: transmit_to_def transmit_ipv4_cached_def tcp_transmit_def split: option.split prod.split)

definition socks :: "stack \<Rightarrow> (u16 \<times> u64) list \<times> u16 \<times> (u64 \<Rightarrow> UdpState) \<times> Entry list \<times> u16 \<times> (u64 \<Rightarrow> Tcb)" where
  "socks n = (udp_ports n, udp_next n, udp_sockets n, tcp_conns n, tcp_next n, tcbs n)"

lemma socks_more: "net.more n = net.more m \<Longrightarrow> socks n = socks m"
  by (cases n, cases m) (simp add: socks_def)

lemma socks_ops [simp]:
  "socks (snd (net_transmit d n)) = socks n"
  "socks (snd (net_poll_rx l n)) = socks n"
  "socks (net_wake k n) = socks n"
  "socks (arp_cache_insert a m n) = socks n"
  "socks (wake_arp_waiters a n) = socks n"
  "socks (send_arp_request a b m n) = socks n"
  "socks (push_icmp_reply r n) = socks n"
  "socks (snd (transmit_to m a p d n)) = socks n"
  "socks (snd (tcp_transmit x n)) = socks n"
  "socks (net_forget_wait_key k n) = socks n"
  by (rule socks_more; simp)+ (simp add: socks_def net_forget_wait_key_def)

section \<open>Invariants of the socket tables\<close>

definition udp_socket_ok :: "UdpState \<Rightarrow> bool" where
  "udp_socket_ok s \<longleftrightarrow>
     length (udp_queue s) \<le> QUEUE_DATAGRAMS \<and> (udp_port s = 0 \<longrightarrow> udp_queue s = []) \<and>
     (\<forall>p. udp_peer s = Some p \<longrightarrow> udp_port s \<noteq> 0 \<and> (\<forall>d\<in>set (udp_queue s). dg_from d = p))"

text \<open>
  Ports are unique and never the DNS client's; the table has exactly the ports of the
  bound sockets whose handles exist; queues are bounded and, once connected, hold
  datagrams of the peer only.
\<close>

definition udp_inv :: "stack \<Rightarrow> bool" where
  "udp_inv n \<longleftrightarrow>
     distinct (map fst (udp_ports n)) \<and>
     (\<forall>p k. (p, k) \<in> set (udp_ports n) \<longrightarrow>
        p \<noteq> 0 \<and> p \<noteq> DNS_SRC_PORT \<and> udp_port (udp_sockets n k) = p) \<and>
     (\<forall>k. udp_strong (udp_sockets n k) \<and> udp_port (udp_sockets n k) \<noteq> 0 \<longrightarrow>
        (udp_port (udp_sockets n k), k) \<in> set (udp_ports n)) \<and>
     (\<forall>k. udp_socket_ok (udp_sockets n k)) \<and> EPHEMERAL_FIRST \<le> udp_next n"

definition live_state :: "TcpState \<Rightarrow> bool" where
  "live_state s \<longleftrightarrow> s \<noteq> Idle \<and> s \<noteq> Closed"

text \<open>
  The connection table has exactly the live blocks, under their own port and peer, and
  a local port belongs to one connection; every block is within its bounds.
\<close>

definition tcp_inv :: "stack \<Rightarrow> bool" where
  "tcp_inv n \<longleftrightarrow>
     distinct (map en_port (tcp_conns n)) \<and>
     set (tcp_conns n) = {\<lparr>en_port = local_port (tcbs n k), en_remote = remote (tcbs n k), en_conn = k\<rparr> | k.
       live_state (state (tcbs n k))} \<and>
     (\<forall>k. tcb_typed (tcbs n k)) \<and> EPHEMERAL_FIRST \<le> tcp_next n"

definition stack_inv :: "stack \<Rightarrow> bool" where
  "stack_inv n \<longleftrightarrow> udp_inv n \<and> tcp_inv n"

lemma inv_socks:
  assumes "socks n = socks m"
  shows "udp_inv n = udp_inv m" "tcp_inv n = tcp_inv m" "stack_inv n = stack_inv m"
  using assms by (simp_all add: socks_def udp_inv_def tcp_inv_def stack_inv_def)

lemma pick_ephemeral_ok:
  "pick_ephemeral b f nx = (r, nx') \<Longrightarrow> EPHEMERAL_FIRST \<le> nx \<Longrightarrow>
     EPHEMERAL_FIRST \<le> nx' \<and> (\<forall>c. r = Some c \<longrightarrow> \<not> f c \<and> EPHEMERAL_FIRST \<le> c)"
proof (induction b f nx rule: pick_ephemeral.induct)
  case (2 b f nx)
  have "EPHEMERAL_FIRST \<le> (if nx = 0xFFFF then EPHEMERAL_FIRST else nx + 1)"
    using 2(3) unsigned_less_65536 [of nx] by (auto simp: word_le_nat_alt unat_word_ariths word_unat_eq_iff)
  then show ?case using 2 by (auto simp: Let_def split: if_splits)
qed auto

lemma socks_tcp_update [simp]:
  "socks (tcp_update k t n) = (udp_ports n, udp_next n, udp_sockets n, tcp_conns n, tcp_next n, (tcbs n)(k := t))"
proof -
  have "socks (fold (\<lambda>x n. snd (tcp_transmit x n)) xs m) = socks m" for xs m
    by (induction xs arbitrary: m) simp_all
  then show ?thesis by (simp add: tcp_update_def socks_def [of "n\<lparr>tcbs := f\<rparr>" for f])
qed

section \<open>UDP\<close>

lemma udp_invI:
  assumes "distinct (map fst (udp_ports n))"
    "\<And>p k. (p, k) \<in> set (udp_ports n) \<Longrightarrow> p \<noteq> 0 \<and> p \<noteq> DNS_SRC_PORT \<and> udp_port (udp_sockets n k) = p"
    "\<And>k. udp_strong (udp_sockets n k) \<Longrightarrow> udp_port (udp_sockets n k) \<noteq> 0 \<Longrightarrow>
        (udp_port (udp_sockets n k), k) \<in> set (udp_ports n)"
    "\<And>k. udp_socket_ok (udp_sockets n k)" "EPHEMERAL_FIRST \<le> udp_next n"
  shows "udp_inv n"
  using assms by (simp add: udp_inv_def)

lemma udp_invD:
  assumes "udp_inv n"
  shows "distinct (map fst (udp_ports n))"
    "(p, k) \<in> set (udp_ports n) \<Longrightarrow> p \<noteq> 0 \<and> p \<noteq> DNS_SRC_PORT \<and> udp_port (udp_sockets n k) = p"
    "udp_strong (udp_sockets n k) \<Longrightarrow> udp_port (udp_sockets n k) \<noteq> 0 \<Longrightarrow>
        (udp_port (udp_sockets n k), k) \<in> set (udp_ports n)"
    "udp_socket_ok (udp_sockets n k)" "EPHEMERAL_FIRST \<le> udp_next n"
  using assms by (auto simp: udp_inv_def)

text \<open>A socket changes without changing its port.\<close>

lemma udp_set_inv:
  assumes "udp_inv n" "udp_port s = udp_port (udp_sockets n k)" "udp_socket_ok s"
    "udp_strong s \<longrightarrow> udp_strong (udp_sockets n k)"
  shows "udp_inv (set_udp k s n)"
  using udp_invD [OF assms(1)] assms(2-4) by (intro udp_invI) (auto simp: set_udp_def split: if_splits)

text \<open>Entries of sockets without a handle leave the table.\<close>

lemma udp_filter_inv:
  assumes "udp_inv n" "\<And>p k. udp_strong (udp_sockets n k) \<Longrightarrow> P (p, k)"
  shows "udp_inv (n\<lparr>udp_ports := filter P (udp_ports n)\<rparr>)"
  using udp_invD [OF assms(1)] assms(2) by (intro udp_invI) (auto simp: distinct_map_filter)

lemma udp_new_inv:
  assumes "udp_inv n" "k \<notin> snd ` set (udp_ports n)"
  shows "udp_inv (udp_new k n)"
  using udp_invD [OF assms(1)] assms(2)
  by (intro udp_invI) (force simp: udp_new_def set_udp_def udp_socket_ok_def split: if_splits)+

lemma udp_register_inv:
  assumes inv: "udp_inv n" and p: "\<not> udp_in_use n p" "p \<noteq> 0" and k: "udp_port (udp_sockets n k) = 0"
  shows "udp_inv (udp_register k p n)"
proof (rule udp_invI)
  have new: "p \<notin> fst ` set (udp_ports n)" "p \<noteq> DNS_SRC_PORT" using p by (auto simp: udp_in_use_def)
  show "distinct (map fst (udp_ports (udp_register k p n)))"
    using udp_invD(1) [OF inv] new by (simp add: udp_register_def set_udp_def)
  show "q \<noteq> 0 \<and> q \<noteq> DNS_SRC_PORT \<and> udp_port (udp_sockets (udp_register k p n) j) = q"
    if "(q, j) \<in> set (udp_ports (udp_register k p n))" for q j
    using that udp_invD(2) [OF inv, of q j] p k new by (auto simp: udp_register_def set_udp_def)
  show "(udp_port (udp_sockets (udp_register k p n) j), j) \<in> set (udp_ports (udp_register k p n))"
    if "udp_strong (udp_sockets (udp_register k p n) j)" "udp_port (udp_sockets (udp_register k p n) j) \<noteq> 0" for j
    using that udp_invD(3) [OF inv, of j] by (auto simp: udp_register_def set_udp_def split: if_splits)
  show "udp_socket_ok (udp_sockets (udp_register k p n) j)" for j
    using udp_invD(4) [OF inv] p k
    by (auto simp: udp_register_def set_udp_def udp_socket_ok_def)
  show "EPHEMERAL_FIRST \<le> udp_next (udp_register k p n)"
    using udp_invD(5) [OF inv] by (simp add: udp_register_def set_udp_def)
qed

lemma udp_next_inv: "udp_inv n \<Longrightarrow> EPHEMERAL_FIRST \<le> nx \<Longrightarrow> udp_inv (n\<lparr>udp_next := nx\<rparr>)"
  by (simp add: udp_inv_def)

lemma udp_bind_port_inv:
  assumes inv: "udp_inv n" and b: "udp_bind_port k p implicit n = (r, n')"
  shows "udp_inv n' \<and> (\<forall>q. r = Inr q \<longrightarrow> udp_port (udp_sockets n' k) = q \<and> q \<noteq> 0)"
proof -
  define m where "m = n\<lparr>udp_ports := filter (\<lambda>(_, s). udp_strong (udp_sockets n s)) (udp_ports n)\<rparr>"
  have im: "udp_inv m" unfolding m_def by (rule udp_filter_inv [OF inv]) simp
  have reg: "udp_port (udp_sockets (udp_register k q x) k) = q" for q x
    by (simp add: udp_register_def set_udp_def)
  obtain c nx where c: "pick_ephemeral ephemeral_span (udp_in_use m) (udp_next m) = (c, nx)"
    by (metis surj_pair)
  have nx: "EPHEMERAL_FIRST \<le> nx" "\<And>q. c = Some q \<Longrightarrow> \<not> udp_in_use m q \<and> EPHEMERAL_FIRST \<le> q"
    using pick_ephemeral_ok [OF c udp_invD(5) [OF im]] by auto
  have use: "udp_in_use (m\<lparr>udp_next := nx\<rparr>) = udp_in_use m" by (simp add: udp_in_use_def fun_eq_iff)
  have big: "q \<noteq> 0" if "EPHEMERAL_FIRST \<le> q" for q :: u16 using that by auto
  show ?thesis
    using b [unfolded udp_bind_port_def, folded m_def] im nx big
    by (auto simp: Let_def c reg use udp_next_inv intro: udp_register_inv split: if_splits option.splits)
qed


lemma tcp_inv_udp [simp]:
  "tcp_inv (n\<lparr>udp_ports := a\<rparr>) = tcp_inv n" "tcp_inv (n\<lparr>udp_next := b\<rparr>) = tcp_inv n"
  "tcp_inv (set_udp k s n) = tcp_inv n" "tcp_inv (udp_register k p n) = tcp_inv n"
  by (simp_all add: tcp_inv_def set_udp_def udp_register_def)

lemma udp_bind_port_stack:
  assumes "stack_inv n" "udp_bind_port k p implicit n = (r, n')"
  shows "stack_inv n' \<and> (\<forall>q. r = Inr q \<longrightarrow> udp_port (udp_sockets n' k) = q \<and> q \<noteq> 0)"
proof -
  have "tcp_inv n'" using assms
    by (auto simp: stack_inv_def udp_bind_port_def Let_def split: if_splits option.splits prod.splits)
  then show ?thesis using assms udp_bind_port_inv [of n k p implicit r n'] by (simp add: stack_inv_def)
qed

lemma udp_ensure_bound_stack:
  assumes "stack_inv n" "udp_ensure_bound k n = (r, n')"
  shows "stack_inv n' \<and> (\<forall>q. r = Inr q \<longrightarrow> udp_port (udp_sockets n' k) = q \<and> q \<noteq> 0)"
  using assms udp_bind_port_stack [of n k 0 True r n']
  by (auto simp: udp_ensure_bound_def Let_def split: if_splits)

lemma udp_set_stack:
  assumes "stack_inv n" "udp_port s = udp_port (udp_sockets n k)" "udp_socket_ok s"
    "udp_strong s \<longrightarrow> udp_strong (udp_sockets n k)"
  shows "stack_inv (set_udp k s n)"
  using assms by (auto simp: stack_inv_def intro: udp_set_inv)

lemma stack_socket_ok: "stack_inv n \<Longrightarrow> udp_socket_ok (udp_sockets n k)"
  by (simp add: stack_inv_def udp_invD)

lemma udp_connect_stack: "stack_inv n \<Longrightarrow> stack_inv (snd (udp_connect k peer n))"
proof -
  assume inv: "stack_inv n"
  obtain r m where e: "udp_ensure_bound k n = (r, m)" by (metis surj_pair)
  note m = udp_ensure_bound_stack [OF inv e]
  have "stack_inv (set_udp k ((udp_sockets m k)\<lparr>udp_peer := Some peer,
      udp_queue := filter (\<lambda>d. dg_from d = peer) (udp_queue (udp_sockets m k))\<rparr>) m)" if "r = Inr q" for q
    using m that stack_socket_ok [of m k]
    by (intro udp_set_stack) (auto simp: udp_socket_ok_def intro: order_trans [OF length_filter_le])
  then show ?thesis using inv m e by (auto simp: udp_connect_def Let_def split: sum.split)
qed

text \<open>\<open>keeps env\<close>: what runs while a call waits keeps the invariant.\<close>

definition keeps :: "(stack \<Rightarrow> stack) \<Rightarrow> bool" where
  "keeps env \<longleftrightarrow> (\<forall>m. stack_inv m \<longrightarrow> stack_inv (env m))"

lemma stack_inv_ops [simp]:
  "stack_inv (snd (net_transmit d n)) = stack_inv n"
  "stack_inv (snd (net_poll_rx l n)) = stack_inv n"
  "stack_inv (net_wake k n) = stack_inv n"
  "stack_inv (arp_cache_insert a m n) = stack_inv n"
  "stack_inv (wake_arp_waiters a n) = stack_inv n"
  "stack_inv (send_arp_request a b m n) = stack_inv n"
  "stack_inv (push_icmp_reply r n) = stack_inv n"
  "stack_inv (snd (transmit_to m a p d n)) = stack_inv n"
  "stack_inv (snd (tcp_transmit x n)) = stack_inv n"
  "stack_inv (net_forget_wait_key k n) = stack_inv n"
  by (rule inv_socks; simp)+

lemma stack_inv_fields [simp]:
  "stack_inv (n\<lparr>active_nic := a\<rparr>) = stack_inv n" "stack_inv (n\<lparr>host_ip := b\<rparr>) = stack_inv n"
  "stack_inv (n\<lparr>icmp_rx_tail := c\<rparr>) = stack_inv n" "stack_inv (n\<lparr>ping_seq := d\<rparr>) = stack_inv n"
  "stack_inv (n\<lparr>rx_work_pending := e\<rparr>) = stack_inv n" "stack_inv (n\<lparr>rx_irq_reported := f\<rparr>) = stack_inv n"
  "stack_inv (n\<lparr>dns_result := g\<rparr>) = stack_inv n"
  by (rule inv_socks; simp add: socks_def)+

lemma arp_resolve_stack:
  assumes "stack_inv n" "keeps env"
  shows "stack_inv (snd (arp_resolve env a n))"
  using assms by (auto simp: arp_resolve_def keeps_def Let_def split: option.split)

lemma transmit_ipv4_stack:
  assumes "stack_inv n" "keeps env"
  shows "stack_inv (snd (transmit_ipv4 env a p d n))"
proof (cases "next_hop a n")
  case (Some hop)
  obtain r m where r: "arp_resolve env hop n = (r, m)" by (metis surj_pair)
  then show ?thesis using Some assms(1) arp_resolve_stack [OF assms, of hop]
    by (auto simp: transmit_ipv4_def split: option.split)
qed (simp add: transmit_ipv4_def assms)

lemma transmit_ipv4_stack':
  "transmit_ipv4 env a p d n = (r, n') \<Longrightarrow> stack_inv n \<Longrightarrow> keeps env \<Longrightarrow> stack_inv n'"
  using transmit_ipv4_stack [of n env a p d] by simp

lemma udp_send_stack:
  assumes "stack_inv n" "keeps env"
  shows "stack_inv (snd (udp_send_to env k dest data n))"
proof -
  obtain r m where e: "udp_ensure_bound k n = (r, m)" by (metis surj_pair)
  have "stack_inv m" using udp_ensure_bound_stack [OF assms(1) e] by simp
  then show ?thesis using assms e
    by (auto simp: udp_send_to_def Let_def split: option.split sum.split prod.split
        dest: transmit_ipv4_stack')
qed

lemma udp_recv_stack: "stack_inv n \<Longrightarrow> stack_inv (snd (udp_recv_turn now limit k l n))"
  using stack_socket_ok [of n k]
  by (auto simp: udp_recv_turn_def Let_def udp_socket_ok_def split: list.split intro!: udp_set_stack)

lemma udp_release_stack: "stack_inv n \<Longrightarrow> stack_inv (udp_release k n)"
  using stack_socket_ok [of n k] by (auto simp: udp_release_def udp_socket_ok_def intro!: udp_set_stack)

lemma udp_drop_stack:
  assumes "stack_inv n" "\<not> udp_strong (udp_sockets n k)"
  shows "stack_inv (udp_drop k n)"
  using assms udp_filter_inv [of n "\<lambda>(_, s). s \<noteq> k"]
  by (auto simp: udp_drop_def stack_inv_def [of "n\<lparr>udp_ports := a\<rparr>" for a]) (auto simp: stack_inv_def)

lemma udp_new_stack:
  "stack_inv n \<Longrightarrow> k \<notin> snd ` set (udp_ports n) \<Longrightarrow> stack_inv (udp_new k n)"
  using udp_new_inv [of n k] by (simp add: stack_inv_def) (simp add: udp_new_def)

lemma udp_deliver_stack:
  assumes "stack_inv n" "udp_port (udp_sockets n k) \<noteq> 0"
  shows "stack_inv (udp_deliver src_ep data k n)"
  using stack_socket_ok [OF assms(1), of k] assms
  by (auto simp: udp_deliver_def Let_def udp_socket_ok_def split: option.splits intro!: udp_set_stack)

lemma dns_handle_stack: "stack_inv n \<Longrightarrow> dns_handle_udp src d n = Some n' \<Longrightarrow> stack_inv n'"
  by (auto simp: dns_handle_udp_def split: option.splits)

lemma udp_handle_stack:
  assumes "stack_inv n" "udp_handle_incoming src dst seg n = Some n'"
  shows "stack_inv n'"
proof -
  have "stack_inv (udp_deliver src_ep data k n)" if "find P (udp_ports n) = Some (p, k)" for src_ep data P p k
  proof (rule udp_deliver_stack [OF assms(1)])
    have "(p, k) \<in> set (udp_ports n)" using that by (auto simp: find_Some_iff in_set_conv_nth)
    then show "udp_port (udp_sockets n k) \<noteq> 0"
      using assms(1) udp_invD(2) [of n p k] by (auto simp: stack_inv_def)
  qed
  then show ?thesis using assms
    by (auto simp: udp_handle_incoming_def Let_def dns_handle_stack split: if_splits option.splits)
qed


section \<open>TCP\<close>

text \<open>Once connected, a block keeps its port and peer, and it never becomes idle again.\<close>

definition steady :: "Tcb \<Rightarrow> Tcb \<Rightarrow> bool" where
  "steady t t' \<longleftrightarrow>
     local_port t' = local_port t \<and> remote t' = remote t \<and>
     (state t' = Idle \<longleftrightarrow> state t = Idle) \<and> (state t = Closed \<longrightarrow> state t' = Closed)"

lemma steady_refl [simp]: "steady t t"
  by (simp add: steady_def)

lemma steady_trans: "steady t t' \<Longrightarrow> steady t' t'' \<Longrightarrow> steady t t''"
  by (simp add: steady_def)

definition ident :: "Tcb \<Rightarrow> u16 \<times> Endpoint" where
  "ident t = (local_port t, remote t)"

lemma ident_ops [simp]:
  "ident (emit x t) = ident t" "ident (tcb_send f q d t) = ident t" "ident (arm now t) = ident t"
  "ident (advance l t) = ident t" "ident (send_ack t) = ident t" "ident (tcb_fail e t) = ident t"
  by (simp_all add: ident_def emit_def tcb_send_def arm_def advance_def send_ack_def tcb_fail_def Let_def)

lemma ident_output [simp]: "ident (tcb_output now probe t) = ident t"
proof -
  have one: "ident (output_one now probe t) = ident t" for now probe t by (simp add: output_one_def Let_def)
  have loop: "ident (output_loop k now probe t) = ident t" for k t
    by (induction k now probe t rule: output_loop.induct) (simp_all add: one)
  have upd: "ident (t\<lparr>fin_seq := f\<rparr>) = ident t" "ident (t\<lparr>state := s\<rparr>) = ident t" for t f s
    by (simp_all add: ident_def)
  have fin: "ident (output_fin now t) = ident t" for t by (simp add: output_fin_def Let_def upd)
  show ?thesis by (simp add: tcb_output_def Let_def loop fin del: output_loop.simps)
qed

lemma steadyI:
  assumes "ident t' = ident t" "state t' = Idle \<longleftrightarrow> state t = Idle" "state t = Closed \<longrightarrow> state t' = Closed"
  shows "steady t t'"
  using assms by (simp add: steady_def ident_def)

lemma output_live: "(state (tcb_output now probe t) = s) = (state t = s)" if "s = Idle \<or> s = Closed"
  using tcb_output_state [of now probe t] that by auto

lemma steady_output: "steady t (tcb_output now probe t)"
  by (rule steadyI) (simp_all add: output_live)

lemma on_payload_ident: "ident (on_payload seg t) = ident t"
proof -
  have "ident (accept_data seg t) = ident t" by (simp add: accept_data_def ident_def Let_def)
  then show ?thesis by (simp add: on_payload_def)
qed

lemma on_payload_idle: "state (on_payload seg t) = Idle \<longleftrightarrow> state t = Idle"
  by (auto simp: on_payload_def accept_data_def Let_def split: TcpState.split)

lemma on_new_ack_ident: "ident (on_new_ack seg now t) = ident t"
  by (simp add: on_new_ack_def ack_states_def ack_advance_def ident_def Let_def split: TcpState.split)

lemma on_new_ack_idle: "state (on_new_ack seg now t) = Idle \<longleftrightarrow> state t = Idle"
  by (auto simp: on_new_ack_def ack_states_def split: TcpState.split)

lemma ident_fields [simp]:
  "ident (t\<lparr>snd_wnd := w\<rparr>) = ident t" "ident (t\<lparr>retries := r\<rparr>) = ident t" "ident (t\<lparr>state := s\<rparr>) = ident t"
  "ident (t\<lparr>deadline := d\<rparr>) = ident t" "ident (t\<lparr>rto := v\<rparr>) = ident t" "ident (t\<lparr>snd_nxt := x\<rparr>) = ident t"
  "ident (t\<lparr>recv_buf := b\<rparr>) = ident t" "ident (t\<lparr>send_buf := b\<rparr>) = ident t" "ident (t\<lparr>user_closed := u\<rparr>) = ident t"
  "ident (t\<lparr>fin_queued := u\<rparr>) = ident t" "ident (t\<lparr>rcv_nxt := x\<rparr>) = ident t" "ident (t\<lparr>snd_una := x\<rparr>) = ident t"
  "ident (t\<lparr>mss := v\<rparr>) = ident t"
  by (simp_all add: ident_def)

lemma steady_on_segment: "steady t (on_segment seg now t)"
proof (cases "state t = Idle \<or> state t = Closed")
  case True
  then show ?thesis by (simp add: on_segment_def)
next
  case False
  define x where "x = (let t = (if seg_ack seg = snd_una t \<and> seg_window seg = 0 then t\<lparr>retries := 0\<rparr> else t)
         in tcb_output now False (on_payload seg (t\<lparr>snd_wnd := seg_window seg\<rparr>)))"
  have x: "ident x = ident t" "state x \<noteq> Idle"
    using False by (simp_all add: x_def Let_def on_payload_ident on_payload_idle output_live)
  have syn: "ident (on_syn_sent seg now t) = ident t" "state (on_syn_sent seg now t) \<noteq> Idle"
    using False by (simp_all add: on_syn_sent_def output_live)
  have "ident (on_segment seg now t) = ident t \<and> state (on_segment seg now t) \<noteq> Idle"
    using False syn x unfolding on_segment_def x_def [symmetric]
    by (simp add: Let_def on_payload_ident on_new_ack_ident on_payload_idle on_new_ack_idle output_live)
  then show ?thesis using False by (intro steadyI) auto
qed

lemma steady_on_timer: "state t \<noteq> Closed \<Longrightarrow> state t \<noteq> Idle \<Longrightarrow> steady t (tcb_on_timer now t)"
  by (rule steadyI) (simp_all add: tcb_on_timer_def Let_def output_live split: option.split)

lemma tcb_read_steady:
  "tcb_read l t = (r, t') \<Longrightarrow> ident t' = ident t \<and> state t' = state t"
  by (auto simp: tcb_read_def Let_def split: if_splits option.splits TcpState.splits)

lemma tcb_write_steady:
  "tcb_write now data w t = (r, t') \<Longrightarrow>
     ident t' = ident t \<and> (state t' = Idle \<longleftrightarrow> state t = Idle) \<and> (state t' = Closed \<longleftrightarrow> state t = Closed)"
  by (auto simp: tcb_write_def Let_def output_live split: if_splits option.splits)

lemma tcb_close_steady: "steady t (tcb_close now t)"
  by (rule steadyI) (simp_all add: tcb_close_def Let_def output_live)

lemma tcb_close_idle: "state t = Idle \<Longrightarrow> state (tcb_close now t) = Idle"
  by (simp add: tcb_close_def Let_def)

text \<open>Bounds of the single steps.\<close>

lemma typed_read: "tcb_typed t \<Longrightarrow> tcb_read l t = (r, t') \<Longrightarrow> tcb_typed t'"
proof -
  assume t: "tcb_typed t" and r: "tcb_read l t = (r, t')"
  have "tcb_typed (t\<lparr>recv_buf := drop k (recv_buf t)\<rparr>)" for k
    by (rule typed_same [OF t]) (simp_all add: typed_rto [OF t])
  then show "tcb_typed t'" using r t
    by (auto simp: tcb_read_def Let_def typed_ack split: if_splits option.splits TcpState.splits)
qed

lemma typed_write: "tcb_typed t \<Longrightarrow> tcb_write now data w t = (r, t') \<Longrightarrow> tcb_typed t'"
proof -
  assume t: "tcb_typed t" and r: "tcb_write now data w t = (r, t')"
  have "tcb_typed (t\<lparr>send_buf := send_buf t @ d\<rparr>)" if "length (send_buf t) + length d \<le> SEND_CAP" for d
    using t that by (simp add: tcb_typed_def)
  moreover have "length (send_buf t) \<le> 8192" using t by (simp add: tcb_typed_def)
  ultimately show "tcb_typed t'" using r t
    by (auto simp: tcb_write_def Let_def intro!: typed_output split: if_splits option.splits)
qed

lemma typed_close: "tcb_typed t \<Longrightarrow> tcb_typed (tcb_close now t)"
proof -
  assume t: "tcb_typed t"
  have "tcb_typed (t\<lparr>user_closed := True, recv_buf := []\<rparr>)"
    "tcb_typed (t\<lparr>user_closed := True, recv_buf := [], state := s\<rparr>)"
    "tcb_typed (t\<lparr>user_closed := True, recv_buf := [], fin_queued := True\<rparr>)" for s
    by (rule typed_same [OF t]; simp add: typed_rto [OF t])+
  then show "tcb_typed (tcb_close now t)" by (simp add: tcb_close_def Let_def typed_output)
qed

lemma typed_new: "tcb_typed tcb_new"
  by (simp add: tcb_typed_def tcb_new_def)

lemma typed_connect: "tcb_typed t \<Longrightarrow> tcb_typed (tcb_connect p rem isn now t)"
  unfolding tcb_connect_def by (intro typed_output) (simp add: tcb_typed_def)


subsection \<open>The connection table\<close>

lemma tcp_inv_conn:
  assumes "tcp_inv n"
  shows "\<lparr>en_port = p, en_remote = r, en_conn = k\<rparr> \<in> set (tcp_conns n) \<longleftrightarrow>
    p = local_port (tcbs n k) \<and> r = remote (tcbs n k) \<and> live_state (state (tcbs n k))"
  using assms by (auto simp: tcp_inv_def)

lemma tcp_inv_typed: "tcp_inv n \<Longrightarrow> tcb_typed (tcbs n k)"
  by (simp add: tcp_inv_def)

text \<open>A step of one block, after which the block leaves the table if it has closed.\<close>

lemma tcp_step_inv:
  assumes inv: "stack_inv n" and st: "steady (tcbs n k) t" and ty: "tcb_typed t"
    and m: "socks m = (udp_ports n, udp_next n, udp_sockets n, tcp_conns n, tcp_next n, (tcbs n)(k := t))"
  shows "stack_inv (tcp_reap k m)"
proof -
  have f: "udp_ports m = udp_ports n" "udp_next m = udp_next n" "udp_sockets m = udp_sockets n"
    "tcp_conns m = tcp_conns n" "tcp_next m = tcp_next n" "tcbs m = (tcbs n)(k := t)"
    using m by (simp_all add: socks_def)
  have tn: "tcp_inv n" using inv by (simp add: stack_inv_def)
  define P where "P = (\<lambda>en :: Entry. state t = Closed \<longrightarrow> en_conn en \<noteq> k)"
  have conns: "tcp_conns (tcp_reap k m) = filter P (tcp_conns n)"
    by (simp add: tcp_reap_def tcp_remove_def f P_def)
  have tb: "tcbs (tcp_reap k m) = (tcbs n)(k := t)" "udp_inv (tcp_reap k m) = udp_inv n"
    "tcp_next (tcp_reap k m) = tcp_next n"
    by (simp_all add: tcp_reap_def tcp_remove_def f udp_inv_def)
  have "en \<in> set (filter P (tcp_conns n)) \<longleftrightarrow>
    (\<exists>j. en = \<lparr>en_port = local_port (((tcbs n)(k := t)) j), en_remote = remote (((tcbs n)(k := t)) j), en_conn = j\<rparr>
      \<and> live_state (state (((tcbs n)(k := t)) j)))" for en
  proof -
    obtain p r j where en: "en = \<lparr>en_port = p, en_remote = r, en_conn = j\<rparr>" by (cases en) auto
    show ?thesis using tcp_inv_conn [OF tn, of p r j] st
      by (auto simp: en P_def steady_def live_state_def)
  qed
  then have "set (filter P (tcp_conns n)) = {\<lparr>en_port = local_port (((tcbs n)(k := t)) j),
      en_remote = remote (((tcbs n)(k := t)) j), en_conn = j\<rparr> | j. live_state (state (((tcbs n)(k := t)) j))}"
    by blast
  then show ?thesis using inv tn ty
    by (simp add: stack_inv_def tcp_inv_def conns tb distinct_map_filter)
qed

lemma reap_open: "state (tcbs m k) \<noteq> Closed \<Longrightarrow> tcp_reap k m = m"
  by (simp add: tcp_reap_def)

text \<open>A step that does not close the block.\<close>

lemma tcp_update_inv:
  assumes inv: "stack_inv n" and st: "steady (tcbs n k) t" and ty: "tcb_typed t"
    and cl: "state t = Closed \<longrightarrow> state (tcbs n k) = Closed"
  shows "stack_inv (tcp_update k t n)"
proof (cases "state t = Closed")
  case False
  have "tcbs (tcp_update k t n) k = t" using socks_tcp_update [of k t n] by (simp add: socks_def)
  then show ?thesis
    using tcp_step_inv [OF inv st ty, of "tcp_update k t n"] reap_open [of "tcp_update k t n" k] False by simp
next
  case True
  have "stack_inv (tcp_reap k (tcp_update k t n))" by (rule tcp_step_inv [OF inv st ty]) simp
  moreover have "socks (tcp_reap k (tcp_update k t n)) = socks (tcp_update k t n)"
  proof -
    have "\<not> live_state (state (tcbs n k))" using True cl by (simp add: live_state_def)
    then have "\<forall>en\<in>set (tcp_conns n). en_conn en \<noteq> k"
      using inv by (auto simp: stack_inv_def tcp_inv_def)
    then have "filter (\<lambda>en. en_conn en \<noteq> k) (tcp_conns n) = tcp_conns n" by (simp add: filter_id_conv)
    moreover have "tcp_conns (tcp_update k t n) = tcp_conns n"
      using socks_tcp_update [of k t n] by (simp add: socks_def)
    ultimately show ?thesis by (simp add: tcp_reap_def tcp_remove_def socks_def)
  qed
  ultimately show ?thesis using inv_socks(3) by blast
qed


lemma conn_keys_distinct: "tcp_inv n \<Longrightarrow> distinct (map en_conn (tcp_conns n))"
proof -
  assume inv: "tcp_inv n"
  then have "inj_on en_conn (set (tcp_conns n))" by (auto simp: tcp_inv_def inj_on_def)
  moreover have "distinct (tcp_conns n)" using inv distinct_map [of en_port "tcp_conns n"] by (simp add: tcp_inv_def)
  ultimately show ?thesis by (simp add: distinct_map)
qed

lemma conn_keys_live: "tcp_inv n \<Longrightarrow> k \<in> en_conn ` set (tcp_conns n) \<longleftrightarrow> live_state (state (tcbs n k))"
  by (auto simp: tcp_inv_def image_iff)

lemma tcp_new_stack:
  assumes "stack_inv n" "\<not> live_state (state (tcbs n k))"
  shows "stack_inv (tcp_new k n)"
proof -
  have tn: "tcp_inv n" using assms by (simp add: stack_inv_def)
  have "live_state (state (((tcbs n)(k := tcb_new)) j)) \<longleftrightarrow> live_state (state (tcbs n j)) \<and> j \<noteq> k" for j
    using assms(2) by (simp add: live_state_def tcb_new_def)
  then have "{\<lparr>en_port = local_port (((tcbs n)(k := tcb_new)) j), en_remote = remote (((tcbs n)(k := tcb_new)) j),
      en_conn = j\<rparr> | j. live_state (state (((tcbs n)(k := tcb_new)) j))} =
    {\<lparr>en_port = local_port (tcbs n j), en_remote = remote (tcbs n j), en_conn = j\<rparr> | j. live_state (state (tcbs n j))}"
    using assms(2) by auto
  then show ?thesis using assms(1) tn typed_new
    by (simp add: stack_inv_def tcp_inv_def tcp_new_def udp_inv_def)
qed

lemma connect_block:
  "local_port (tcb_connect p rem isn now t) = p \<and> remote (tcb_connect p rem isn now t) = rem \<and>
     state (tcb_connect p rem isn now t) = SynSent"
proof -
  let ?t = "t\<lparr>local_port := p, remote := rem, iss := isn, snd_una := isn, snd_nxt := isn, snd_max := isn, state := SynSent\<rparr>"
  show ?thesis using ident_output [of now False ?t] tcb_output_state [of now False ?t]
    by (simp add: tcb_connect_def ident_def)
qed

lemma tcp_open_stack:
  assumes inv: "stack_inv n"
  shows "stack_inv (snd (tcp_open now isn k rem n))"
proof (cases "state (tcbs n k) = Idle")
  case True
  obtain c nx where c: "pick_ephemeral ephemeral_span (\<lambda>c. c \<in> en_port ` set (tcp_conns n)) (tcp_next n) = (c, nx)"
    by (metis surj_pair)
  have tn: "tcp_inv n" using inv by (simp add: stack_inv_def)
  then have nx: "EPHEMERAL_FIRST \<le> nx" "\<And>q. c = Some q \<Longrightarrow> q \<notin> en_port ` set (tcp_conns n)"
    using pick_ephemeral_ok [OF c] by (auto simp: tcp_inv_def)
  have nxt: "stack_inv (n\<lparr>tcp_next := nx\<rparr>)"
    using inv nx by (simp add: stack_inv_def udp_inv_def tcp_inv_def)
  show ?thesis
  proof (cases c)
    case None
    then show ?thesis using True c nxt by (simp add: tcp_open_def)
  next
    case (Some p)
    define t where "t = tcb_connect p rem isn now (tcbs n k)"
    define m where "m = tcp_update k t (n\<lparr>tcp_next := nx\<rparr>)"
    have f: "udp_ports m = udp_ports n" "udp_next m = udp_next n" "udp_sockets m = udp_sockets n"
      "tcp_conns m = tcp_conns n" "tcp_next m = nx" "tcbs m = (tcbs n)(k := t)"
      using socks_tcp_update [of k t "n\<lparr>tcp_next := nx\<rparr>"] by (simp_all add: socks_def m_def)
    have t: "local_port t = p" "remote t = rem" "live_state (state t)" "tcb_typed t"
      using connect_block [of p rem isn now "tcbs n k"] typed_connect tcp_inv_typed [OF tn]
      by (auto simp: t_def live_state_def)
    have "{\<lparr>en_port = local_port (((tcbs n)(k := t)) j), en_remote = remote (((tcbs n)(k := t)) j),
        en_conn = j\<rparr> | j. live_state (state (((tcbs n)(k := t)) j))} =
      insert \<lparr>en_port = p, en_remote = rem, en_conn = k\<rparr> (set (tcp_conns n))"
      using tn True t by (auto simp: tcp_inv_def live_state_def)
    then have "stack_inv (m\<lparr>tcp_conns := tcp_conns m @ [\<lparr>en_port = p, en_remote = rem, en_conn = k\<rparr>]\<rparr>)"
      using inv tn nx Some t(4) by (simp add: stack_inv_def udp_inv_def tcp_inv_def f)
    then show ?thesis using True c Some by (simp add: tcp_open_def t_def m_def Let_def)
  qed
qed (simp add: tcp_open_def inv)

lemma tcp_begin_stack:
  assumes "stack_inv n" "keeps env"
  shows "stack_inv (snd (tcp_begin env now isn k rem n))"
proof (cases "next_hop (ep_ip rem) n")
  case (Some hop)
  obtain r m where r: "arp_resolve env hop n = (r, m)" by (metis surj_pair)
  then show ?thesis using Some assms(1) arp_resolve_stack [OF assms, of hop]
    by (auto simp: tcp_begin_def tcp_open_stack split: option.split)
qed (simp add: tcp_begin_def assms)

lemma tcp_read_stack: "stack_inv n \<Longrightarrow> stack_inv (snd (tcp_read_turn k l n))"
proof -
  assume inv: "stack_inv n"
  obtain r t where r: "tcb_read l (tcbs n k) = (r, t)" by (metis surj_pair)
  have "tcb_typed (tcbs n k)" using inv by (simp add: stack_inv_def tcp_inv_typed)
  then have "stack_inv (tcp_update k t n)"
    using tcb_read_steady [OF r] typed_read [OF _ r] by (intro tcp_update_inv [OF inv] steadyI) auto
  then show ?thesis by (simp add: tcp_read_turn_def r)
qed

lemma tcp_write_stack: "stack_inv n \<Longrightarrow> stack_inv (snd (tcp_write_turn now k data w n))"
proof -
  assume inv: "stack_inv n"
  obtain r t where r: "tcb_write now data w (tcbs n k) = (r, t)" by (metis surj_pair)
  have "tcb_typed (tcbs n k)" using inv by (simp add: stack_inv_def tcp_inv_typed)
  then have "stack_inv (tcp_update k t n)"
    using tcb_write_steady [OF r] typed_write [OF _ r] by (intro tcp_update_inv [OF inv] steadyI) auto
  then show ?thesis by (simp add: tcp_write_turn_def r)
qed

lemma tcp_drop_stack: "stack_inv n \<Longrightarrow> stack_inv (tcp_drop now k n)"
  unfolding tcp_drop_def
  by (rule tcp_step_inv [where t = "tcb_close now (tcbs n k)"])
    (simp_all add: tcb_close_steady typed_close stack_inv_def tcp_inv_typed)

lemma tcp_refuse_stack: "stack_inv n \<Longrightarrow> stack_inv (tcp_refuse rem seg n)"
  by (simp add: tcp_refuse_def Let_def)

lemma tcp_handle_stack: "stack_inv n \<Longrightarrow> stack_inv (tcp_handle_incoming now src dst seg n)"
proof -
  assume inv: "stack_inv n"
  have "stack_inv (tcp_reap k (net_wake k (tcp_update k (on_segment sg now (tcbs n k)) n)))" for k sg
    by (rule tcp_step_inv [OF inv, where t = "on_segment sg now (tcbs n k)"])
      (use inv in \<open>simp_all add: steady_on_segment typed_on_segment stack_inv_def tcp_inv_typed\<close>)
  then show ?thesis using inv
    by (simp add: tcp_handle_incoming_def Let_def tcp_refuse_stack split: option.split)
qed

lemma tcp_timer_one_stack:
  assumes inv: "stack_inv n" and live: "live_state (state (tcbs n k))"
  shows "stack_inv (tcp_timer_one now k n) \<and> (\<forall>j. j \<noteq> k \<longrightarrow> tcbs (tcp_timer_one now k n) j = tcbs n j)"
proof -
  have tb: "tcbs (tcp_reap k m) = tcbs m" for m by (simp add: tcp_reap_def tcp_remove_def)
  define m where "m = net_wake k (tcp_update k (tcb_on_timer now (tcbs n k)) n)"
  have s: "socks m = (udp_ports n, udp_next n, udp_sockets n, tcp_conns n, tcp_next n, (tcbs n)(k := tcb_on_timer now (tcbs n k)))"
    by (simp add: m_def)
  have "stack_inv (tcp_reap k m)"
    by (rule tcp_step_inv [OF inv _ _ s])
      (use inv live in \<open>simp_all add: steady_on_timer typed_on_timer stack_inv_def tcp_inv_typed live_state_def\<close>)
  moreover have "tcbs m j = tcbs n j" if "j \<noteq> k" for j using s that by (simp add: socks_def)
  moreover have "tcp_reap k n = n" using live by (simp add: reap_open live_state_def)
  ultimately show ?thesis using inv by (simp add: tcp_timer_one_def Let_def m_def tb)
qed

lemma tcp_timer_fold:
  "stack_inv n \<Longrightarrow> distinct ks \<Longrightarrow> (\<And>k. k \<in> set ks \<Longrightarrow> live_state (state (tcbs n k))) \<Longrightarrow>
     stack_inv (fold (tcp_timer_one now) ks n)"
proof (induction ks arbitrary: n)
  case (Cons k ks)
  have k: "stack_inv (tcp_timer_one now k n) \<and> (\<forall>j. j \<noteq> k \<longrightarrow> tcbs (tcp_timer_one now k n) j = tcbs n j)"
    by (rule tcp_timer_one_stack) (use Cons in auto)
  have "live_state (state (tcbs (tcp_timer_one now k n) j))" if "j \<in> set ks" for j
    using k Cons(3,4) that by (metis distinct.simps(2) list.set_intros(2))
  then show ?case using Cons k by simp
qed simp

lemma tcp_timer_stack: "stack_inv n \<Longrightarrow> stack_inv (tcp_on_timer now n)"
  unfolding tcp_on_timer_def
  by (rule tcp_timer_fold) (auto simp: stack_inv_def conn_keys_distinct conn_keys_live [symmetric])

section \<open>Frames and polling\<close>

lemma rx_ipv4_stack:
  "rx_ipv4 chk now my_ip my_mac r buf n = Some n' \<Longrightarrow> stack_inv n \<Longrightarrow> stack_inv n'"
  by (auto simp: rx_ipv4_def rx_icmp_def Let_def tcp_handle_stack udp_handle_stack split: if_splits)

lemma rx_frame_stack:
  "rx_frame chk now my_ip my_mac bs n = Some (b, n') \<Longrightarrow> stack_inv n \<Longrightarrow> stack_inv n'"
  by (auto simp: rx_frame_def rx_arp_def Let_def split: if_splits dest: rx_ipv4_stack)

lemma poll_rx_stack: "net_poll_rx l n = (x, m) \<Longrightarrow> stack_inv n \<Longrightarrow> stack_inv m"
  by (metis stack_inv_ops(2) snd_conv)

lemma handle_packets_stack:
  "handle_incoming_packets chk now my_ip my_mac n = Some (b, n') \<Longrightarrow> stack_inv n \<Longrightarrow> stack_inv n'"
  by (auto simp: handle_incoming_packets_def split: prod.splits dest: rx_frame_stack poll_rx_stack)

lemma rx_drain_stack:
  "rx_drain b chk now my_ip my_mac n = Some (d, n') \<Longrightarrow> stack_inv n \<Longrightarrow> stack_inv n'"
proof (induction b arbitrary: n d)
  case (Suc b)
  obtain g m where h: "handle_incoming_packets chk now my_ip my_mac n = Some (g, m)"
    using Suc(2) by (auto split: option.splits)
  have "stack_inv m" by (rule handle_packets_stack [OF h Suc(3)])
  then show ?case using Suc h by (cases g) auto
qed simp

lemma net_poll_stack: "stack_inv n \<Longrightarrow> net_poll chk now n = Some n' \<Longrightarrow> stack_inv n'"
  by (auto simp: net_poll_def take_rx_work_pending_def mark_rx_work_pending_def Let_def tcp_timer_stack
      split: if_splits option.splits dest: rx_drain_stack)


section \<open>From one host to another\<close>

lemma ipv4_header_shape:
  obtains c :: u16 where "ipv4_header src dst pr tot =
    [0x45, 0] @ be_bytes 2 (of_nat tot :: u16) @ [0, 0, 0x40, 0, 64, pr] @ be_bytes 2 c @ ip_bytes src @ ip_bytes dst"
  by (simp add: ipv4_header_def ipv4_header0_def Let_def blit_def)

lemma ipv4_frame_fields:
  fixes dm sm src dst pr data rest
  defines "buf \<equiv> ipv4_frame dm sm src dst pr data @ rest"
  assumes "length data \<le> 1480"
  shows "u16_at 12 buf = 0x0800" "ip_ihl buf = 20" "ip_total buf = 20 + length data" "buf ! 23 = pr"
    "ip_at 26 buf = src" "ip_at 30 buf = dst" "slice_of 34 (34 + length data) buf = data"
    "length (ipv4_frame dm sm src dst pr data) = 34 + length data"
proof -
  obtain c :: u16 where h: "ipv4_header src dst pr (20 + length data) =
    [0x45, 0] @ be_bytes 2 (of_nat (20 + length data) :: u16) @ [0, 0, 0x40, 0, 64, pr] @ be_bytes 2 c
      @ ip_bytes src @ ip_bytes dst"
    by (rule ipv4_header_shape)
  obtain a b e d where src: "src = Ip a b e d" by (cases src)
  obtain a' b' e' d' where dst: "dst = Ip a' b' e' d'" by (cases dst)
  obtain m0 m1 m2 m3 m4 m5 where dm: "dm = Mac m0 m1 m2 m3 m4 m5" by (cases dm)
  obtain n0 n1 n2 n3 n4 n5 where sm: "sm = Mac n0 n1 n2 n3 n4 n5" by (cases sm)
  note buf = buf_def ipv4_frame_def h [unfolded src dst] be2 src dst dm sm
  show "u16_at 12 buf = 0x0800" by (simp add: buf u16_at_def from_be_def from_le.simps)
  show "ip_ihl buf = 20" by (simp add: buf ip_ihl_def)
  have "ip_total buf = unat (of_nat (20 + length data) :: u16)"
    using from_be_two [of "of_nat (20 + length data) :: u16"]
    by (simp add: buf ip_total_def u16_at_def)
  then show "ip_total buf = 20 + length data" using assms(2) by (simp only: unat_of_nat) simp
  show "buf ! 23 = pr" by (simp add: buf)
  show "ip_at 26 buf = src" "ip_at 30 buf = dst" by (simp_all add: buf ip_at_def)
  show "slice_of 34 (34 + length data) buf = data" by (simp add: buf slice_of_def)
  show "length (ipv4_frame dm sm src dst pr data) = 34 + length data" by (simp add: ipv4_frame_def h)
qed

lemma rx_sent_frame:
  assumes "length data \<le> 1480"
  shows "rx_frame chk now dst mac (ipv4_frame dm sm src dst UDP_PROTOCOL data) n =
      (if 8 \<le> length data then map_option (Pair True) (udp_handle_incoming src dst data n) else Some (True, n))"
    "rx_frame chk now dst mac (ipv4_frame dm sm src dst TCP_PROTOCOL data) n =
      Some (True, if 20 \<le> length data then tcp_handle_incoming now src dst data n else n)"
  by (simp_all add: rx_frame_def rx_buffer_def rx_ipv4_def Let_def ipv4_frame_fields [OF assms])

lemma find_unique:
  "distinct (map fst xs) \<Longrightarrow> (p, k) \<in> set xs \<Longrightarrow> find (\<lambda>(q, _). q = p) xs = Some (p, k)"
  by (induction xs) (auto simp: rev_image_eqI)

lemma find_port:
  assumes "udp_inv n" "udp_strong (udp_sockets n k)" "udp_port (udp_sockets n k) = p" "p \<noteq> 0"
  shows "find (\<lambda>(q, _). q = p) (udp_ports n) = Some (p, k)"
  using udp_invD(1,3) [OF assms(1)] assms(2-4) by (intro find_unique) auto

lemma udp_delivered:
  assumes inv: "stack_inv n" and k: "udp_strong (udp_sockets n k)" "udp_port (udp_sockets n k) = ep_port to" "ep_port to \<noteq> 0"
    and room: "length (udp_queue (udp_sockets n k)) < QUEUE_DATAGRAMS"
    and peer: "udp_peer (udp_sockets n k) \<in> {None, Some \<lparr>ep_ip = src, ep_port = sport\<rparr>}"
    and len: "length data \<le> MAX_PAYLOAD"
  shows "udp_handle_incoming src (ep_ip to) (udp_segment src sport to data) n =
    Some (net_wake k (set_udp k ((udp_sockets n k)\<lparr>udp_queue := udp_queue (udp_sockets n k)
      @ [\<lparr>dg_from = \<lparr>ep_ip = src, ep_port = sport\<rparr>, dg_data = data\<rparr>]\<rparr>) n))"
proof -
  have ui: "udp_inv n" using inv by (simp add: stack_inv_def)
  have "(ep_port to, k) \<in> set (udp_ports n)" using udp_invD(3) [OF ui k(1)] k by simp
  then have "ep_port to \<noteq> DNS_SRC_PORT" using udp_invD(2) [OF ui] by blast
  then show ?thesis
    using udp_segment_fields [OF len, of src sport to] udp_segment_checksum [OF len, of src to sport]
      find_port [OF ui k(1,2,3)] k room peer
    by (auto simp: udp_handle_incoming_def udp_deliver_def Let_def split: option.split)
qed


lemma dns_labels_length: "dns_labels q ls = Some q' \<Longrightarrow> length q' \<le> max (length q) 251"
  by (induction q ls rule: dns_labels.induct) (auto split: if_splits)

lemma dns_query_length: "dns_query name = Some q \<Longrightarrow> length q \<le> 256"
  by (auto simp: dns_query_def split: if_splits dest!: dns_labels_length)

lemma dns_reply_delivered:
  assumes q: "dns_query name = Some q"
  shows "udp_handle_incoming DNS_SERVER my_ip (dns_reply q a) n =
    Some (net_wake DNS_WAIT_KEY (n\<lparr>dns_result := Some a\<rparr>))" "8 \<le> length (dns_reply q a)"
    "length (dns_reply q a) \<le> 1480"
proof -
  obtain m where m: "q = [0x4b, 0x47, 1, 0, 0, 1, 0, 0, 0, 0, 0, 0] @ m @ [0, 0, 1, 0, 1]"
    using q by (rule dns_query_shape)
  have l: "length (dns_reply q a) = 8 + length q + 16" by (simp add: dns_reply_def m)
  have "u16_at 4 (dns_reply q a) = of_nat (8 + length q + 16)"
    by (simp only: dns_reply_def be2 u16_at_def append.simps) (simp add: from_be_two)
  then have len: "unat (u16_at 4 (dns_reply q a)) = 8 + length q + 16"
    using dns_query_length [OF q] by (simp only: unat_of_nat) simp
  have f: "u16_at 2 (dns_reply q a) = DNS_SRC_PORT" "slice_of 6 8 (dns_reply q a) = [0, 0]"
    by (simp_all add: dns_reply_def be2 u16_at_def from_be_def from_le.simps slice_of_def)
  show "udp_handle_incoming DNS_SERVER my_ip (dns_reply q a) n =
    Some (net_wake DNS_WAIT_KEY (n\<lparr>dns_result := Some a\<rparr>))"
    by (simp add: udp_handle_incoming_def Let_def l len f dns_handle_udp_def dns_reply_answer [OF q])
  show "8 \<le> length (dns_reply q a)" "length (dns_reply q a) \<le> 1480"
    using l dns_query_length [OF q] by simp_all
qed

section \<open>Runs of the whole stack\<close>

text \<open>
  The calls of the kernel and of its users; \<open>Card\<close> is the network card changing its
  descriptor rings and buffers, \<open>Irq\<close> its interrupt.
\<close>

datatype net_call =
    UdpNew u64 | UdpBind u64 u16 | UdpConnect u64 Endpoint | UdpSend u64 "Endpoint option" bytes
  | UdpRecv nat "nat option" u64 nat | UdpRelease u64 | UdpDrop u64
  | TcpNew u64 | TcpBegin nat u32 u64 Endpoint | TcpRead u64 nat | TcpWrite nat u64 bytes nat | TcpDrop nat u64
  | ConnDrop u64
  | DnsQuery bytes | DnsTake | Ping u32 ip4 | PopReply nat | SetIp ip4 | Card "E1000 option" | Irq
  | Poll bool nat

fun net_exec :: "(stack \<Rightarrow> stack) \<Rightarrow> net_call \<Rightarrow> stack \<Rightarrow> stack option" where
  "net_exec env (UdpNew k) n = Some (udp_new k n)"
| "net_exec env (UdpBind k p) n = Some (snd (udp_bind k p n))"
| "net_exec env (UdpConnect k peer) n = Some (snd (udp_connect k peer n))"
| "net_exec env (UdpSend k dest data) n = Some (snd (udp_send_to env k dest data n))"
| "net_exec env (UdpRecv now limit k l) n = Some (snd (udp_recv_turn now limit k l n))"
| "net_exec env (UdpRelease k) n = Some (udp_release k n)"
| "net_exec env (UdpDrop k) n = Some (udp_drop k n)"
| "net_exec env (TcpNew k) n = Some (tcp_new k n)"
| "net_exec env (TcpBegin now isn k rem) n = Some (snd (tcp_begin env now isn k rem n))"
| "net_exec env (TcpRead k l) n = Some (snd (tcp_read_turn k l n))"
| "net_exec env (TcpWrite now k data w) n = Some (snd (tcp_write_turn now k data w n))"
| "net_exec env (TcpDrop now k) n = Some (tcp_drop now k n)"
| "net_exec env (ConnDrop k) n = Some (conn_drop k n)"
| "net_exec env (DnsQuery name) n = Some (snd (dns_send_query env name n))"
| "net_exec env DnsTake n = Some (snd (dns_take_result n))"
| "net_exec env (Ping ts a) n = Some (snd (send_icmp_echo_request env ts a n))"
| "net_exec env (PopReply l) n = Some (snd (pop_icmp_reply_raw l n))"
| "net_exec env (SetIp a) n = Some (set_ip_address a n)"
| "net_exec env (Card c) n = Some (n\<lparr>active_nic := c\<rparr>)"
| "net_exec env Irq n = Some (mark_rx_work_pending n)"
| "net_exec env (Poll chk now) n = net_poll chk now n"

text \<open>
  An address is given to a new socket only when no table refers to it, and the
  destructor of a socket runs after its last handle is gone.
\<close>

fun net_call_ok :: "net_call \<Rightarrow> stack \<Rightarrow> bool" where
  "net_call_ok (UdpNew k) n \<longleftrightarrow> k \<notin> snd ` set (udp_ports n)"
| "net_call_ok (UdpDrop k) n \<longleftrightarrow> \<not> udp_strong (udp_sockets n k)"
| "net_call_ok (TcpNew k) n \<longleftrightarrow> k \<notin> en_conn ` set (tcp_conns n)"
| "net_call_ok _ n \<longleftrightarrow> True"

fun run_ok :: "((stack \<Rightarrow> stack) \<times> net_call) list \<Rightarrow> stack \<Rightarrow> bool" where
  "run_ok [] n \<longleftrightarrow> True"
| "run_ok ((env, c) # cs) n \<longleftrightarrow>
     keeps env \<and> net_call_ok c n \<and> (case net_exec env c n of None \<Rightarrow> True | Some n' \<Rightarrow> run_ok cs n')"

fun net_run :: "((stack \<Rightarrow> stack) \<times> net_call) list \<Rightarrow> stack \<Rightarrow> stack option" where
  "net_run [] n = Some n"
| "net_run ((env, c) # cs) n = (case net_exec env c n of None \<Rightarrow> None | Some n' \<Rightarrow> net_run cs n')"

definition stack0 :: "E1000 option \<Rightarrow> stack" where
  "stack0 nic =
     \<lparr>active_nic = nic, host_ip = Ip 0 0 0 0,
      arp_cache = replicate 8 \<lparr>arp_ip = Ip 0 0 0 0, arp_mac = Mac 0 0 0 0 0 0, arp_valid = False\<rparr>,
      icmp_rx_ring = replicate 16 \<lparr>reply_ip = Ip 0 0 0 0, reply_id = 0, reply_seq = 0, reply_len = 0,
        reply_payload = replicate 64 0\<rparr>,
      icmp_rx_head = 0, icmp_rx_tail = 0, ping_seq = 1, rx_work_pending = False, rx_irq_reported = False,
      dns_result = None, woken = [],
      udp_ports = [], udp_next = EPHEMERAL_FIRST,
      udp_sockets = (\<lambda>_. \<lparr>udp_port = 0, udp_peer = None, udp_queue = [], udp_strong = False\<rparr>),
      tcp_conns = [], tcp_next = EPHEMERAL_FIRST, tcbs = (\<lambda>_. tcb_new), forgotten = []\<rparr>"

lemma stack0_inv: "stack_inv (stack0 nic)"
proof -
  have "udp_inv (stack0 nic)" by (simp add: udp_inv_def stack0_def udp_socket_ok_def)
  moreover have "tcp_inv (stack0 nic)"
    by (simp add: tcp_inv_def stack0_def typed_new live_state_def) (simp add: tcb_new_def)
  ultimately show ?thesis by (simp add: stack_inv_def)
qed

lemma pop_reply_stack: "stack_inv n \<Longrightarrow> stack_inv (snd (pop_icmp_reply_raw l n))"
  by (simp add: pop_icmp_reply_raw_def pop_icmp_reply_def)

lemma net_exec_stack:
  assumes inv: "stack_inv n" and env: "keeps env" and ok: "net_call_ok c n" and ex: "net_exec env c n = Some n'"
  shows "stack_inv n'"
proof (cases c)
  case (UdpBind k p)
  obtain r m where "udp_bind_port k p False n = (r, m)" by (metis surj_pair)
  then show ?thesis using UdpBind ex udp_bind_port_stack [OF inv, of k p False r m] by (simp add: udp_bind_def)
next
  case (TcpNew k)
  have "tcp_inv n" using inv by (simp add: stack_inv_def)
  then show ?thesis using TcpNew ok ex tcp_new_stack [OF inv, of k] by (simp add: conn_keys_live)
next
  case (DnsQuery name)
  have "stack_inv (n\<lparr>dns_result := None\<rparr>)" using inv by simp
  then show ?thesis using DnsQuery ex inv transmit_ipv4_stack [OF _ env, of "n\<lparr>dns_result := None\<rparr>"]
    by (auto simp: dns_send_query_def Let_def split: option.splits)
next
  case (Ping ts a)
  have "stack_inv (n\<lparr>ping_seq := ping_seq n + 1\<rparr>)" using inv by simp
  from transmit_ipv4_stack [OF this env, of a 1 "icmp_echo_request (ping_seq n) ts"]
  show ?thesis using Ping ex
    by (auto simp: send_icmp_echo_request_def Let_def split: prod.splits bool.splits)
next
  case (Poll chk now)
  then show ?thesis using ex net_poll_stack [OF inv] by simp
qed (use inv env ok ex in \<open>auto simp: udp_new_stack udp_connect_stack udp_send_stack udp_recv_stack
      udp_release_stack udp_drop_stack tcp_begin_stack tcp_read_stack tcp_write_stack tcp_drop_stack
      dns_take_result_def pop_reply_stack conn_drop_def set_ip_address_def mark_rx_work_pending_def\<close>)

lemma net_run_stack: "run_ok cs n \<Longrightarrow> net_run cs n = Some n' \<Longrightarrow> stack_inv n \<Longrightarrow> stack_inv n'"
proof (induction cs arbitrary: n)
  case (Cons x cs)
  obtain env c where x: "x = (env, c)" by (cases x)
  obtain m where m: "net_exec env c n = Some m" using Cons(3) x by (auto split: option.splits)
  have "stack_inv m" by (rule net_exec_stack [OF Cons(4) _ _ m]) (use Cons(2) x in auto)
  then show ?case using Cons(1) [of m] Cons(2,3) x m by simp
qed simp

end
