(* ===== verification/Net_Properties.thy ===== *)
theory Net_Properties
  imports Net_Safety
begin

text \<open>
  Properties of the whole network stack: the socket tables over any run, faults and
  answers of the receive path, and datagrams and DNS replies from end to end.
\<close>

unbundle bit_operations_syntax

section \<open>Properties of the network stack\<close>

text \<open>C35. Over any run of socket calls, timers, card activity and polls from boot, whatever
  waiting calls let happen in between: ports are unique, the UDP table lists exactly the
  bound sockets still held, queues are bounded and filtered by the connected peer, and
  the TCP table lists exactly the connections that are neither idle nor closed.
\<close>

theorem stack_run_inv:
  assumes "run_ok cs (stack0 nic)" "net_run cs (stack0 nic) = Some n"
  shows "stack_inv n \<and>
    (\<forall>k j. udp_strong (udp_sockets n k) \<and> udp_strong (udp_sockets n j) \<and> udp_port (udp_sockets n k) \<noteq> 0 \<and>
       udp_port (udp_sockets n k) = udp_port (udp_sockets n j) \<longrightarrow> k = j) \<and>
    (\<forall>k. live_state (state (tcbs n k)) \<longleftrightarrow> k \<in> en_conn ` set (tcp_conns n))"
proof -
  have inv: "stack_inv n" by (rule net_run_stack [OF assms stack0_inv])
  then have u: "udp_inv n" and t: "tcp_inv n" by (simp_all add: stack_inv_def)
  have "\<forall>k j. udp_strong (udp_sockets n k) \<and> udp_strong (udp_sockets n j) \<and>
      udp_port (udp_sockets n k) \<noteq> 0 \<and> udp_port (udp_sockets n k) = udp_port (udp_sockets n j) \<longrightarrow> k = j"
  proof (intro allI impI, elim conjE)
    fix k j
    assume a: "udp_strong (udp_sockets n k)" "udp_strong (udp_sockets n j)"
      "udp_port (udp_sockets n k) \<noteq> 0" "udp_port (udp_sockets n k) = udp_port (udp_sockets n j)"
    show "k = j" using find_port [OF u a(1) refl a(3)] find_port [OF u a(2) a(4) [symmetric] a(3)] by simp
  qed
  then show ?thesis using inv by (simp add: conn_keys_live [OF t])
qed

theorem stack_run_inv_witness:
  "\<exists>n. net_run [(\<lambda>n. n, UdpNew 8), (\<lambda>n. n, UdpBind 8 53)] (stack0 None) = Some n \<and>
     udp_ports n = [(53, 8)] \<and> stack_inv n"
proof -
  let ?cs = "[(\<lambda>n. n, UdpNew 8), (\<lambda>n. n, UdpBind 8 53)]"
  have ok: "run_ok ?cs (stack0 None)" by (simp add: keeps_def stack0_def)
  obtain n where n: "net_run ?cs (stack0 None) = Some n" "udp_ports n = [(53, 8)]"
    by (simp add: stack0_def udp_new_def set_udp_def udp_bind_def udp_bind_port_def udp_in_use_def udp_register_def)
  then show ?thesis using stack_run_inv [OF ok n(1)] by blast
qed


text \<open>An echo request of 42 bytes, with the total length field given.\<close>

definition ping_frame :: "u8 \<Rightarrow> u8 \<Rightarrow> bytes" where
  "ping_frame hi lo =
     [1, 2, 3, 4, 5, 6, 11, 12, 13, 14, 15, 16, 8, 0,
      0x45, 0, hi, lo, 0, 0, 0, 0, 64, 1, 0, 0, 10, 0, 2, 2, 10, 0, 2, 15,
      8, 0, 0, 0, 0xBE, 0xEF, 0, 1]"


text \<open>C37. A well-formed echo request of any size is answered: the reply goes back to the
  sender's MAC and IP address with both checksums valid, type 0, and the identifier,
  sequence number and payload unchanged.
\<close>

theorem echo_answered:
  assumes "echo_request my_ip bs"
  shows "\<exists>f. rx_frame chk now my_ip my_mac bs n = Some (True, snd (net_transmit f n)) \<and>
    length f = length bs \<and> mac_at 0 f = mac_at 6 bs \<and> mac_at 6 f = my_mac \<and>
    slice_of 12 24 f = slice_of 12 24 bs \<and> ip_at 26 f = my_ip \<and> ip_at 30 f = ip_at 26 bs \<and>
    calculate_checksum (slice_of 14 34 f) = Some 0 \<and> f ! 34 = 0 \<and>
    calculate_checksum (drop 34 f) = Some 0 \<and> drop 38 f = drop 38 bs"
proof -
  obtain f where "rx_frame chk now my_ip my_mac bs n = Some (True, snd (net_transmit f n))"
    "echo_answer my_ip my_mac bs f" using assms by (rule rx_echo)
  then show ?thesis by (auto simp: echo_answer_def)
qed

theorem echo_answered_witness:
  "\<exists>f. rx_frame True 0 (Ip 10 0 2 15) (Mac 1 2 3 4 5 6) (ping_frame 0 28) (stack0 None)
         = Some (True, snd (net_transmit f (stack0 None))) \<and>
       length f = 42 \<and> ip_at 30 f = Ip 10 0 2 2 \<and> f ! 34 = 0 \<and> drop 38 f = [0xBE, 0xEF, 0, 1]"
proof -
  have "echo_request (Ip 10 0 2 15) (ping_frame 0 28)"
    by (simp add: echo_request_def ping_frame_def ip_total_def u16_at_def ip_at_def from_be_def from_le.simps)
  from echo_answered [OF this, of True 0 "Mac 1 2 3 4 5 6" "stack0 None"]
  show ?thesis by (auto simp: ping_frame_def ip_at_def)
qed

text \<open>
  The sender's side of a datagram: the socket is bound, the addresses are configured
  and the next hop is in the ARP cache.
\<close>

definition udp_ready :: "stack \<Rightarrow> u64 \<Rightarrow> Endpoint \<Rightarrow> ip4 \<Rightarrow> u16 \<Rightarrow> mac6 \<Rightarrow> mac6 \<Rightarrow> bool" where
  "udp_ready m j to src sport dm sm \<longleftrightarrow>
     udp_port (udp_sockets m j) = sport \<and> sport \<noteq> 0 \<and> get_ip_address m = Some src \<and>
     get_mac_address m = Some sm \<and> (\<exists>hop. next_hop (ep_ip to) m = Some hop \<and> arp_cache_lookup hop m = Some dm)"

lemma udp_send_frame:
  assumes "udp_ready m j to src sport dm sm" "ep_port to \<noteq> 0" "length data \<le> MAX_PAYLOAD"
  shows "udp_send_to env j (Some to) data m =
    (case net_transmit (ipv4_frame dm sm src (ep_ip to) UDP_PROTOCOL (udp_segment src sport to data)) m of
       (ok, m') \<Rightarrow> (if ok then Inr (length data) else Inl NetworkUnreachable, m'))"
proof -
  have "length (udp_segment src sport to data) \<le> 1480"
    using udp_segment_fields(1) [OF assms(3)] assms(3) by simp
  then show ?thesis
    using assms
    by (auto simp: udp_ready_def udp_send_to_def udp_ensure_bound_def transmit_ipv4_def arp_resolve_def
        transmit_to_def Let_def split: prod.split)
qed

text \<open>C38. A datagram sent by one host and received by another arrives: the frame that
  \<open>send_to\<close> hands to the card is, on a host with a socket at the destination port,
  queued on exactly that socket with the sender's address, its waiters are woken, and
  a receive on the empty queue returns the data.
\<close>

theorem udp_end_to_end:
  assumes inv: "stack_inv n" and snd: "udp_ready m j to src sport dm sm"
    and k: "udp_strong (udp_sockets n k)" "udp_port (udp_sockets n k) = ep_port to" "ep_port to \<noteq> 0"
    and room: "length (udp_queue (udp_sockets n k)) < QUEUE_DATAGRAMS"
    and peer: "udp_peer (udp_sockets n k) \<in> {None, Some \<lparr>ep_ip = src, ep_port = sport\<rparr>}"
    and len: "length data \<le> MAX_PAYLOAD"
  shows "\<exists>f n'. udp_send_to env j (Some to) data m =
      (case net_transmit f m of (ok, m') \<Rightarrow> (if ok then Inr (length data) else Inl NetworkUnreachable, m')) \<and>
    rx_frame chk now (ep_ip to) mac f n = Some (True, n') \<and>
    udp_queue (udp_sockets n' k) = udp_queue (udp_sockets n k)
      @ [\<lparr>dg_from = \<lparr>ep_ip = src, ep_port = sport\<rparr>, dg_data = data\<rparr>] \<and>
    (\<forall>i. i \<noteq> k \<longrightarrow> udp_sockets n' i = udp_sockets n i) \<and> woken n' = woken n @ [k] \<and>
    (udp_queue (udp_sockets n k) = [] \<longrightarrow>
       fst (udp_recv_turn now limit k (length data) n') = Some (Inr (data, \<lparr>ep_ip = src, ep_port = sport\<rparr>)))"
proof -
  let ?seg = "udp_segment src sport to data"
  let ?f = "ipv4_frame dm sm src (ep_ip to) UDP_PROTOCOL ?seg"
  let ?n = "net_wake k (set_udp k ((udp_sockets n k)\<lparr>udp_queue := udp_queue (udp_sockets n k)
      @ [\<lparr>dg_from = \<lparr>ep_ip = src, ep_port = sport\<rparr>, dg_data = data\<rparr>]\<rparr>) n)"
  have "length ?seg = 8 + length data" by (rule udp_segment_fields(1) [OF len])
  then have rx: "rx_frame chk now (ep_ip to) mac ?f n = Some (True, ?n)"
    using rx_sent_frame(1) [of ?seg chk now "ep_ip to" mac dm sm src n] len
      udp_delivered [OF inv k room peer len] by simp
  show ?thesis
    by (intro exI [of _ ?f] exI [of _ ?n] conjI udp_send_frame [OF snd k(3) len] rx)
      (use k in \<open>simp_all add: net_wake_def set_udp_def udp_recv_turn_def Let_def\<close>)
qed

text \<open>Two hosts: a server with a socket on port 53, a client whose cache knows the server.\<close>

definition demo_server :: stack where
  "demo_server = snd (udp_bind 8 53 (udp_new 8 (stack0 None)))"

definition demo_nic :: E1000 where
  "demo_nic = \<lparr>mmio_null = True, rx_next = 0, tx_next = 0, rx_ring = [], tx_ring = [], rx_bufs = [], tx_bufs = [],
     reg_tdt = 0, reg_rdt = 0, reg_ral = 0, reg_rah = 0\<rparr>"

definition demo_client :: stack where
  "demo_client = (udp_register 9 60000 (udp_new 9 (stack0 (Some demo_nic))))
     \<lparr>host_ip := Ip 10 0 2 15, arp_cache := [\<lparr>arp_ip = Ip 10 0 2 7, arp_mac = Mac 7 7 7 7 7 7, arp_valid = True\<rparr>]\<rparr>"

lemma demo_server_eq: "demo_server = udp_register 8 53 (udp_new 8 (stack0 None))"
  by (simp add: demo_server_def udp_bind_def udp_bind_port_def udp_new_def set_udp_def stack0_def udp_in_use_def)

lemma demo_server_inv: "stack_inv demo_server"
proof -
  have "stack_inv (udp_new 8 (stack0 None))" by (rule udp_new_stack [OF stack0_inv]) (simp add: stack0_def)
  from net_exec_stack [OF this, of "\<lambda>n. n" "UdpBind 8 53" demo_server] show ?thesis
    by (simp add: demo_server_def keeps_def)
qed

lemma demo_client_ready:
  "udp_ready demo_client 9 \<lparr>ep_ip = Ip 10 0 2 7, ep_port = 53\<rparr> (Ip 10 0 2 15) 60000 (Mac 7 7 7 7 7 7) (Mac 0 0 0 0 0 0)"
  by (simp add: udp_ready_def demo_client_def udp_register_def udp_new_def set_udp_def stack0_def get_ip_address_def
      get_mac_address_def mac_address_def demo_nic_def next_hop_def arp_cache_lookup_def)

theorem udp_end_to_end_witness:
  "\<exists>f n'. rx_frame True 5 (Ip 10 0 2 7) (Mac 7 7 7 7 7 7) f demo_server = Some (True, n') \<and>
     fst (udp_recv_turn 5 None 8 3 n') = Some (Inr ([1, 2, 3], \<lparr>ep_ip = Ip 10 0 2 15, ep_port = 60000\<rparr>))"
proof -
  have "udp_strong (udp_sockets demo_server 8)" "udp_port (udp_sockets demo_server 8) = 53"
    "udp_queue (udp_sockets demo_server 8) = []" "udp_peer (udp_sockets demo_server 8) = None"
    by (simp_all add: demo_server_eq udp_register_def udp_new_def set_udp_def)
  then show ?thesis
    using udp_end_to_end [OF demo_server_inv demo_client_ready, of 8 "[1, 2, 3]" "\<lambda>n. n" True 5
        "Mac 7 7 7 7 7 7" None] by (auto simp: numeral_3_eq_3)
qed

text \<open>C39. A name server's answer to a query that this client sent comes back as the result:
  a reply that carries the question and one address for it is accepted, its address
  is stored and returned, and the waiter for the query is woken.
\<close>

theorem dns_end_to_end:
  assumes "dns_query name = Some q"
  shows "\<exists>n'. rx_frame chk now my_ip mac (ipv4_frame dm sm DNS_SERVER my_ip UDP_PROTOCOL (dns_reply q a)) n
      = Some (True, n') \<and> fst (dns_take_result n') = Some a \<and> woken n' = woken n @ [DNS_WAIT_KEY]"
  using dns_reply_delivered(1) [OF assms, of my_ip a n] dns_reply_delivered(2,3) [OF assms, of a]
    rx_sent_frame(1) [of "dns_reply q a" chk now my_ip mac dm sm DNS_SERVER n]
  by (simp add: dns_take_result_def net_wake_def)

theorem dns_end_to_end_witness:
  "\<exists>q n'. dns_query [97, 46, 98] = Some q \<and>
     rx_frame True 0 (Ip 10 0 2 15) (Mac 1 2 3 4 5 6)
       (ipv4_frame (Mac 1 2 3 4 5 6) (Mac 7 7 7 7 7 7) DNS_SERVER (Ip 10 0 2 15) UDP_PROTOCOL
         (dns_reply q (Ip 1 2 3 4))) (stack0 None) = Some (True, n') \<and>
     fst (dns_take_result n') = Some (Ip 1 2 3 4)"
proof -
  obtain q where q: "dns_query [97, 46, 98] = Some q" by (simp add: dns_query_def)
  show ?thesis
    using dns_end_to_end [OF q, of True 0 "Ip 10 0 2 15" "Mac 1 2 3 4 5 6" "Mac 1 2 3 4 5 6" "Mac 7 7 7 7 7 7"
        "Ip 1 2 3 4" "stack0 None"] q by blast
qed

end
