(* ===== verification/Spec2Isabelle.thy ===== *)
theory Spec2Isabelle
  imports File_Table Sched_Properties Tcp_Properties Net_Properties
begin

text \<open>
  \<^bold>\<open>kaguyaOS.\<close> A verification development of the kernel under \<^verbatim>\<open>src/src\<close>: its
  filesystem, pipes and descriptor tables, its scheduler, and its network stack. The
  kernel is written in Rust; what is modelled is the code that is compiled without the
  feature \<^verbatim>\<open>jihoo-kernel\<close>.

  \<^bold>\<open>The parts and how they meet.\<close> A process reaches the kernel through descriptors
  (\<^verbatim>\<open>file.rs\<close>), which stand for files of the filesystem (\<^verbatim>\<open>fs.rs\<close>), ends of pipes
  (\<^verbatim>\<open>pipe.rs\<close>) and sockets (\<^verbatim>\<open>drivers/net\<close>). Calls that cannot proceed wait on an event of
  the scheduler (\<^verbatim>\<open>process/mod.rs\<close>) that the other side signals; the scheduler loop calls
  \<^verbatim>\<open>net::poll\<close>, which runs the TCP timers and dispatches received frames.

  \<^bold>\<open>Filesystem\<close> (\<^verbatim>\<open>fs.rs\<close>). \<open>Kaguya_Prelude\<close> has the result type, the state monad \<open>op\<close>,
  slices, little- and big-endian codecs and the disk as a store of bytes. \<open>Fs_Device\<close>: block transfers
  on the RAM disk and NVMe, the boot sector. \<open>Fs_Fat\<close>: the allocation table, allocation
  and release of clusters. \<open>Fs_Dir\<close>: directory entries, slot generations, lookup.
  \<open>Fs_Files\<close>: \<^verbatim>\<open>format\<close>, \<^verbatim>\<open>create_file\<close>, \<^verbatim>\<open>read_file\<close>, \<^verbatim>\<open>delete_file\<close>, \<^verbatim>\<open>open_file\<close>, \<^verbatim>\<open>read_at\<close>,
  \<^verbatim>\<open>write_at\<close>, \<^verbatim>\<open>list_files\<close>. The locale \<open>indexed_store\<close> states what an array of records on
  the disk promises and is interpreted for the table, the clusters and the directory.
  \<open>Fs_Volume\<close> has the invariant \<open>wf_fs\<close> of a volume and the abstract view \<open>fs_view\<close>, a map
  from names to contents; \<open>Fs_Correct\<close> and \<open>Fs_Offset\<close> prove each operation against the
  view, and \<open>Fs_Properties\<close> states the results: every operation is the expected update of
  the view or reports its error, and the invariant holds over all runs. Loops over
  chains are bounded by the number of clusters, as in the code, so they are total on
  cyclic chains as well.

  \<^bold>\<open>Pipes and descriptors.\<close> \<open>Pipe\<close> models the ring, its critical sections and threads that
  interleave between them (one \<open>pipe_next\<close> step is one critical section, snapshot or
  wait); no wakeup is lost, and bytes come out in order. \<open>File_Table\<close> models the tables of
  descriptors over the filesystem and the pipes (\<open>file_open\<close> to \<open>drop_table\<close>): reference counts, offsets,
  seeking, lowest free descriptor. The locale \<open>event_counter\<close> is the contract of event
  generations, interpreted for the pipes and the scheduler.

  \<^bold>\<open>Scheduler\<close> (\<^verbatim>\<open>process/mod.rs\<close>). \<open>Scheduler\<close> has the task table, run queues, per-CPU state
  and every operation as a function of the whole state; \<^verbatim>\<open>switch_task\<close> is split where it
  releases the lock (\<open>switch_decide\<close>, \<open>switch_commit\<close>), because other CPUs run in between.
  \<open>Sched_Safety\<close> proves the invariant \<open>core_inv\<close> over arbitrary interleavings, and
  \<open>Sched_Properties\<close> states exclusivity of stacks, safe reaping, the guarantee of event
  snapshots, stealing, and a race of \<^verbatim>\<open>terminate_task\<close> with \<^verbatim>\<open>wait_task\<close>.

  \<^bold>\<open>Network\<close> (\<^verbatim>\<open>drivers/net\<close>). \<open>Net_Base\<close>: the checksum, the descriptor rings of the e1000
  card, the ARP cache, the IPv4 transmit path and the ring of ICMP replies, over the record
  \<open>net\<close>. \<open>Dns\<close>: the DNS client. \<open>Tcp\<close>: the control block of a connection and all its
  operations; calls of \<^verbatim>\<open>transmit\<close> are logged in its \<open>outbox\<close>. \<open>Tcp_Stream\<close> has the
  invariants of the send side, the receive side, the timer and the bounds, over runs \<open>tcp_reach\<close> of
  a connection against arbitrary segments; \<open>Tcp_Properties\<close> states them. \<open>Net_Sockets\<close>
  extends \<open>net\<close> to \<open>stack\<close> with the tables of UDP sockets and TCP connections, models the
  socket calls, delivery and timers, the dispatch of a received frame on the bytes of
  the receive buffer (\<^verbatim>\<open>handle_incoming_packets\<close>, with a panic or an access outside the
  buffer as \<open>None\<close>) and \<^verbatim>\<open>net::poll\<close>. \<open>Net_Safety\<close> and \<open>Net_Properties\<close>: the tables are exact
  over every run, exactly which frames fault, echo replies are correct, datagrams and
  DNS replies arrive end to end.

  \<^bold>\<open>Conventions.\<close> Integers of the source are words of their width (\<open>u8\<close> to \<open>u64\<close>) where
  they wrap or are encoded, and natural numbers where the code bounds them. A fallible
  function returns a sum with the error on the left; a state-changing one takes and
  returns the state. A critical section under a spinlock is one step. What other
  threads do while a call waits is a parameter of the call (\<open>env\<close>), which the theorems
  constrain only by the invariant; a blocking loop takes the list of its turns. Ticks of the
  scheduler clock, initial sequence numbers and time stamps are parameters.

  \<^bold>\<open>Not modelled.\<close> Hardware access and its drivers (xHCI, NVMe queues, PCI
  configuration, virtio-gpu, the keyboard, the e1000 initialisation, ACPI tables, the
  interrupt controllers, descriptor tables, port I/O, CPU start-up) are sequences of
  register accesses whose effect is the device's. The console and shells print. The
  boot entry, UEFI bindings and the system call entry are assembly and tables of calls
  into the modelled parts. Memory management (frames, page tables, address spaces, the
  kernel heap), the program loader and the spinlock are not covered. User programs,
  the image tool and the \<^verbatim>\<open>jihoo\<close> port under \<^verbatim>\<open>src/src/jihoo\<close> are
  other programs; the port is written in another language.
\<close>

end
